(* ===== verification/Prelude.thy ===== *)
theory Prelude
  imports Main "HOL-Library.Sublist"
begin

section \<open>Shared vocabulary: exceptions, bytes, theorem collections\<close>

text \<open>
  What every component of the library uses: the C++ exceptions the sources throw, as
  values of a sum type; the bytes the sources name; the theorem collections the component
  proofs feed to the simplifier.
\<close>

named_theorems cstr_simps \<open>evaluation of std::string searches on strings of known shape\<close>
named_theorems cmap_simps \<open>lookups after an update of a std::map\<close>
named_theorems inv_intros \<open>operations keep their component's invariant\<close>

subsection \<open>Exceptions\<close>

text \<open>
  The exceptions the sources throw or let through. The last six stand for the undefined
  behaviour and the failing \<^verbatim>\<open>assert\<close> of the code (a null or dangling pointer followed,
  an indeterminate value read, a signed overflow) and for
  \<^verbatim>\<open>std::terminate\<close>, so that a model never hides them behind a value of HOL.
\<close>

datatype exn =
    Invalid_argument string
  | Out_of_range
  | Runtime_error string
  | Assert_failed
  | Null_deref
  | Use_after_free
  | Indeterminate_value
  | Int_overflow
  | Std_terminate

type_synonym 'a throws = "exn + 'a"

definition bind_exn :: "'a throws \<Rightarrow> ('a \<Rightarrow> 'b throws) \<Rightarrow> 'b throws" where
  "bind_exn m f = (case m of Inl e \<Rightarrow> Inl e | Inr x \<Rightarrow> f x)"

lemma bind_exn_simps [simp]:
  "bind_exn (Inl e) f = Inl e"
  "bind_exn (Inr x) f = f x"
  by (simp_all add: bind_exn_def)

lemma bind_exn_eq_Inr [simp]:
  "bind_exn m f = Inr y \<longleftrightarrow> (\<exists>x. m = Inr x \<and> f x = Inr y)"
  by (simp add: bind_exn_def split: sum.split)

lemma bind_exn_eq_Inl:
  "bind_exn m f = Inl e \<longleftrightarrow> m = Inl e \<or> (\<exists>x. m = Inr x \<and> f x = Inl e)"
  by (simp add: bind_exn_def split: sum.split)

lemma bind_exn_cong [fundef_cong]:
  "m = m' \<Longrightarrow> (\<And>x. m' = Inr x \<Longrightarrow> f x = f' x) \<Longrightarrow> bind_exn m f = bind_exn m' f'"
  by (simp add: bind_exn_def split: sum.split)

subsection \<open>Bytes\<close>

abbreviation newline :: char where "newline \<equiv> CHR 0x0A"
abbreviation nul :: char where "nul \<equiv> CHR 0x00"
abbreviation dquote :: char where "dquote \<equiv> CHR 0x22"
abbreviation squote :: char where "squote \<equiv> CHR 0x27"
abbreviation escape :: char where "escape \<equiv> CHR 0x1B"

subsection \<open>Lists\<close>

lemma foldl_append_assoc:
  "foldl (\<lambda>acc x. acc @ f x) (a @ b) xs = a @ foldl (\<lambda>acc x. acc @ f x) b xs"
  by (induction xs arbitrary: b) simp_all

lemma foldl_append_concat: "foldl (\<lambda>acc x. acc @ f x) a xs = a @ concat (map f xs)"
  by (induction xs arbitrary: a) simp_all

lemma foldl_concat_chunks:
  "foldl (\<lambda>s c. foldl step s c) s cs = foldl step s (concat cs)"
  by (induction cs arbitrary: s) simp_all

lemma sorted_wrt_less_distinct:
  fixes xs :: "'a::order list"
  shows "sorted_wrt (<) xs \<Longrightarrow> distinct xs"
  by (induction xs) auto

end
