(* ===== verification/Cpp_Map.thy ===== *)
theory Cpp_Map
  imports Prelude "HOL-Library.List_Lexorder" "HOL-Library.Char_ord"
begin

section \<open>std::map as the sources use it\<close>

text \<open>
  A \<^verbatim>\<open>std::map\<close> is an association list in increasing key order, because the sources
  iterate over their maps (all streams in turn, the first subsystem of a name). The
  operations are \<^verbatim>\<open>find\<close>, \<^verbatim>\<open>emplace\<close> (which leaves an existing entry alone),
  \<^verbatim>\<open>erase\<close> and the assignment through an iterator. The locale \<open>ordered_map\<close> is the
  contract the components rely on; its lemmas are proved once and reach them through the
  interpretation \<open>cmap\<close>.
\<close>

type_synonym ('k, 'v) std_map = "('k \<times> 'v) list"

definition map_find :: "'k \<Rightarrow> ('k, 'v) std_map \<Rightarrow> 'v option" where
  "map_find k m = map_of m k"

fun map_emplace :: "'k::linorder \<Rightarrow> 'v \<Rightarrow> ('k, 'v) std_map \<Rightarrow> ('k, 'v) std_map" where
  "map_emplace k v [] = [(k, v)]"
| "map_emplace k v ((k', v') # m) =
     (if k < k' then (k, v) # (k', v') # m
      else if k = k' then (k', v') # m
      else (k', v') # map_emplace k v m)"

definition map_erase :: "'k \<Rightarrow> ('k, 'v) std_map \<Rightarrow> ('k, 'v) std_map" where
  "map_erase k m = filter (\<lambda>(k', v). k' \<noteq> k) m"

text \<open>\<^verbatim>\<open>i->second = v\<close> for the iterator \<open>i\<close> that \<^verbatim>\<open>find(k)\<close> returned.\<close>

definition map_assign :: "'k \<Rightarrow> 'v \<Rightarrow> ('k, 'v) std_map \<Rightarrow> ('k, 'v) std_map" where
  "map_assign k v m = map (\<lambda>(k', v'). if k' = k then (k', v) else (k', v')) m"

definition map_wf :: "('k::linorder, 'v) std_map \<Rightarrow> bool" where
  "map_wf m \<longleftrightarrow> sorted_wrt (<) (map fst m)"

subsection \<open>The contract\<close>

locale ordered_map =
  fixes find :: "'k::linorder \<Rightarrow> 'm \<Rightarrow> 'v option"
    and emplace :: "'k \<Rightarrow> 'v \<Rightarrow> 'm \<Rightarrow> 'm"
    and erase :: "'k \<Rightarrow> 'm \<Rightarrow> 'm"
    and assign :: "'k \<Rightarrow> 'v \<Rightarrow> 'm \<Rightarrow> 'm"
    and entries :: "'m \<Rightarrow> ('k \<times> 'v) list"
    and wf :: "'m \<Rightarrow> bool"
  assumes find_emplace: "wf m \<Longrightarrow>
      find k (emplace k' v m) = (if k = k' \<and> find k m = None then Some v else find k m)"
    and find_erase: "find k (erase k' m) = (if k = k' then None else find k m)"
    and find_assign: "find k (assign k' v m) =
      (if k = k' then map_option (\<lambda>_. v) (find k m) else find k m)"
    and find_entries: "wf m \<Longrightarrow> find k m = Some v \<longleftrightarrow> (k, v) \<in> set (entries m)"
    and entries_sorted: "wf m \<Longrightarrow> sorted_wrt (<) (List.map fst (entries m))"
    and entries_inject: "entries m = entries m' \<Longrightarrow> m = m'"
    and wf_emplace: "wf m \<Longrightarrow> wf (emplace k v m)"
    and wf_erase: "wf m \<Longrightarrow> wf (erase k m)"
    and wf_assign: "wf m \<Longrightarrow> wf (assign k v m)"
begin

lemma find_emplace_new [cmap_simps]:
  "wf m \<Longrightarrow> find k m = None \<Longrightarrow> find k (emplace k v m) = Some v"
  by (simp add: find_emplace)

lemma find_emplace_old [cmap_simps]:
  "wf m \<Longrightarrow> find k m = Some v \<Longrightarrow> find k (emplace k' w m) = Some v"
  by (simp add: find_emplace)

lemma entries_functional:
  "wf m \<Longrightarrow> (k, v) \<in> set (entries m) \<Longrightarrow> (k, w) \<in> set (entries m) \<Longrightarrow> v = w"
  by (metis find_entries option.inject)

lemma keys_distinct: "wf m \<Longrightarrow> distinct (List.map fst (entries m))"
  by (rule sorted_wrt_less_distinct) (rule entries_sorted)

text \<open>A map is determined by its lookups, so an operation without effect on lookups has none.\<close>

lemma find_extensional:
  assumes "wf m" "wf m'" "\<And>k. find k m = find k m'"
  shows "m = m'"
proof (rule entries_inject)
  have same: "set (entries m) = set (entries m')"
    using assms find_entries by (metis subrelI subset_antisym)
  have "sorted (List.map fst (entries m))" "sorted (List.map fst (entries m'))"
    using entries_sorted assms(1,2) strict_sorted_imp_sorted by blast+
  moreover have "inj_on fst (set (entries m) \<union> set (entries m'))"
    using same entries_functional [OF assms(1)] by (auto intro!: inj_onI)
  moreover have "distinct (entries m)" "distinct (entries m')"
    using keys_distinct assms(1,2) distinct_map by blast+
  ultimately show "entries m = entries m'"
    using same by (metis map_sorted_distinct_set_unique keys_distinct assms(1,2))
qed

lemma emplace_existing: "wf m \<Longrightarrow> find k m = Some v \<Longrightarrow> emplace k w m = m"
  by (rule find_extensional) (auto simp: find_emplace wf_emplace)

lemma erase_absent: "wf m \<Longrightarrow> find k m = None \<Longrightarrow> erase k m = m"
  by (rule find_extensional) (auto simp: find_erase wf_erase)

lemma erase_emplace_new: "wf m \<Longrightarrow> find k m = None \<Longrightarrow> erase k (emplace k v m) = m"
  by (rule find_extensional) (auto simp: find_erase find_emplace wf_erase wf_emplace)

end

subsection \<open>The sorted association list keeps the contract\<close>

lemma map_of_emplace:
  "map_wf m \<Longrightarrow>
     map_of (map_emplace k' v m) k = (if k = k' \<and> map_of m k = None then Some v else map_of m k)"
proof (induction m)
  case Nil
  then show ?case by auto
next
  case (Cons p m)
  obtain a b where p: "p = (a, b)" by (cases p)
  have "k' < a \<Longrightarrow> map_of m k' = None"
    using Cons.prems p
    by (force simp: map_wf_def map_of_eq_None_iff)
  then show ?case using Cons p by (auto simp: map_wf_def)
qed

lemma set_keys_emplace: "set (map fst (map_emplace k v m)) = insert k (set (map fst m))"
  by (induction k v m rule: map_emplace.induct) auto

lemma map_wf_emplace: "map_wf m \<Longrightarrow> map_wf (map_emplace k v m)"
proof (induction m)
  case Nil
  then show ?case by (simp add: map_wf_def)
next
  case (Cons p m)
  obtain a b where p: "p = (a, b)" by (cases p)
  show ?case
    using Cons p set_keys_emplace [of k v m]
    by (fastforce simp: map_wf_def)
qed

lemma map_of_erase: "map_of (map_erase k' m) k = (if k = k' then None else map_of m k)"
  by (induction m) (auto simp: map_erase_def)

lemma map_of_assign:
  "map_of (map_assign k' v m) k = (if k = k' then map_option (\<lambda>_. v) (map_of m k) else map_of m k)"
  by (induction m) (auto simp: map_assign_def)

lemma map_wf_erase: "map_wf m \<Longrightarrow> map_wf (map_erase k m)"
  by (induction m) (auto simp: map_wf_def map_erase_def)

lemma map_keys_assign: "map fst (map_assign k v m) = map fst m"
  by (induction m) (auto simp: map_assign_def)

interpretation cmap: ordered_map map_find map_emplace map_erase map_assign "\<lambda>m. m" map_wf
proof (unfold_locales, goal_cases)
  case (4 m k v)
  then show ?case
    by (simp add: map_find_def map_wf_def sorted_wrt_less_distinct)
next
  case (5 m)
  then show ?case by (simp add: map_wf_def)
next
  case (9 m k v)
  then show ?case by (simp add: map_wf_def map_keys_assign)
next
  case (1 m k k' v)
  then show ?case by (auto simp: map_find_def map_of_emplace)
qed (simp_all add: map_find_def map_of_erase map_of_assign map_wf_emplace map_wf_erase)

lemmas map_wf_intros [inv_intros] = cmap.wf_emplace cmap.wf_erase cmap.wf_assign

lemma map_wf_Nil [simp, inv_intros]: "map_wf []"
  by (simp add: map_wf_def)

lemma map_find_Nil [simp]: "map_find k [] = None"
  by (simp add: map_find_def)

lemma map_find_in_keys: "map_find k m = Some v \<Longrightarrow> k \<in> fst ` set m"
  by (force simp: map_find_def dest: map_of_SomeD)

end
