(* ===== verification/Log_Level.thy ===== *)
theory Log_Level
  imports Cpp_Map
begin

section \<open>Log levels (logger.h, logger_private.cpp, logger.cpp)\<close>

text \<open>
  The enumeration \<^verbatim>\<open>logger::log_level\<close>, its order (the order of the enumerators, which
  the filters compare), the name table \<^verbatim>\<open>s_level_names\<close> and the three functions that
  read the table.
\<close>

datatype log_level = Finest | Finer | Fine | Config | Info | Warning | Severe

fun level_index :: "log_level \<Rightarrow> nat" where
  "level_index Finest = 0"
| "level_index Finer = 1"
| "level_index Fine = 2"
| "level_index Config = 3"
| "level_index Info = 4"
| "level_index Warning = 5"
| "level_index Severe = 6"

lemma level_index_inject [simp]: "level_index a = level_index b \<longleftrightarrow> a = b"
  by (cases a; cases b) simp_all

instantiation log_level :: linorder
begin

definition less_eq_log_level :: "log_level \<Rightarrow> log_level \<Rightarrow> bool" where
  "less_eq_log_level a b \<longleftrightarrow> level_index a \<le> level_index b"

definition less_log_level :: "log_level \<Rightarrow> log_level \<Rightarrow> bool" where
  "less_log_level a b \<longleftrightarrow> level_index a < level_index b"

instance
  by standard (auto simp: less_eq_log_level_def less_log_level_def simp flip: level_index_inject)

end

lemmas level_order = less_eq_log_level_def less_log_level_def

lemma Finest_least [simp]: "Finest \<le> l"
  by (simp add: level_order)

definition s_level_names :: "(log_level, string) std_map" where
  "s_level_names =
     [(Finest, ''finest''), (Finer, ''finer''), (Fine, ''fine''), (Config, ''config''),
      (Info, ''info''), (Warning, ''warning''), (Severe, ''severe'')]"

text \<open>\<^verbatim>\<open>at\<close> throws \<^verbatim>\<open>out_of_range\<close> for a level the table does not hold.\<close>

definition level_name_at :: "log_level \<Rightarrow> string throws" where
  "level_name_at l = (case map_find l s_level_names of None \<Rightarrow> Inl Out_of_range | Some n \<Rightarrow> Inr n)"

definition level_name :: "log_level \<Rightarrow> string" where
  "level_name l = (case level_name_at l of Inl _ \<Rightarrow> [] | Inr n \<Rightarrow> n)"

fun level_by_name_loop :: "(log_level, string) std_map \<Rightarrow> string \<Rightarrow> log_level throws" where
  "level_by_name_loop [] name = Inl (Invalid_argument ''Unknown level name.'')"
| "level_by_name_loop ((l, n) # m) name = (if n = name then Inr l else level_by_name_loop m name)"

definition level_by_name :: "string \<Rightarrow> log_level throws" where
  "level_by_name name = level_by_name_loop s_level_names name"

definition all_levels :: "log_level list" where
  "all_levels = map fst s_level_names"

lemmas level_tables = s_level_names_def level_name_at_def level_name_def level_by_name_def
  all_levels_def map_find_def

lemma level_name_simps [simp]:
  "level_name Finest = ''finest''" "level_name Finer = ''finer''" "level_name Fine = ''fine''"
  "level_name Config = ''config''" "level_name Info = ''info''"
  "level_name Warning = ''warning''" "level_name Severe = ''severe''"
  by (simp_all add: level_tables)

lemma level_name_at_total [simp]: "level_name_at l = Inr (level_name l)"
  by (cases l) (simp_all add: level_tables)

lemma length_level_name: "length (level_name l) \<le> 7"
  by (cases l) simp_all

lemma level_by_name_eq:
  "level_by_name n =
     (if n = ''finest'' then Inr Finest else if n = ''finer'' then Inr Finer
      else if n = ''fine'' then Inr Fine else if n = ''config'' then Inr Config
      else if n = ''info'' then Inr Info else if n = ''warning'' then Inr Warning
      else if n = ''severe'' then Inr Severe
      else Inl (Invalid_argument ''Unknown level name.''))"
  by (simp add: level_by_name_def s_level_names_def eq_commute [of _ n])

lemma level_by_name_level_name [simp]: "level_by_name (level_name l) = Inr l"
  by (cases l) (simp_all add: level_by_name_eq)

lemma level_by_name_Inr: "level_by_name n = Inr l \<Longrightarrow> n = level_name l"
  by (simp add: level_by_name_eq split: if_splits)

lemma level_by_name_Inl:
  "level_by_name n = Inl e \<Longrightarrow> e = Invalid_argument ''Unknown level name.''"
  by (simp add: level_by_name_eq split: if_splits)

text \<open>
  The name table is a bijection: looking a name up gives a level exactly when it is
  that level's name, every other name is refused with \<^verbatim>\<open>invalid_argument\<close>, and
  \<^verbatim>\<open>all_levels\<close> lists every level exactly once from the least to the most severe.
\<close>

theorem level_names_bijective:
  "(level_by_name n = Inr l \<longleftrightarrow> n = level_name l) \<and>
   (n \<notin> range level_name \<longleftrightarrow> level_by_name n = Inl (Invalid_argument ''Unknown level name.'')) \<and>
   set all_levels = UNIV \<and> sorted_wrt (<) all_levels"
proof -
  have "k \<in> set all_levels" for k
    by (cases k) (simp_all add: all_levels_def s_level_names_def)
  then have "set all_levels = UNIV" by auto
  moreover have "sorted_wrt (<) all_levels"
    by (simp add: all_levels_def s_level_names_def level_order)
  moreover have "n \<notin> range level_name \<longleftrightarrow>
      level_by_name n = Inl (Invalid_argument ''Unknown level name.'')"
    by (cases "level_by_name n") (auto dest: level_by_name_Inl level_by_name_Inr)
  ultimately show ?thesis by (auto dest: level_by_name_Inr)
qed

end
