(* ===== verification/Cpp_String.thy ===== *)
theory Cpp_String
  imports Prelude "HOL-Library.Word" "HOL-Library.Char_ord"
begin

section \<open>std::string and the number conversions of the C library\<close>

text \<open>
  The searches, slices and conversions the sources call. A position is a \<open>nat\<close>,
  \<^verbatim>\<open>npos\<close> is \<open>None\<close>, and \<^verbatim>\<open>substr\<close> throws \<^verbatim>\<open>out_of_range\<close> for a start
  past the end. Integers read from text keep the width of the C type they are read into.
\<close>

subsection \<open>Searching\<close>

lemma plus_fun [simp]:
  "(+) (0::nat) = (\<lambda>x. x)" "(+) (Suc n) = (\<lambda>x. Suc (n + x))"
  by auto

fun find_pat :: "string \<Rightarrow> string \<Rightarrow> nat option" where
  "find_pat p [] = (if p = [] then Some 0 else None)"
| "find_pat p (c # s) = (if prefix p (c # s) then Some 0 else map_option Suc (find_pat p s))"

definition str_find :: "string \<Rightarrow> string \<Rightarrow> nat \<Rightarrow> nat option" where
  "str_find p s pos =
     (if pos \<le> length s then map_option ((+) pos) (find_pat p (drop pos s)) else None)"

definition str_find_char :: "char \<Rightarrow> string \<Rightarrow> nat \<Rightarrow> nat option" where
  "str_find_char c s pos = str_find [c] s pos"

fun find_first_not_of :: "string \<Rightarrow> string \<Rightarrow> nat option" where
  "find_first_not_of [] cs = None"
| "find_first_not_of (c # s) cs =
     (if c \<in> set cs then map_option Suc (find_first_not_of s cs) else Some 0)"

definition substr :: "string \<Rightarrow> nat \<Rightarrow> nat \<Rightarrow> string throws" where
  "substr s pos n = (if pos \<le> length s then Inr (take n (drop pos s)) else Inl Out_of_range)"

definition substr_from :: "string \<Rightarrow> nat \<Rightarrow> string throws" where
  "substr_from s pos = (if pos \<le> length s then Inr (drop pos s) else Inl Out_of_range)"

lemma find_pat_None: "p \<noteq> [] \<Longrightarrow> find_pat p s = None \<Longrightarrow> s \<noteq> a @ p @ b"
proof (induction s arbitrary: a)
  case Nil
  then show ?case by simp
next
  case (Cons c s)
  then show ?case
    by (cases a) (auto split: if_splits)
qed

lemma find_pat_Some:
  "find_pat p s = Some i \<Longrightarrow> s = take i s @ p @ drop (i + length p) s \<and> i + length p \<le> length s"
proof (induction s arbitrary: i)
  case Nil
  then show ?case by (simp split: if_splits)
next
  case (Cons c s)
  show ?case
  proof (cases "prefix p (c # s)")
    case True
    with Cons.prems show ?thesis by (auto simp: prefix_def dest: arg_cong [of _ _ length])
  next
    case False
    with Cons.prems obtain j where "find_pat p s = Some j" "i = Suc j" by auto
    with Cons.IH [of j] show ?thesis by simp
  qed
qed

text \<open>The match found is the first: none starts before it.\<close>

lemma find_pat_first:
  "find_pat p s = Some i \<Longrightarrow> j < i \<Longrightarrow> \<not> prefix p (drop j s)"
proof (induction s arbitrary: i j)
  case Nil
  then show ?case by (simp split: if_splits)
next
  case (Cons c s)
  show ?case
  proof (cases "prefix p (c # s)")
    case True
    with Cons.prems show ?thesis by simp
  next
    case False
    with Cons.prems obtain k where "find_pat p s = Some k" "i = Suc k" by auto
    with False Cons.prems Cons.IH show ?thesis by (cases j) auto
  qed
qed

lemma find_pat_char_None: "find_pat [c] s = None \<longleftrightarrow> c \<notin> set s"
  by (induction s) (auto simp: prefix_def)

lemma find_pat_char_absent [cstr_simps]: "c \<notin> set s \<Longrightarrow> find_pat [c] s = None"
  by (simp add: find_pat_char_None)

lemma find_pat_char_append [cstr_simps]:
  "c \<notin> set a \<Longrightarrow> find_pat [c] (a @ c # b) = Some (length a)"
  by (induction a) auto

lemma find_pat_char_append2 [cstr_simps]:
  "c \<notin> set a \<Longrightarrow> find_pat [c] (a @ b) = map_option ((+) (length a)) (find_pat [c] b)"
  by (induction a) (auto simp: option.map_comp comp_def option.map_ident)

lemma str_find_char_None:
  "pos \<le> length s \<Longrightarrow> str_find_char c s pos = None \<longleftrightarrow> c \<notin> set (drop pos s)"
  by (simp add: find_pat_char_None str_find_char_def str_find_def)

lemma str_find_char_0: "str_find_char c s 0 = find_pat [c] s"
  by (simp add: str_find_char_def str_find_def option.map_ident)

lemma str_find_char_append [cstr_simps]:
  "length p = n \<Longrightarrow> str_find_char c (p @ s) n = map_option ((+) n) (find_pat [c] s)"
  by (auto simp: str_find_char_def str_find_def)

lemma str_find_bounds:
  "str_find p s pos = Some i \<Longrightarrow> pos \<le> i \<and> i + length p \<le> length s"
  by (auto simp: str_find_def split: if_splits dest!: find_pat_Some)

lemma str_find_char_bounds:
  "str_find_char c s pos = Some i \<Longrightarrow> pos \<le> i \<and> i < length s"
  using str_find_bounds [of "[c]" s pos i] by (simp add: str_find_char_def)

lemma str_find_char_nth: "str_find_char c s pos = Some i \<Longrightarrow> s ! i = c"
proof -
  assume a: "str_find_char c s pos = Some i"
  then obtain j where j: "find_pat [c] (drop pos s) = Some j" "i = pos + j" "pos \<le> length s"
    by (auto simp: str_find_char_def str_find_def split: if_splits)
  from find_pat_Some [OF j(1)] have "drop pos s ! j = c"
    by (metis append_Cons length_take min.absorb2 nth_append_length add_leD1)
  with j find_pat_Some [OF j(1)] show ?thesis by simp
qed

lemma find_first_not_of_None [simp]:
  "find_first_not_of s cs = None \<longleftrightarrow> set s \<subseteq> set cs"
  by (induction s) auto

lemma substr_ok [simp]: "pos \<le> length s \<Longrightarrow> substr s pos n = Inr (take n (drop pos s))"
  by (simp add: substr_def)

lemma substr_from_ok [simp]: "pos \<le> length s \<Longrightarrow> substr_from s pos = Inr (drop pos s)"
  by (simp add: substr_from_def)

subsection \<open>Digits\<close>

text \<open>
  The value of a character as a digit, letters counting from ten, and the digits of a number
  in a base of at most 16. \<open>show_nat\<close> is what \<^verbatim>\<open>operator<<\<close> and \<^verbatim>\<open>std::to_string\<close>
  print for an unsigned value.
\<close>

definition char_code :: "char \<Rightarrow> nat" where
  "char_code c = of_char c"

definition digit_value :: "char \<Rightarrow> nat option" where
  "digit_value c =
     (let n = char_code c in
      if 48 \<le> n \<and> n \<le> 57 then Some (n - 48)
      else if 97 \<le> n \<and> n \<le> 122 then Some (n - 87)
      else if 65 \<le> n \<and> n \<le> 90 then Some (n - 55)
      else None)"

definition is_digit :: "nat \<Rightarrow> char \<Rightarrow> bool" where
  "is_digit base c = (case digit_value c of None \<Rightarrow> False | Some v \<Rightarrow> v < base)"

definition digit_char :: "nat \<Rightarrow> char" where
  "digit_char n = char_of (48 + n)"

definition digits_value :: "nat \<Rightarrow> string \<Rightarrow> nat" where
  "digits_value base s =
     foldl (\<lambda>n c. n * base + (case digit_value c of None \<Rightarrow> 0 | Some v \<Rightarrow> v)) 0 s"

fun show_nat :: "nat \<Rightarrow> string" where
  "show_nat n = (if n < 10 then [digit_char n] else show_nat (n div 10) @ [digit_char (n mod 10)])"

declare show_nat.simps [simp del]

definition show_int :: "int \<Rightarrow> string" where
  "show_int i = (if i < 0 then CHR ''-'' # show_nat (nat (- i)) else show_nat (nat i))"

lemma digit_value_digit_char [simp]: "n < 10 \<Longrightarrow> digit_value (digit_char n) = Some n"
  by (simp add: digit_value_def digit_char_def char_code_def of_char_of take_bit_eq_mod)

lemma char_code_digit_char [simp]: "n < 10 \<Longrightarrow> char_code (digit_char n) = 48 + n"
  by (simp add: digit_char_def char_code_def of_char_of take_bit_eq_mod)

lemma is_digit_digit_char [simp]: "n < 10 \<Longrightarrow> is_digit 10 (digit_char n)"
  by (simp add: is_digit_def)

lemma digits_value_snoc [simp]:
  "digits_value b (s @ [c]) =
     digits_value b s * b + (case digit_value c of None \<Rightarrow> 0 | Some v \<Rightarrow> v)"
  by (simp add: digits_value_def)

lemma digits_value_Nil [simp]: "digits_value b [] = 0"
  by (simp add: digits_value_def)

lemma digits_show_nat [simp]: "digits_value 10 (show_nat n) = n"
proof (induction n rule: show_nat.induct)
  case (1 n)
  show ?case
    using 1 digits_value_snoc [of 10 "[]" "digit_char n"]
    by (subst show_nat.simps) simp
qed

lemma show_nat_digits: "c \<in> set (show_nat n) \<Longrightarrow> is_digit 10 c"
proof (induction n rule: show_nat.induct)
  case (1 n)
  then show ?case
    by (subst (asm) show_nat.simps) (auto split: if_splits)
qed

lemma show_nat_nonempty [simp]: "show_nat n \<noteq> []"
  by (subst show_nat.simps) simp

lemma length_show_nat: "n < 10 ^ k \<Longrightarrow> 0 < k \<Longrightarrow> length (show_nat n) \<le> k"
proof (induction n arbitrary: k rule: show_nat.induct)
  case (1 n)
  show ?case
  proof (cases "n < 10")
    case True
    with "1.prems" show ?thesis by (subst show_nat.simps) simp
  next
    case False
    with "1.prems" obtain j where k: "k = Suc j" "0 < j"
      by (cases k; cases "k - 1") auto
    with "1.prems" False have "n div 10 < 10 ^ j" by (simp add: less_mult_imp_div_less)
    with "1.IH" False k have "length (show_nat (n div 10)) \<le> j" by simp
    with False k show ?thesis by (subst show_nat.simps) simp
  qed
qed

lemma show_nat_inject [simp]: "show_nat a = show_nat b \<longleftrightarrow> a = b"
  by (metis digits_show_nat)

lemma not_digit_in_show_nat: "\<not> is_digit 10 c \<Longrightarrow> c \<notin> set (show_nat n)"
  using show_nat_digits by blast

subsection \<open>Padding: resize, setw and setfill\<close>

definition pad_left :: "nat \<Rightarrow> char \<Rightarrow> string \<Rightarrow> string" where
  "pad_left w c s = replicate (w - length s) c @ s"

definition pad_right :: "nat \<Rightarrow> char \<Rightarrow> string \<Rightarrow> string" where
  "pad_right w c s = s @ replicate (w - length s) c"

text \<open>\<^verbatim>\<open>s.resize(n, c)\<close> cuts or pads.\<close>

definition resize :: "nat \<Rightarrow> char \<Rightarrow> string \<Rightarrow> string" where
  "resize n c s = take n s @ replicate (n - length s) c"

lemma length_pad [simp]:
  "length (pad_left w c s) = max w (length s)" "length (pad_right w c s) = max w (length s)"
  by (simp_all add: pad_left_def pad_right_def)

lemma length_resize [simp]: "length (resize n c s) = n"
  by (simp add: resize_def)

subsection \<open>strtol, atoi and stoi\<close>

text \<open>
  \<^verbatim>\<open>strtol\<close> skips white space, takes an optional sign and the longest run of digits,
  saturates at the limits of a 64-bit \<^verbatim>\<open>long\<close> and reports where it stopped; without a
  digit it converts nothing and stops at the beginning. (The optional \<^verbatim>\<open>0x\<close> prefix of
  base 16 is left out: the only caller with base 16 has checked that every character is a
  hexadecimal digit.) \<^verbatim>\<open>atoi\<close> is \<^verbatim>\<open>strtol\<close> narrowed to 32 bits, \<^verbatim>\<open>stoi\<close> throws
  where \<^verbatim>\<open>strtol\<close> converts nothing or leaves the range of \<^verbatim>\<open>int\<close>.
\<close>

definition is_space :: "char \<Rightarrow> bool" where
  "is_space c \<longleftrightarrow> char_code c = 32 \<or> (9 \<le> char_code c \<and> char_code c \<le> 13)"

definition long_max :: int where "long_max = 2 ^ 63 - 1"
definition long_min :: int where "long_min = - (2 ^ 63)"
definition int_max :: int where "int_max = 2 ^ 31 - 1"
definition int_min :: int where "int_min = - (2 ^ 31)"

definition split_sign :: "string \<Rightarrow> bool \<times> string" where
  "split_sign s = (case s of
       c # r \<Rightarrow> if c = CHR ''-'' then (True, r) else if c = CHR ''+'' then (False, r) else (False, s)
     | [] \<Rightarrow> (False, s))"

text \<open>The value read without a limit, and the rest at which the conversion stopped.\<close>

definition scan_int :: "nat \<Rightarrow> string \<Rightarrow> (int \<times> string) option" where
  "scan_int base s =
     (let (neg, r) = split_sign (dropWhile is_space s);
          ds = takeWhile (is_digit base) r;
          v = int (digits_value base ds)
      in if ds = [] then None
         else Some (if neg then - v else v, dropWhile (is_digit base) r))"

definition strtol :: "nat \<Rightarrow> string \<Rightarrow> int \<times> string" where
  "strtol base s = (case scan_int base s of
       None \<Rightarrow> (0, s)
     | Some (v, rest) \<Rightarrow> (max long_min (min long_max v), rest))"

definition narrow32 :: "int \<Rightarrow> int" where
  "narrow32 v = sint (word_of_int v :: 32 word)"

definition atoi :: "string \<Rightarrow> int" where
  "atoi s = narrow32 (fst (strtol 10 s))"

text \<open>\<^verbatim>\<open>std::stoi(s, &next)\<close>: the value and the number of characters consumed.\<close>

definition stoi :: "string \<Rightarrow> (int \<times> nat) throws" where
  "stoi s = (case scan_int 10 s of
       None \<Rightarrow> Inl (Invalid_argument ''stoi'')
     | Some (v, rest) \<Rightarrow>
         if v < int_min \<or> int_max < v then Inl Out_of_range
         else Inr (v, length s - length rest))"

lemma is_digit_not_space: "is_digit b c \<Longrightarrow> \<not> is_space c"
  by (auto simp: is_digit_def digit_value_def is_space_def Let_def split: if_splits)

lemma char_code_simps [simp]: "char_code (CHR ''-'') = 45" "char_code (CHR ''+'') = 43"
  by (simp_all add: char_code_def)

lemma is_digit_not_sign: "is_digit b c \<Longrightarrow> c \<noteq> CHR ''-'' \<and> c \<noteq> CHR ''+''"
  by (auto simp: is_digit_def digit_value_def Let_def split: if_splits)

lemma split_sign_digits:
  "s \<noteq> [] \<Longrightarrow> is_digit b (hd s) \<Longrightarrow> split_sign s = (False, s)"
  by (cases s) (auto simp: split_sign_def dest: is_digit_not_sign)

lemma dropWhile_space_digits:
  "s \<noteq> [] \<Longrightarrow> is_digit b (hd s) \<Longrightarrow> dropWhile is_space s = s"
  by (cases s) (auto dest: is_digit_not_space)

lemma scan_int_digits:
  assumes "ds \<noteq> []" "\<forall>c \<in> set ds. is_digit b c" "rest = [] \<or> \<not> is_digit b (hd rest)"
  shows "scan_int b (ds @ rest) = Some (int (digits_value b ds), rest)"
proof -
  have hd: "is_digit b (hd (ds @ rest))" using assms by (cases ds) auto
  have "takeWhile (is_digit b) (ds @ rest) = ds"
    using assms by (cases rest) (auto simp: takeWhile_append)
  moreover have "dropWhile (is_digit b) (ds @ rest) = rest"
    using assms by (cases rest) (auto simp: dropWhile_append)
  ultimately show ?thesis
    using assms(1) hd
    by (simp add: scan_int_def dropWhile_space_digits [OF _ hd] split_sign_digits [OF _ hd])
qed

lemma narrow32_id: "int_min \<le> v \<Longrightarrow> v \<le> int_max \<Longrightarrow> narrow32 v = v"
  by (simp add: narrow32_def int_min_def int_max_def sint_sbintrunc' signed_take_bit_int_eq_self)

lemma atoi_show_nat: "int n \<le> int_max \<Longrightarrow> atoi (show_nat n) = int n"
proof -
  assume n: "int n \<le> int_max"
  have "scan_int 10 (show_nat n @ []) = Some (int (digits_value 10 (show_nat n)), [])"
    by (rule scan_int_digits) (auto dest: show_nat_digits)
  then have "strtol 10 (show_nat n) = (int n, [])"
    using n by (simp add: strtol_def int_max_def long_max_def long_min_def)
  with n show ?thesis
    by (simp add: atoi_def narrow32_id int_min_def)
qed

lemma stoi_show_nat:
  assumes "rest = [] \<or> \<not> is_digit 10 (hd rest)"
  shows "stoi (show_nat n @ rest) =
    (if int_max < int n then Inl Out_of_range else Inr (int n, length (show_nat n)))"
proof -
  have "scan_int 10 (show_nat n @ rest) = Some (int (digits_value 10 (show_nat n)), rest)"
    using assms by (intro scan_int_digits) (auto dest: show_nat_digits)
  then show ?thesis by (simp add: stoi_def int_min_def)
qed

text \<open>The characters the sources list as digits are the digits of the base.\<close>

lemma char_of_code: "char_code c = n \<Longrightarrow> c = char_of n"
  by (auto simp: char_code_def)

lemma decimal_digit_chars: "''0123456789'' = map char_of [48..<58::nat]"
  by code_simp

lemma hex_digit_chars:
  "''0123456789abcdefABCDEF'' = map char_of ([48..<58] @ [97..<103] @ [65..<71::nat])"
  by code_simp

lemma decimal_digits: "c \<in> set ''0123456789'' \<longleftrightarrow> is_digit 10 c"
proof
  assume "c \<in> set ''0123456789''"
  then show "is_digit 10 c"
    by (auto simp: is_digit_def digit_value_def char_code_def)
next
  assume "is_digit 10 c"
  then have "char_code c \<in> {48..57}"
    by (auto simp: is_digit_def digit_value_def Let_def split: if_splits)
  then have "char_code c \<in> set [48..<58]"
    unfolding set_upt atLeastLessThan_iff atLeastAtMost_iff by linarith
  then show "c \<in> set ''0123456789''"
    unfolding decimal_digit_chars set_map using char_of_code [OF refl, of c] by blast
qed

lemma hex_digits: "c \<in> set ''0123456789abcdefABCDEF'' \<longleftrightarrow> is_digit 16 c"
proof
  assume "c \<in> set ''0123456789abcdefABCDEF''"
  then show "is_digit 16 c"
    by (auto simp: is_digit_def digit_value_def char_code_def)
next
  assume "is_digit 16 c"
  then have "char_code c \<in> {48..57} \<union> {97..102} \<union> {65..70}"
    by (auto simp: is_digit_def digit_value_def Let_def split: if_splits)
  then have "char_code c \<in> set ([48..<58] @ [97..<103] @ [65..<71])"
    unfolding set_append set_upt atLeastLessThan_iff atLeastAtMost_iff Un_iff by linarith
  then show "c \<in> set ''0123456789abcdefABCDEF''"
    unfolding hex_digit_chars set_map using char_of_code [OF refl, of c] by blast
qed

text \<open>The upper-case hexadecimal digits.\<close>

definition hex_char :: "nat \<Rightarrow> char" where
  "hex_char n = (if n < 10 then digit_char n else char_of (55 + n))"

lemma digit_value_hex_char [simp]: "n < 16 \<Longrightarrow> digit_value (hex_char n) = Some n"
  by (cases "n < 10")
    (simp_all add: hex_char_def digit_value_def [of "char_of _"] char_code_def of_char_of
      take_bit_eq_mod)

lemma is_digit_hex_char [simp]: "n < 16 \<Longrightarrow> is_digit 16 (hex_char n)"
  by (simp add: is_digit_def)

lemma strtol_hex_pair:
  "is_digit 16 a \<Longrightarrow> is_digit 16 b \<Longrightarrow>
     strtol 16 [a, b] = (int (the (digit_value a) * 16 + the (digit_value b)), [])"
proof -
  assume ab: "is_digit 16 a" "is_digit 16 b"
  then have "scan_int 16 ([a, b] @ []) = Some (int (digits_value 16 [a, b]), [])"
    by (intro scan_int_digits) auto
  moreover have "digits_value 16 [a, b] = the (digit_value a) * 16 + the (digit_value b)"
    using ab by (auto simp: digits_value_def is_digit_def split: option.splits)
  moreover have "the (digit_value a) < 16" "the (digit_value b) < 16"
    using ab by (auto simp: is_digit_def split: option.splits)
  ultimately show ?thesis
    by (simp add: strtol_def long_max_def long_min_def)
qed

end
