(* ===== verification/Log_Event.thy ===== *)
theory Log_Event
  imports Log_Level Cpp_String
begin

section \<open>Log events and time stamps (log_event.h, log_event.cpp)\<close>

text \<open>
  A time point of \<^verbatim>\<open>system_clock\<close> is the number of nanoseconds since 1970 (the
  representation of the C++ library the code is built with), negative before it. The
  conversions to \<^verbatim>\<open>time_t\<close> and to milliseconds truncate towards zero.
\<close>

type_synonym time_point = int
type_synonym subsystem_t = "32 word"

record log_event =
  le_level :: log_level
  le_subsystem :: subsystem_t
  le_message :: string
  le_time :: time_point
  le_function :: string
  le_subsystem_string :: string
  le_time_string :: string

text \<open>C++ integer division.\<close>

definition trunc_div :: "int \<Rightarrow> int \<Rightarrow> int" where
  "trunc_div a b = sgn a * sgn b * (\<bar>a\<bar> div \<bar>b\<bar>)"

definition ns_per_s :: int where "ns_per_s = 1000000000"
definition ns_per_ms :: int where "ns_per_ms = 1000000"

definition to_time_t :: "time_point \<Rightarrow> int" where
  "to_time_t t = trunc_div t ns_per_s"

definition from_time_t :: "int \<Rightarrow> time_point" where
  "from_time_t s = s * ns_per_s"

subsection \<open>Broken-down time\<close>

text \<open>
  \<^verbatim>\<open>gmtime\<close> (the proleptic Gregorian calendar) and \<^verbatim>\<open>localtime\<close>, which is
  \<^verbatim>\<open>gmtime\<close> of the instant shifted by the offset \<open>tz\<close> of the time zone at that
  instant; \<^verbatim>\<open>strftime\<close> with the format of the code into a buffer of \<open>bufsize\<close> bytes, \<open>None\<close>
  when the result with its terminating zero does not fit.
\<close>

record tm =
  tm_year :: int
  tm_mon :: int
  tm_mday :: int
  tm_hour :: int
  tm_min :: int
  tm_sec :: int

definition gmtime :: "int \<Rightarrow> tm" where
  "gmtime s =
     (let z = s div 86400 + 719468;
          era = z div 146097;
          doe = z mod 146097;
          yoe = (doe - doe div 1460 + doe div 36524 - doe div 146096) div 365;
          doy = doe - (365 * yoe + yoe div 4 - yoe div 100);
          mp = (5 * doy + 2) div 153;
          d = doy - (153 * mp + 2) div 5 + 1;
          m = (if mp < 10 then mp + 3 else mp - 9);
          y = yoe + era * 400 + (if m \<le> 2 then 1 else 0)
      in \<lparr>tm_year = y, tm_mon = m, tm_mday = d, tm_hour = s mod 86400 div 3600,
          tm_min = s mod 3600 div 60, tm_sec = s mod 60\<rparr>)"

definition localtime :: "(int \<Rightarrow> int) \<Rightarrow> int \<Rightarrow> tm" where
  "localtime tz s = gmtime (s + tz s)"

definition two_digits :: "int \<Rightarrow> string" where
  "two_digits n = pad_left 2 (CHR ''0'') (show_int n)"

definition strftime_iso :: "nat \<Rightarrow> tm \<Rightarrow> string option" where
  "strftime_iso bufsize b =
     (let s = show_int (tm_year b) @ ''-'' @ two_digits (tm_mon b) @ ''-'' @
              two_digits (tm_mday b) @ '' '' @ two_digits (tm_hour b) @ '':'' @
              two_digits (tm_min b) @ '':'' @ two_digits (tm_sec b)
      in if length s < bufsize then Some s else None)"

subsection \<open>The two formats\<close>

text \<open>
  \<open>gmt\<close> says whether \<^verbatim>\<open>SuS_LOG_GMT\<close> is defined. The result is \<open>None\<close> where the
  22-byte buffer would be too small and its content indeterminate.
\<close>

definition milliseconds_of :: "time_point \<Rightarrow> int" where
  "milliseconds_of t = trunc_div (t - from_time_t (to_time_t t)) ns_per_ms"

definition format_time :: "bool \<Rightarrow> (int \<Rightarrow> int) \<Rightarrow> time_point \<Rightarrow> string option" where
  "format_time gmt tz t =
     (let ttime_t = to_time_t t;
          ttm = (if gmt then gmtime ttime_t else localtime tz ttime_t)
      in map_option
           (\<lambda>out. out @ ''.'' @ pad_left 3 (CHR ''0'') (show_int (milliseconds_of t)) @
              (if gmt then '' GMT'' else []))
           (strftime_iso 22 ttm))"

definition format_timestamp :: "time_point \<Rightarrow> string" where
  "format_timestamp t =
     show_int (to_time_t t) @ ''.'' @ pad_left 3 (CHR ''0'') (show_int (milliseconds_of t))"

text \<open>An event for the examples.\<close>

definition sample_event :: "log_level \<Rightarrow> string \<Rightarrow> time_point \<Rightarrow> log_event" where
  "sample_event l m t = \<lparr>le_level = l, le_subsystem = 0, le_message = m, le_time = t,
     le_function = ''f'', le_subsystem_string = ''sys'', le_time_string = ''now''\<rparr>"

subsection \<open>Lengths and values\<close>

lemma to_time_t_nonneg: "0 \<le> t \<Longrightarrow> to_time_t t = t div 1000000000"
  by (cases "t = 0") (simp_all add: to_time_t_def trunc_div_def ns_per_s_def)

lemma milliseconds_nonneg: "0 \<le> t \<Longrightarrow> milliseconds_of t = t mod 1000000000 div 1000000"
proof -
  assume t: "0 \<le> t"
  have "t - t div 1000000000 * 1000000000 = t mod 1000000000"
    by (simp add: minus_div_mult_eq_mod)
  moreover have "trunc_div a 1000000 = a div 1000000" if "0 \<le> a" for a
    using that by (cases "a = 0") (simp_all add: trunc_div_def)
  ultimately show ?thesis
    using t by (simp add: milliseconds_of_def from_time_t_def to_time_t_nonneg ns_per_s_def ns_per_ms_def)
qed

lemma show_int_nonneg: "0 \<le> i \<Longrightarrow> show_int i = show_nat (nat i)"
  by (simp add: show_int_def)

lemma length_show_int: "0 \<le> i \<Longrightarrow> i < 10 ^ k \<Longrightarrow> 0 < k \<Longrightarrow> length (show_int i) \<le> k"
  using length_show_nat [of "nat i" k] by (simp add: show_int_nonneg nat_less_iff)

lemma length_two_digits [simp]: "0 \<le> i \<Longrightarrow> i < 100 \<Longrightarrow> length (two_digits i) = 2"
  using length_show_int [of i 2] by (simp add: two_digits_def)

lemma digits_pad_left:
  "digits_value 10 (pad_left w (CHR ''0'') s) = digits_value 10 s"
proof -
  have z: "digit_value (CHR ''0'') = Some 0"
    by (simp add: digit_value_def char_code_def)
  have "foldl (\<lambda>n c. n * 10 + (case digit_value c of None \<Rightarrow> 0 | Some v \<Rightarrow> v)) 0
      (replicate k (CHR ''0'')) = 0" for k
    by (induction k) (simp_all add: z)
  then show ?thesis by (simp add: digits_value_def pad_left_def)
qed

lemma dot_not_in_number [simp]: "CHR ''.'' \<notin> set (show_nat n)"
  by (rule not_digit_in_show_nat) (simp add: is_digit_def digit_value_def char_code_def)

lemma millisecond_parts:
  fixes a :: int
  shows "a div 1000000000 = a div ns_per_ms div 1000"
    and "a mod 1000000000 div 1000000 = a div ns_per_ms mod 1000"
proof -
  show "a div 1000000000 = a div ns_per_ms div 1000"
    using zdiv_zmult2_eq [of 1000 a 1000000] by (simp add: ns_per_ms_def)
  show "a mod 1000000000 div 1000000 = a div ns_per_ms mod 1000"
    using zmod_zmult2_eq [of 1000 a 1000000] by (simp add: ns_per_ms_def)
qed

lemma format_timestamp_nonneg:
  "0 \<le> t \<Longrightarrow> format_timestamp t = show_nat (nat (t div ns_per_ms div 1000)) @ CHR ''.'' #
     pad_left 3 (CHR ''0'') (show_nat (nat (t div ns_per_ms mod 1000)))"
  by (simp add: format_timestamp_def to_time_t_nonneg milliseconds_nonneg show_int_nonneg
      millisecond_parts ns_per_ms_def)

lemma same_thousand:
  fixes a b :: int
  assumes "0 \<le> a" "0 \<le> b" "nat (a div 1000) = nat (b div 1000)" "nat (a mod 1000) = nat (b mod 1000)"
  shows "a = b"
proof -
  have "a div 1000 = b div 1000" "a mod 1000 = b mod 1000"
    using assms by (simp_all only: eq_nat_nat_iff pos_imp_zdiv_nonneg_iff pos_mod_sign zero_less_numeral)
  then show ?thesis by (metis mult_div_mod_eq)
qed

text \<open>The two numbers are read back from either side of the dot.\<close>

lemma timestamp_parts:
  assumes "x = show_nat p @ CHR ''.'' # pad_left 3 (CHR ''0'') (show_nat q)"
  shows "p = digits_value 10 (takeWhile (\<lambda>c. c \<noteq> CHR ''.'') x)"
    and "q = digits_value 10 (tl (dropWhile (\<lambda>c. c \<noteq> CHR ''.'') x))"
  by (auto simp: assms takeWhile_append dropWhile_append digits_pad_left)

lemma format_timestamp_same_ms:
  assumes "0 \<le> s" "0 \<le> t"
  shows "format_timestamp s = format_timestamp t \<longleftrightarrow> s div ns_per_ms = t div ns_per_ms"
proof
  assume eq: "format_timestamp s = format_timestamp t"
  note s = timestamp_parts [OF format_timestamp_nonneg [OF assms(1)]]
    and t = timestamp_parts [OF format_timestamp_nonneg [OF assms(2)]]
  show "s div ns_per_ms = t div ns_per_ms"
  proof (rule same_thousand)
    show "0 \<le> s div ns_per_ms" "0 \<le> t div ns_per_ms"
      using assms by (simp_all only: ns_per_ms_def pos_imp_zdiv_nonneg_iff zero_less_numeral)
    show "nat (s div ns_per_ms div 1000) = nat (t div ns_per_ms div 1000)"
      "nat (s div ns_per_ms mod 1000) = nat (t div ns_per_ms mod 1000)"
      using s t eq by (simp_all only:)
  qed
next
  assume "s div ns_per_ms = t div ns_per_ms"
  then show "format_timestamp s = format_timestamp t"
    by (simp add: format_timestamp_nonneg assms)
qed

text \<open>
  A time stamp names its millisecond: two time points from 1970 on have the same
  \<^verbatim>\<open>format_timestamp\<close> exactly when they lie in the same millisecond. Archived log files
  are told apart by this string only.
\<close>

theorem format_timestamp_inject:
  assumes "0 \<le> s" "0 \<le> t"
  shows "format_timestamp s = format_timestamp t \<longleftrightarrow> s div ns_per_ms = t div ns_per_ms"
  using assms by (rule format_timestamp_same_ms)

theorem format_timestamp_inject_witness:
  "format_timestamp 1500000000123456789 = format_timestamp 1500000000123999999 \<longleftrightarrow>
     (1500000000123456789 :: int) div ns_per_ms = 1500000000123999999 div ns_per_ms"
  by (rule format_timestamp_inject) simp_all

subsection \<open>The buffer of format_time\<close>

lemma div_bounds:
  fixes x k r :: int
  shows "0 < k \<Longrightarrow> k * (x div k) \<le> x"
    and "r = k - 1 \<Longrightarrow> 0 < k \<Longrightarrow> x \<le> k * (x div k) + r"
proof -
  have "k * (x div k) + x mod k = x" by simp
  then show "0 < k \<Longrightarrow> k * (x div k) \<le> x" "r = k - 1 \<Longrightarrow> 0 < k \<Longrightarrow> x \<le> k * (x div k) + r"
    using pos_mod_sign [of k x] pos_mod_bound [of k x] by linarith+
qed

lemma div_bounds_numeral:
  fixes x :: int
  shows "numeral k * (x div numeral k) \<le> x"
    and "r = numeral k - 1 \<Longrightarrow> x \<le> numeral k * (x div numeral k) + r"
  by (rule div_bounds; simp)+

text \<open>
  The arithmetic of the calendar on any quotients: a year has at most 370 days, counted
  from \<open>-4\<close>; the exact bounds are tighter but not needed.
\<close>

lemma day_of_year_bounds:
  fixes a b c y p q doe :: int
  assumes "0 \<le> doe" "doe < 146097" "1460 * a \<le> doe" "doe \<le> 1460 * a + 1459"
    "36524 * b \<le> doe" "doe \<le> 36524 * b + 36523" "146096 * c \<le> doe" "doe \<le> 146096 * c + 146095"
    "365 * y \<le> doe - a + b - c" "doe - a + b - c \<le> 365 * y + 364"
    "4 * p \<le> y" "y \<le> 4 * p + 3" "100 * q \<le> y" "y \<le> 100 * q + 99"
  shows "-4 \<le> doe - (365 * y + p - q) \<and> doe - (365 * y + p - q) \<le> 370"
  using assms by linarith

lemma month_day_bounds:
  fixes doy mp e :: int
  assumes "153 * mp \<le> 5 * doy + 2" "5 * doy + 2 \<le> 153 * mp + 152"
    "5 * e \<le> 153 * mp + 2" "153 * mp + 2 \<le> 5 * e + 4"
  shows "0 \<le> doy - e + 1 \<and> doy - e + 1 < 100"
    and "-4 \<le> doy \<Longrightarrow> doy \<le> 370 \<Longrightarrow> -1 \<le> mp \<and> mp \<le> 12"
  using assms by linarith+

lemma month_bounds:
  fixes mp :: int
  shows "-1 \<le> mp \<and> mp \<le> 12 \<Longrightarrow>
    0 \<le> (if mp < 10 then mp + 3 else mp - 9) \<and> (if mp < 10 then mp + 3 else mp - 9) < 100"
  by auto

lemma clock_bounds:
  fixes x q k :: int
  assumes "k * q \<le> x" "x \<le> k * q + (k - 1)" "0 \<le> x"
  shows "k = 3600 \<Longrightarrow> x < 86400 \<Longrightarrow> 0 \<le> q \<and> q < 100"
    and "k = 60 \<Longrightarrow> x < 3600 \<Longrightarrow> 0 \<le> q \<and> q < 100"
  using assms by auto

text \<open>Whatever the day, month and day of the month are two digits wide.\<close>

lemma gmtime_fields:
  "0 \<le> tm_mon (gmtime s) \<and> tm_mon (gmtime s) < 100"
  "0 \<le> tm_mday (gmtime s) \<and> tm_mday (gmtime s) < 100"
  "0 \<le> tm_hour (gmtime s) \<and> tm_hour (gmtime s) < 100"
  "0 \<le> tm_min (gmtime s) \<and> tm_min (gmtime s) < 100"
  "0 \<le> tm_sec (gmtime s) \<and> tm_sec (gmtime s) < 100"
proof -
  define doe where "doe = (s div 86400 + 719468) mod 146097"
  define yoe where "yoe = (doe - doe div 1460 + doe div 36524 - doe div 146096) div 365"
  define doy where "doy = doe - (365 * yoe + yoe div 4 - yoe div 100)"
  define mp where "mp = (5 * doy + 2) div 153"
  have doe: "0 \<le> doe" "doe < 146097" by (simp_all add: doe_def)
  have "-4 \<le> doy \<and> doy \<le> 370"
    unfolding doy_def
    by (rule day_of_year_bounds [OF doe], unfold yoe_def)
      ((rule div_bounds_numeral; simp only: arith_simps; fail)+)
  moreover have b: "153 * mp \<le> 5 * doy + 2" "5 * doy + 2 \<le> 153 * mp + 152"
      "5 * ((153 * mp + 2) div 5) \<le> 153 * mp + 2"
      "153 * mp + 2 \<le> 5 * ((153 * mp + 2) div 5) + 4"
    unfolding mp_def by ((rule div_bounds_numeral; simp only: arith_simps; fail)+)
  ultimately have mp: "-1 \<le> mp \<and> mp \<le> 12"
    and d: "0 \<le> doy - (153 * mp + 2) div 5 + 1 \<and> doy - (153 * mp + 2) div 5 + 1 < 100"
    using month_day_bounds [OF b] by blast+
  note defs = gmtime_def Let_def doe_def [symmetric] yoe_def [symmetric] doy_def [symmetric]
    mp_def [symmetric]
  show "0 \<le> tm_mon (gmtime s) \<and> tm_mon (gmtime s) < 100"
    unfolding defs tm.simps by (rule month_bounds [OF mp])
  show "0 \<le> tm_mday (gmtime s) \<and> tm_mday (gmtime s) < 100"
    unfolding defs tm.simps by (rule d)
  have "0 \<le> s mod 86400 div 3600 \<and> s mod 86400 div 3600 < 100"
    by (rule clock_bounds(1) [of 3600 _ "s mod 86400"]) (rule div_bounds | simp)+
  moreover have "0 \<le> s mod 3600 div 60 \<and> s mod 3600 div 60 < 100"
    by (rule clock_bounds(2) [of 60 _ "s mod 3600"]) (rule div_bounds | simp)+
  moreover have "0 \<le> s mod 60 \<and> s mod 60 < 100"
    using pos_mod_sign [of 60 s] order.strict_trans [OF pos_mod_bound [of 60 s], of 100] by simp
  ultimately show "0 \<le> tm_hour (gmtime s) \<and> tm_hour (gmtime s) < 100"
    "0 \<le> tm_min (gmtime s) \<and> tm_min (gmtime s) < 100"
    "0 \<le> tm_sec (gmtime s) \<and> tm_sec (gmtime s) < 100"
    unfolding gmtime_def Let_def tm.simps by blast+
qed

lemma strftime_fits:
  "length (show_int (tm_year (gmtime s))) \<le> 6 \<longleftrightarrow> strftime_iso 22 (gmtime s) \<noteq> None"
  using gmtime_fields [of s] by (simp add: strftime_iso_def Let_def)

text \<open>
  The 22 bytes of \<^verbatim>\<open>format_time\<close> hold the date exactly when the year takes at most
  six characters; then the text has two digits for month, day, hour, minute and second and
  the milliseconds behind the dot, 19 characters more than the year when no zone is appended
  and the clock is past 1970.
\<close>

theorem format_time_fits:
  assumes "0 \<le> t"
  shows "(length (show_int (tm_year (localtime tz (to_time_t t)))) \<le> 6 \<longleftrightarrow>
            format_time False tz t \<noteq> None) \<and>
    (\<forall>x. format_time False tz t = Some x \<longrightarrow>
       length x = length (show_int (tm_year (localtime tz (to_time_t t)))) + 19)"
proof -
  let ?s = "to_time_t t + tz (to_time_t t)"
  have ms: "length (pad_left 3 (CHR ''0'') (show_int (milliseconds_of t))) = 3"
    using length_show_int [of "milliseconds_of t" 3] assms
    by (simp add: milliseconds_nonneg millisecond_parts pos_imp_zdiv_nonneg_iff)
  have "length x = length (show_int (tm_year (gmtime ?s))) + 15"
    if "strftime_iso 22 (gmtime ?s) = Some x" for x
    using that gmtime_fields [of ?s] by (auto simp: strftime_iso_def Let_def split: if_splits)
  with ms strftime_fits [of ?s] show ?thesis
    by (auto simp: format_time_def localtime_def Let_def)
qed

theorem format_time_fits_witness:
  "(length (show_int (tm_year (localtime (\<lambda>_. 3600) (to_time_t 1500000000123456789)))) \<le> 6 \<longleftrightarrow>
      format_time False (\<lambda>_. 3600) 1500000000123456789 \<noteq> None) \<and>
   (\<forall>x. format_time False (\<lambda>_. 3600) 1500000000123456789 = Some x \<longrightarrow>
      length x = length (show_int (tm_year (localtime (\<lambda>_. 3600) (to_time_t 1500000000123456789)))) + 19)"
  by (rule format_time_fits) simp

end
