(* ===== verification/Output_Stream.thy ===== *)
theory Output_Stream
  imports Log_Event
begin

section \<open>The base class of all sinks (output_stream.h, output_stream.cpp)\<close>

text \<open>
  An object of a class derived from \<^verbatim>\<open>output_stream\<close>: the minimum level the base class
  keeps behind \<^verbatim>\<open>m_d\<close> and the state of the derived class, of a type \<open>'s\<close> of its own.
  The virtual functions of the derived class are the record \<open>stream_class\<close>; the
  base-class functions take it as an argument. The virtual destructor leaves what the sink has
  done outside of itself (files, packets sent), or ends the program. \<open>minlevel\<close> is the compile-time
  \<^verbatim>\<open>SuS_LOG_MINLEVEL\<close>.
\<close>

record 's output_stream =
  os_min_level :: log_level
  os_derived :: 's

record 's stream_class =
  vt_name :: "'s \<Rightarrow> string"
  vt_retry_time :: "'s \<Rightarrow> nat"
  vt_do_write :: "'s \<Rightarrow> log_event \<Rightarrow> bool \<times> 's"
  vt_destroy :: "'s \<Rightarrow> 's throws"

definition new_output_stream :: "log_level \<Rightarrow> 's \<Rightarrow> 's output_stream" where
  "new_output_stream minlevel d = \<lparr>os_min_level = minlevel, os_derived = d\<rparr>"

definition os_dump :: "'s stream_class \<Rightarrow> 's output_stream \<Rightarrow> string" where
  "os_dump c s =
     ''   - '' @ vt_name c (os_derived s) @ [newline] @
     ''     min. log level: '' @ level_name (os_min_level s) @ [newline]"

text \<open>\<^verbatim>\<open>output_stream::retry_time\<close>, for the classes that do not override it.\<close>

definition os_retry_time :: nat where
  "os_retry_time = 30"

definition os_set_min_log_level :: "log_level \<Rightarrow> 's output_stream \<Rightarrow> 's output_stream" where
  "os_set_min_log_level l s = s\<lparr>os_min_level := l\<rparr>"

definition os_write ::
  "('s \<Rightarrow> log_event \<Rightarrow> bool \<times> 's) \<Rightarrow> 's output_stream \<Rightarrow> log_event \<Rightarrow> bool \<times> 's output_stream" where
  "os_write do_write s le =
     (if le_level le < os_min_level s then (True, s)
      else let (ok, d) = do_write (os_derived s) le in (ok, s\<lparr>os_derived := d\<rparr>))"

subsection \<open>What a derived class promises\<close>

text \<open>
  The contract of \<^verbatim>\<open>do_write\<close>: the sink's output only grows; a call that returns true
  has appended exactly the event's line, a call that returns false at most the beginning of
  it. Everything delivery guarantees rests on these laws.
\<close>

locale sink =
  fixes do_write :: "'s \<Rightarrow> log_event \<Rightarrow> bool \<times> 's"
    and out :: "'s \<Rightarrow> 'c list"
    and line :: "'s \<Rightarrow> log_event \<Rightarrow> 'c list"
  assumes written: "do_write s le = (True, s') \<Longrightarrow> out s' = out s @ line s le"
    and refused: "do_write s le = (False, s') \<Longrightarrow> \<exists>p. prefix p (line s le) \<and> out s' = out s @ p"
    and same_line: "do_write s le = (ok, s') \<Longrightarrow> line s' = line s"
begin

text \<open>What the base class's \<^verbatim>\<open>write\<close> appends: nothing for an event below the minimum level.\<close>

lemma os_write_written:
  assumes "os_write do_write s le = (True, s')"
  shows "out (os_derived s') =
      out (os_derived s) @ (if le_level le < os_min_level s then [] else line (os_derived s) le)"
    and "os_min_level s' = os_min_level s" "line (os_derived s') = line (os_derived s)"
  using assms written [of "os_derived s" le] same_line [of "os_derived s" le]
  by (auto simp: os_write_def split: if_splits prod.splits)

lemma os_write_refused:
  assumes "os_write do_write s le = (False, s')"
  shows "\<exists>p. prefix p (line (os_derived s) le) \<and> out (os_derived s') = out (os_derived s) @ p"
    and "os_min_level s \<le> le_level le" "os_min_level s' = os_min_level s"
    "line (os_derived s') = line (os_derived s)"
  using assms refused [of "os_derived s" le] same_line [of "os_derived s" le]
  by (auto simp: os_write_def split: if_splits prod.splits)

lemma os_write_grows: "os_write do_write s le = (ok, s') \<Longrightarrow> prefix (out (os_derived s)) (out (os_derived s'))"
  by (cases ok) (auto simp: prefix_def dest: os_write_written(1) os_write_refused(1))

end

end
