(* ===== verification/File_Stream.thy ===== *)
theory File_Stream
  imports Output_Stream
begin

section \<open>The file sink (output_stream_file.h, output_stream_file.cpp)\<close>

text \<open>
  The sink with its CDATA quoting, its rotation by size and the renaming of finished files,
  over a small file system and \<^verbatim>\<open>std::ofstream\<close>.
\<close>

subsection \<open>CDATA quoting\<close>

definition cdata_open :: string where "cdata_open = ''<![CDATA[''"
definition cdata_close :: string where "cdata_close = '']]>''"

text \<open>The loop of \<^verbatim>\<open>formatCData\<close> from position \<open>pos\<close>, with the text written so far.\<close>

function format_cdata_loop :: "string \<Rightarrow> nat \<Rightarrow> string \<Rightarrow> string throws" where
  "format_cdata_loop dat pos ss =
     (case str_find cdata_close dat pos of
        Some i \<Rightarrow>
          bind_exn (substr dat pos (i - pos + 2)) (\<lambda>part.
            format_cdata_loop dat (i + 2) (ss @ part @ cdata_close @ cdata_open))
      | None \<Rightarrow> bind_exn (substr_from dat pos) (\<lambda>rest. Inr (ss @ rest @ cdata_close)))"
  by pat_completeness auto
termination
  by (relation "measure (\<lambda>(dat, pos, ss). length dat - pos)")
    (auto dest!: str_find_bounds simp: cdata_close_def)

declare format_cdata_loop.simps [simp del]

definition formatCData :: "string \<Rightarrow> string throws" where
  "formatCData dat = format_cdata_loop dat 0 cdata_open"

subsection \<open>Files and ofstream\<close>

text \<open>
  A directory of names for numbered files with text and modification time, the free space
  (\<open>None\<close> for no limit), whether the directory may be changed, and the clock. An
  \<^verbatim>\<open>std::ofstream\<close> is the file it has open and its state: output into a stream that is
  not good does nothing, output without a file or without space makes it bad, opening an open
  stream fails, a successful \<^verbatim>\<open>open\<close> clears the state.
\<close>

record fnode =
  nd_text :: string
  nd_mtime :: time_point

record filesystem =
  fsys_dir :: "string \<Rightarrow> nat option"
  fsys_node :: "nat \<Rightarrow> fnode"
  fsys_next :: nat
  fsys_room :: "nat option"
  fsys_writable :: bool
  fsys_now :: time_point

record ofstream =
  of_node :: "nat option"
  of_good :: bool

definition fsys_rename :: "string \<Rightarrow> string \<Rightarrow> filesystem \<Rightarrow> bool \<times> filesystem" where
  "fsys_rename a b fs =
     (case fsys_dir fs a of
        None \<Rightarrow> (False, fs)
      | Some i \<Rightarrow>
          if fsys_writable fs
          then (True, fs\<lparr>fsys_dir := (fsys_dir fs)(a := None, b := Some i)\<rparr>)
          else (False, fs))"

definition ofs_put :: "string \<Rightarrow> ofstream \<times> filesystem \<Rightarrow> ofstream \<times> filesystem" where
  "ofs_put s = (\<lambda>(st, fs).
     if \<not> of_good st then (st, fs)
     else case of_node st of
         None \<Rightarrow> (st\<lparr>of_good := False\<rparr>, fs)
       | Some i \<Rightarrow>
           let n = (case fsys_room fs of None \<Rightarrow> length s | Some r \<Rightarrow> min r (length s));
               nd = \<lparr>nd_text = nd_text (fsys_node fs i) @ take n s, nd_mtime = fsys_now fs\<rparr>
           in (st\<lparr>of_good := (n = length s)\<rparr>,
               fs\<lparr>fsys_node := (fsys_node fs)(i := nd),
                  fsys_room := map_option (\<lambda>r. r - n) (fsys_room fs)\<rparr>))"

definition ofs_open :: "string \<Rightarrow> ofstream \<times> filesystem \<Rightarrow> ofstream \<times> filesystem" where
  "ofs_open path = (\<lambda>(st, fs).
     let nd = \<lparr>nd_text = [], nd_mtime = fsys_now fs\<rparr>
     in if of_node st \<noteq> None \<or> \<not> fsys_writable fs then (st\<lparr>of_good := False\<rparr>, fs)
        else case fsys_dir fs path of
            Some i \<Rightarrow>
              (\<lparr>of_node = Some i, of_good = True\<rparr>,
               fs\<lparr>fsys_node := (fsys_node fs)(i := nd)\<rparr>)
          | None \<Rightarrow>
              (\<lparr>of_node = Some (fsys_next fs), of_good = True\<rparr>,
               fs\<lparr>fsys_dir := (fsys_dir fs)(path := Some (fsys_next fs)),
                  fsys_node := (fsys_node fs)(fsys_next fs := nd),
                  fsys_next := fsys_next fs + 1\<rparr>))"

definition ofs_close :: "ofstream \<Rightarrow> ofstream" where
  "ofs_close st = (if of_node st = None then st\<lparr>of_good := False\<rparr> else st\<lparr>of_node := None\<rparr>)"

definition ofs_tellp :: "ofstream \<times> filesystem \<Rightarrow> int" where
  "ofs_tellp = (\<lambda>(st, fs).
     if \<not> of_good st then -1
     else case of_node st of None \<Rightarrow> -1 | Some i \<Rightarrow> int (length (nd_text (fsys_node fs i))))"

subsection \<open>The sink\<close>

record file_stream =
  fst_filename :: string
  fst_stream :: ofstream
  fst_maxsize :: int
  fst_isopen :: bool

type_synonym file_state = "file_stream \<times> filesystem"

definition file_name :: "file_stream \<Rightarrow> string" where
  "file_name st = ''file: '' @ [squote] @ fst_filename st @ [squote]"

definition with_stream ::
  "(ofstream \<times> filesystem \<Rightarrow> ofstream \<times> filesystem) \<Rightarrow> file_state \<Rightarrow> file_state" where
  "with_stream f = (\<lambda>(st, fs). let (o1, fs1) = f (fst_stream st, fs) in (st\<lparr>fst_stream := o1\<rparr>, fs1))"

definition archive_name :: "string \<Rightarrow> time_point \<Rightarrow> string" where
  "archive_name filename t = filename @ ''-'' @ format_timestamp t"

definition file_archive :: "time_point \<Rightarrow> file_state \<Rightarrow> bool \<times> file_state" where
  "file_archive t = (\<lambda>(st, fs).
     let (ok, fs1) = fsys_rename (fst_filename st) (archive_name (fst_filename st) t) fs
     in (ok, (st, fs1)))"

text \<open>The modification time as \<^verbatim>\<open>open\<close> reads it: whole milliseconds.\<close>

definition stat_time :: "fnode \<Rightarrow> time_point" where
  "stat_time nd = from_time_t (nd_mtime nd div ns_per_s) +
     (nd_mtime nd mod ns_per_s div ns_per_ms) * ns_per_ms"

text \<open>An early \<^verbatim>\<open>return false\<close> leaves \<^verbatim>\<open>m_isopen\<close> as it was.\<close>

definition file_open :: "file_state \<Rightarrow> bool \<times> file_state" where
  "file_open = (\<lambda>(st, fs).
     let (ok, w) =
       (case fsys_dir fs (fst_filename st) of
          Some i \<Rightarrow> file_archive (stat_time (fsys_node fs i)) (st, fs)
        | None \<Rightarrow> (True, (st, fs)))
     in if \<not> ok then (False, w)
        else
          let w1 = with_stream (ofs_open (fst_filename st)) w;
              (st2, fs2) = with_stream (ofs_put (''<logfile>'' @ [newline])) w1;
              good = of_good (fst_stream st2)
          in (good, (st2\<lparr>fst_isopen := good\<rparr>, fs2)))"

definition file_close :: "file_state \<Rightarrow> bool \<times> file_state" where
  "file_close w =
     (let w1 = with_stream (ofs_put (''</logfile>'' @ [newline])) w;
          (st2, fs2) = with_stream (\<lambda>(o1, fs). (ofs_close o1, fs)) w1
      in file_archive (fsys_now fs2) (st2, fs2))"

definition file_rotate :: "file_state \<Rightarrow> bool \<times> file_state" where
  "file_rotate w = file_open (snd (file_close w))"

text \<open>The default of the constructor's \<^verbatim>\<open>_maxsize\<close>.\<close>

definition default_maxsize :: int where
  "default_maxsize = 10 * 1024 * 1024"

text \<open>
  The constructor. It does not initialise \<^verbatim>\<open>m_isopen\<close>: \<open>junk\<close> is the indeterminate value
  the member has when \<^verbatim>\<open>open\<close> returns early.
\<close>

definition new_file_stream :: "bool \<Rightarrow> string \<Rightarrow> int \<Rightarrow> filesystem \<Rightarrow> file_state" where
  "new_file_stream junk filename maxsize fs =
     snd (file_open
       (\<lparr>fst_filename = filename, fst_stream = \<lparr>of_node = None, of_good = True\<rparr>,
         fst_maxsize = maxsize, fst_isopen = junk\<rparr>, fs))"

definition destroy_file_stream :: "file_state \<Rightarrow> file_state" where
  "destroy_file_stream w = snd (file_close w)"

definition message_line :: "log_event \<Rightarrow> string throws" where
  "message_line le =
     bind_exn (formatCData (le_message le)) (\<lambda>cdata.
       Inr (''<message level='' @ [dquote] @ level_name (le_level le) @ [dquote] @
            ''><time>'' @ le_time_string le @ ''</time><subsystem>'' @
            le_subsystem_string le @ ''</subsystem><function>'' @ le_function le @
            ''</function><text>'' @ cdata @ ''</text></message>'' @ [newline]))"

definition file_do_write :: "log_event \<Rightarrow> file_state \<Rightarrow> (bool \<times> file_state) throws" where
  "file_do_write le w =
     (let (opened, w1) = (if fst_isopen (fst w) then (True, w) else file_open w)
      in if \<not> opened then Inr (False, w1)
         else
           bind_exn (message_line le) (\<lambda>line.
             let new_size = ofs_tellp (fst_stream (fst w1), snd w1) + int (length line) + 12;
                 w2 = (if new_size > fst_maxsize (fst w1) then snd (file_rotate w1) else w1);
                 w3 = with_stream (ofs_put line) w2
             in Inr (of_good (fst_stream (fst w3)), w3)))"

subsection \<open>Quoted text can be read back\<close>

text \<open>What the loop writes for the rest of the text.\<close>

function cdata_body :: "string \<Rightarrow> string" where
  "cdata_body x =
     (case find_pat cdata_close x of
        Some i \<Rightarrow> take (i + 2) x @ cdata_close @ cdata_open @ cdata_body (drop (i + 2) x)
      | None \<Rightarrow> x @ cdata_close)"
  by pat_completeness auto
termination
  by (relation "measure length") (auto dest!: find_pat_Some simp: cdata_close_def)

declare cdata_body.simps [simp del]

text \<open>
  The text of a sequence of CDATA sections, as an XML parser reads it: each section ends at
  the first terminator.
\<close>

function cdata_read :: "string \<Rightarrow> string option" where
  "cdata_read s =
     (if prefix cdata_open s then
        let r = drop (length cdata_open) s
        in case find_pat cdata_close r of
             None \<Rightarrow> None
           | Some i \<Rightarrow>
               if drop (i + 3) r = [] then Some (take i r)
               else map_option ((@) (take i r)) (cdata_read (drop (i + 3) r))
      else None)"
  by pat_completeness auto
termination
  by (relation "measure length") (auto simp: cdata_open_def prefix_def)

declare cdata_read.simps [simp del]

lemma format_cdata_loop_body:
  "pos \<le> length dat \<Longrightarrow> format_cdata_loop dat pos ss = Inr (ss @ cdata_body (drop pos dat))"
proof (induction dat pos ss rule: format_cdata_loop.induct)
  case (1 dat pos ss)
  show ?case
  proof (cases "find_pat cdata_close (drop pos dat)")
    case None
    then show ?thesis
      using 1(2) by (simp add: format_cdata_loop.simps cdata_body.simps [of "drop pos dat"] str_find_def)
  next
    case (Some i)
    then have found: "str_find cdata_close dat pos = Some (pos + i)"
      using 1(2) by (simp add: str_find_def)
    moreover have "pos + i + 2 \<le> length dat"
      using str_find_bounds [OF found] by (simp add: cdata_close_def)
    ultimately show ?thesis
      using 1(1) [OF found, of "take (i + 2) (drop pos dat)"] Some
      by (simp add: format_cdata_loop.simps [of dat pos] cdata_body.simps [of "drop pos dat"]
          add.commute add.left_commute)
  qed
qed

lemma formatCData_body: "formatCData dat = Inr (cdata_open @ cdata_body dat)"
  by (simp add: formatCData_def format_cdata_loop_body)

lemma find_close_append:
  "find_pat cdata_close x = None \<Longrightarrow> find_pat cdata_close (x @ cdata_close @ y) = Some (length x)"
proof (induction x)
  case Nil
  then show ?case by (simp add: cdata_close_def)
next
  case (Cons c x)
  have "\<not> prefix cdata_close (c # x @ cdata_close @ y)"
    using Cons.prems
    by (cases x; cases "tl x") (auto simp: cdata_close_def split: if_splits)
  with Cons show ?case by (auto split: if_splits)
qed

lemma find_close_first_segment:
  assumes "find_pat cdata_close x = Some i"
  shows "find_pat cdata_close (take (i + 2) x) = None"
proof (rule ccontr)
  assume "find_pat cdata_close (take (i + 2) x) \<noteq> None"
  then obtain j where j: "find_pat cdata_close (take (i + 2) x) = Some j" by auto
  from find_pat_Some [OF j] obtain a b where
    ab: "take (i + 2) x = a @ cdata_close @ b" "length a = j"
    by (metis length_take min.absorb2 add_leD1)
  have "j + 3 \<le> length (take (i + 2) x)"
    using find_pat_Some [OF j] by (simp add: cdata_close_def)
  then have "j < i" by simp
  moreover have "x = a @ cdata_close @ b @ drop (i + 2) x"
    using ab(1) append_take_drop_id [of "i + 2" x] by (metis append_assoc)
  then have "drop j x = cdata_close @ b @ drop (i + 2) x"
    using ab(2) by (metis append_eq_conv_conj)
  ultimately show False
    using find_pat_first [OF assms, of j] by simp
qed

lemma cdata_read_open:
  "cdata_read (cdata_open @ r) =
     (case find_pat cdata_close r of
        None \<Rightarrow> None
      | Some i \<Rightarrow>
          if drop (i + 3) r = [] then Some (take i r)
          else map_option ((@) (take i r)) (cdata_read (drop (i + 3) r)))"
  by (simp add: cdata_read.simps [of "cdata_open @ r"] Let_def)

lemma cdata_read_body: "cdata_read (cdata_open @ cdata_body x) = Some x"
proof (induction x rule: cdata_body.induct)
  case (1 x)
  show ?case
  proof (cases "find_pat cdata_close x")
    case None
    then show ?thesis
      using find_close_append [OF None, of "[]"]
      by (simp add: cdata_read_open cdata_body.simps [of x]) (simp add: cdata_close_def)
  next
    case (Some i)
    let ?seg = "take (i + 2) x" and ?rest = "cdata_open @ cdata_body (drop (i + 2) x)"
    have len: "length ?seg = i + 2"
      using find_pat_Some [OF Some] by (simp add: cdata_close_def)
    have find: "find_pat cdata_close (?seg @ cdata_close @ ?rest) = Some (i + 2)"
      using find_close_append [OF find_close_first_segment [OF Some], of ?rest] len by simp
    have rest: "drop (i + 2 + 3) (?seg @ cdata_close @ ?rest) = ?rest"
      using len by (simp add: cdata_close_def)
    have nonempty: "?rest \<noteq> []" by (simp add: cdata_open_def)
    have seg: "take (i + 2) (?seg @ cdata_close @ ?rest) = ?seg"
      using len by simp
    have "cdata_read (cdata_open @ cdata_body x) = cdata_read (cdata_open @ ?seg @ cdata_close @ ?rest)"
      by (simp add: cdata_body.simps [of x] Some)
    also have "\<dots> = map_option ((@) ?seg) (cdata_read ?rest)"
      unfolding cdata_read_open find option.case rest seg using nonempty by (rule if_not_P)
    finally show ?thesis
      using "1.IH" [OF Some] by simp
  qed
qed

text \<open>
  C26. Any message survives the quoting: \<^verbatim>\<open>formatCData\<close> never throws, and an XML parser that
  joins the CDATA sections it wrote (each ends at its first terminator) gets the message back,
  terminators inside the message included.
\<close>

theorem formatCData_readable: "\<exists>s. formatCData msg = Inr s \<and> cdata_read s = Some msg"
  by (simp add: formatCData_body cdata_read_body)

subsection \<open>Writing and rotating\<close>

text \<open>
  The sink in operation: its stream is good and writes the file \<open>i\<close>, which only the log
  file's name refers to, in a directory that can be changed and never runs out of space.
\<close>

definition file_ready :: "file_state \<Rightarrow> nat \<Rightarrow> bool" where
  "file_ready w i \<longleftrightarrow>
     (case w of (st, fs) \<Rightarrow>
        fst_isopen st \<and> fst_stream st = \<lparr>of_node = Some i, of_good = True\<rparr> \<and>
        fsys_dir fs (fst_filename st) = Some i \<and>
        (\<forall>p. fsys_dir fs p = Some i \<longrightarrow> p = fst_filename st) \<and>
        (\<forall>p j. fsys_dir fs p = Some j \<longrightarrow> j < fsys_next fs) \<and>
        fsys_writable fs \<and> fsys_room fs = None)"

definition current_text :: "file_state \<Rightarrow> nat \<Rightarrow> string" where
  "current_text w i = nd_text (fsys_node (snd w) i)"

lemma archive_name_neq [simp]: "archive_name f t \<noteq> f" "f \<noteq> archive_name f t"
  by (simp_all add: archive_name_def)

lemma message_line_total: "\<exists>line. message_line le = Inr line"
  by (simp add: message_line_def formatCData_body)

lemma archive_name_inject: "archive_name f s = archive_name f t \<longleftrightarrow> format_timestamp s = format_timestamp t"
  by (simp add: archive_name_def)

definition head_tag :: string where "head_tag = ''<logfile>'' @ [newline]"
definition tail_tag :: string where "tail_tag = ''</logfile>'' @ [newline]"

lemma file_rotate_ready:
  assumes "file_ready (st, fs) i"
  shows "file_rotate (st, fs) =
    (True,
     st\<lparr>fst_stream := \<lparr>of_node = Some (fsys_next fs), of_good = True\<rparr>, fst_isopen := True\<rparr>,
     fs\<lparr>fsys_dir := (fsys_dir fs)
          (fst_filename st := Some (fsys_next fs),
           archive_name (fst_filename st) (fsys_now fs) := Some i),
        fsys_node := (fsys_node fs)
          (i := \<lparr>nd_text = nd_text (fsys_node fs i) @ tail_tag, nd_mtime = fsys_now fs\<rparr>,
           fsys_next fs := \<lparr>nd_text = head_tag, nd_mtime = fsys_now fs\<rparr>),
        fsys_next := fsys_next fs + 1\<rparr>)"
  using assms
  by (auto simp: file_ready_def file_rotate_def file_close_def file_open_def file_archive_def
      with_stream_def ofs_put_def ofs_close_def ofs_open_def fsys_rename_def Let_def
      head_tag_def tail_tag_def fun_upd_twist)

lemma file_write_ready:
  assumes "file_ready (st, fs) i"
  shows "with_stream (ofs_put line) (st, fs) =
    (st, fs\<lparr>fsys_node := (fsys_node fs)
       (i := \<lparr>nd_text = nd_text (fsys_node fs i) @ line, nd_mtime = fsys_now fs\<rparr>)\<rparr>)"
  using assms by (simp add: file_ready_def with_stream_def ofs_put_def Let_def)

lemma length_tags [simp]: "length head_tag = 10" "length tail_tag = 11"
  by (simp_all add: head_tag_def tail_tag_def)

lemma ready_after_put:
  assumes "file_ready (st, fs) i"
  shows "file_ready (st, fs\<lparr>fsys_node := (fsys_node fs)(i := nd)\<rparr>) i"
  using assms by (simp add: file_ready_def)

lemma ready_after_rotate:
  assumes "file_ready (st, fs) i"
  shows "file_ready (snd (file_rotate (st, fs))) (fsys_next fs)"
  using assms unfolding file_rotate_ready [OF assms]
  by (auto simp: file_ready_def less_SucI)

lemma file_do_write_ready:
  assumes "file_ready (st, fs) i" "message_line le = Inr line"
  shows "file_do_write le (st, fs) =
    (let w = (if int (length (current_text (st, fs) i)) + int (length line) + 12 > fst_maxsize st
              then snd (file_rotate (st, fs)) else (st, fs));
         w' = with_stream (ofs_put line) w
     in Inr (of_good (fst_stream (fst w')), w'))"
  using assms by (simp add: file_do_write_def file_ready_def ofs_tellp_def current_text_def)

text \<open>
  C24. Writing to a sink in operation succeeds and leaves it in operation, for every event. If the
  line fits behind what the current file holds, it is appended and no name changes. Otherwise the
  current file is closed with its end tag and gets its archive name, and the line is the first one
  of a new file. With its closing tag still to come, the current file stays within the size limit,
  unless the line is too long for any file. Nothing else in the directory changes but one thing:
  a file that already has the name of the archive loses it. So every other file, the log's own
  included, is still there with all the bytes it had.
\<close>

theorem file_do_write_spec:
  assumes "file_ready (st, fs) i" "message_line le = Inr line"
  shows "\<exists>st' fs' j. file_do_write le (st, fs) = Inr (True, (st', fs')) \<and> file_ready (st', fs') j \<and>
    (int (length line) + 22 \<le> fst_maxsize st \<longrightarrow> int (length (current_text (st', fs') j @ tail_tag)) \<le> fst_maxsize st) \<and>
    (\<forall>k. k \<noteq> i \<longrightarrow> k \<noteq> j \<longrightarrow> fsys_node fs' k = fsys_node fs k) \<and>
    (if int (length (current_text (st, fs) i @ line)) + 12 \<le> fst_maxsize st
     then j = i \<and> fsys_dir fs' = fsys_dir fs \<and> current_text (st', fs') i = current_text (st, fs) i @ line
     else fsys_dir fs' = (fsys_dir fs)(fst_filename st := Some j, archive_name (fst_filename st) (fsys_now fs) := Some i) \<and>
       (\<forall>p. fsys_dir fs p \<noteq> Some j) \<and> current_text (st', fs') i = current_text (st, fs) i @ tail_tag \<and>
       current_text (st', fs') j = head_tag @ line) \<and>
    (\<forall>p k. fsys_dir fs p = Some k \<longrightarrow> p \<noteq> archive_name (fst_filename st) (fsys_now fs) \<longrightarrow>
       (\<exists>p'. fsys_dir fs' p' = Some k) \<and> prefix (current_text (st, fs) k) (current_text (st', fs') k))"
proof (cases "int (length (current_text (st, fs) i @ line)) + 12 \<le> fst_maxsize st")
  case True
  define fs' where "fs' = fs\<lparr>fsys_node := (fsys_node fs)
    (i := \<lparr>nd_text = nd_text (fsys_node fs i) @ line, nd_mtime = fsys_now fs\<rparr>)\<rparr>"
  have "file_do_write le (st, fs) = Inr (True, (st, fs'))"
    using file_do_write_ready [OF assms] file_write_ready [OF assms(1), of line] True assms(1)
    by (simp add: fs'_def file_ready_def)
  moreover have "file_ready (st, fs') i" using ready_after_put [OF assms(1)] by (simp add: fs'_def)
  ultimately show ?thesis using True
    by (intro exI [of _ st] exI [of _ fs'] exI [of _ i]) (auto simp: current_text_def fs'_def)
next
  case False
  let ?j = "fsys_next fs"
  let ?a = "archive_name (fst_filename st) (fsys_now fs)"
  obtain st1 fs1 where rotated: "file_rotate (st, fs) = (True, (st1, fs1))"
    "fsys_dir fs1 = (fsys_dir fs)(fst_filename st := Some ?j, ?a := Some i)"
    "fsys_node fs1 = (fsys_node fs)(i := \<lparr>nd_text = nd_text (fsys_node fs i) @ tail_tag, nd_mtime = fsys_now fs\<rparr>,
      ?j := \<lparr>nd_text = head_tag, nd_mtime = fsys_now fs\<rparr>)"
    using file_rotate_ready [OF assms(1)] by simp
  have ready: "file_ready (st1, fs1) ?j" using ready_after_rotate [OF assms(1)] rotated(1) by simp
  define fs' where "fs' = fs1\<lparr>fsys_node := (fsys_node fs1)
    (?j := \<lparr>nd_text = nd_text (fsys_node fs1 ?j) @ line, nd_mtime = fsys_now fs1\<rparr>)\<rparr>"
  have written: "file_do_write le (st, fs) = Inr (True, (st1, fs'))"
    using file_do_write_ready [OF assms] file_write_ready [OF ready, of line] False ready rotated(1)
    by (simp add: fs'_def file_ready_def)
  have below: "k < ?j" if "fsys_dir fs p = Some k" for p k using that assms(1) by (simp add: file_ready_def)
  have own: "fsys_dir fs (fst_filename st) = Some i" "i \<noteq> ?j" using assms(1) by (auto simp: file_ready_def)
  have dir: "fsys_dir fs' = (fsys_dir fs)(fst_filename st := Some ?j, ?a := Some i)" by (simp add: fs'_def rotated(2))
  have texts: "current_text (st1, fs') k = (if k = ?j then head_tag @ line
      else if k = i then current_text (st, fs) i @ tail_tag else current_text (st, fs) k)" for k
    by (simp add: current_text_def fs'_def rotated(3))
  have kept: "(\<exists>p'. fsys_dir fs' p' = Some k) \<and> prefix (current_text (st, fs) k) (current_text (st1, fs') k)"
    if p: "fsys_dir fs p = Some k" "p \<noteq> ?a" for p k
  proof -
    have "fsys_dir fs' (if k = i then ?a else p) = Some k" using p own by (auto simp: dir)
    then show ?thesis using below [OF p(1)] by (auto simp: texts)
  qed
  have "file_ready (st1, fs') ?j" using ready_after_put [OF ready] by (simp add: fs'_def)
  moreover have "\<forall>k. k \<noteq> i \<longrightarrow> k \<noteq> ?j \<longrightarrow> fsys_node fs' k = fsys_node fs k" by (simp add: fs'_def rotated(3))
  moreover have "\<forall>p. fsys_dir fs p \<noteq> Some ?j" using below by blast
  ultimately show ?thesis using written kept False own(2)
    by (intro exI [of _ st1] exI [of _ fs'] exI [of _ ?j]) (simp add: texts dir)
qed

text \<open>A directory with no files, and a sink started in it.\<close>

definition empty_disk :: "time_point \<Rightarrow> filesystem" where
  "empty_disk t =
     \<lparr>fsys_dir = (\<lambda>_. None), fsys_node = (\<lambda>_. \<lparr>nd_text = [], nd_mtime = 0\<rparr>), fsys_next = 0,
      fsys_room = None, fsys_writable = True, fsys_now = t\<rparr>"

lemma new_file_stream_ready:
  assumes "fsys_dir fs f = None" "\<forall>p j. fsys_dir fs p = Some j \<longrightarrow> j < fsys_next fs"
    and "fsys_writable fs" "fsys_room fs = None"
  shows "file_ready (new_file_stream junk f maxsize fs) (fsys_next fs)"
  using assms
  by (auto simp: file_ready_def new_file_stream_def file_open_def with_stream_def ofs_put_def
      ofs_open_def Let_def less_SucI)

definition sample_file :: file_state where
  "sample_file = new_file_stream False ''log'' 300 (empty_disk 1500000000123456789)"

lemma sample_file_ready: "file_ready sample_file 0"
  using new_file_stream_ready [of "empty_disk 1500000000123456789" "''log''" False 300]
  by (simp add: sample_file_def empty_disk_def)

lemma sample_message_line:
  "message_line (sample_event Info ''a'' 0) =
     Inr (''<message level='' @ [dquote] @ level_name Info @ [dquote] @
       ''><time>now</time><subsystem>sys</subsystem><function>f</function><text><![CDATA[a]]></text></message>'' @
       [newline])"
  by code_simp

theorem file_do_write_spec_witness:
  "\<exists>line st' fs' j. message_line (sample_event Info ''a'' 0) = Inr line \<and>
     file_do_write (sample_event Info ''a'' 0) (fst sample_file, snd sample_file) =
       Inr (True, (st', fs')) \<and> file_ready (st', fs') j"
proof -
  have "file_ready (fst sample_file, snd sample_file) 0" using sample_file_ready by simp
  from file_do_write_spec [OF this sample_message_line] show ?thesis using sample_message_line by blast
qed

subsection \<open>What rotation can lose\<close>

lemma file_rotate_twice:
  assumes "file_ready (st, fs) i"
    and "file_rotate (st, fs) = (ok1, (st1, fs1))"
    and "file_rotate (st1, fs1\<lparr>fsys_now := t\<rparr>) = (ok2, (st2, fs2))"
  shows "(\<exists>p. fsys_dir fs2 p = Some i) \<longleftrightarrow>
    archive_name (fst_filename st) (fsys_now fs) \<noteq> archive_name (fst_filename st) t"
proof -
  let ?f = "fst_filename st" and ?n = "fsys_next fs"
  have first: "st1 = st\<lparr>fst_stream := \<lparr>of_node = Some ?n, of_good = True\<rparr>, fst_isopen := True\<rparr>"
    "fsys_dir fs1 = (fsys_dir fs)(?f := Some ?n, archive_name ?f (fsys_now fs) := Some i)"
    "fsys_next fs1 = ?n + 1"
    using assms(2) unfolding file_rotate_ready [OF assms(1)] by auto
  have "file_ready (st1, fs1\<lparr>fsys_now := t\<rparr>) ?n"
    using ready_after_rotate [OF assms(1)] assms(2) by (simp add: file_ready_def)
  from file_rotate_ready [OF this] have second:
    "fsys_dir fs2 = (fsys_dir fs1)(?f := Some (?n + 1), archive_name ?f t := Some ?n)"
    using assms(3) first by auto
  have "i < ?n" "\<forall>p. fsys_dir fs p = Some i \<longrightarrow> p = ?f"
    using assms(1) by (auto simp: file_ready_def)
  then show ?thesis
    by (auto simp: first(2) second)
qed

text \<open>
  A finished file can be lost: when the sink rotates and rotates again at time \<open>t\<close>,
  the file closed first still has a name afterwards exactly when the two rotations lie in
  different milliseconds. In the same millisecond the second archive takes the first one's
  name and \<^verbatim>\<open>rename\<close> replaces it.
\<close>

theorem file_rotate_twice_keeps:
  assumes "file_ready (st, fs) i" "0 \<le> fsys_now fs" "0 \<le> t"
    and "file_rotate (st, fs) = (ok1, (st1, fs1))"
    and "file_rotate (st1, fs1\<lparr>fsys_now := t\<rparr>) = (ok2, (st2, fs2))"
  shows "(\<exists>p. fsys_dir fs2 p = Some i) \<longleftrightarrow> fsys_now fs div ns_per_ms \<noteq> t div ns_per_ms"
  using file_rotate_twice [OF assms(1,4,5)] assms(2,3)
  by (simp add: archive_name_inject format_timestamp_same_ms)

theorem file_rotate_twice_keeps_witness:
  "\<exists>st1 fs1 st2 fs2 ok1 ok2. file_rotate sample_file = (ok1, (st1, fs1)) \<and>
     file_rotate (st1, fs1\<lparr>fsys_now := 1500000000123999999\<rparr>) = (ok2, (st2, fs2)) \<and>
     ((\<exists>p. fsys_dir fs2 p = Some 0) \<longleftrightarrow>
       fsys_now (snd sample_file) div ns_per_ms \<noteq> 1500000000123999999 div ns_per_ms)"
proof -
  obtain ok1 st1 fs1 where 1: "file_rotate (fst sample_file, snd sample_file) = (ok1, (st1, fs1))"
    by (metis prod.exhaust)
  obtain ok2 st2 fs2 where 2: "file_rotate (st1, fs1\<lparr>fsys_now := 1500000000123999999\<rparr>) = (ok2, (st2, fs2))"
    by (metis prod.exhaust)
  have "0 \<le> fsys_now (snd sample_file)" by code_simp
  then show ?thesis
    using file_rotate_twice_keeps [OF _ _ _ 1 2, of 0] sample_file_ready 1 2 by auto
qed

lemma file_bad_write:
  assumes "fst_isopen st" "\<not> of_good (fst_stream st)" "message_line le = Inr line"
    and "int (length line) + 11 \<le> fst_maxsize st"
  shows "file_do_write le (st, fs) = Inr (False, (st, fs))"
  using assms by (simp add: file_do_write_def ofs_tellp_def with_stream_def ofs_put_def)

lemma file_rotate_unwritable:
  assumes "fst_stream st = \<lparr>of_node = Some i, of_good = True\<rparr>" "fst_isopen st"
    and "fsys_dir fs (fst_filename st) = Some k" "\<not> fsys_writable fs"
  shows "\<exists>fs'. file_rotate (st, fs) =
    (False, (st\<lparr>fst_stream := \<lparr>of_node = None, of_good = of_good (fst (ofs_put tail_tag (fst_stream st, fs)))\<rparr>\<rparr>, fs'))"
  using assms
  by (auto simp: file_rotate_def file_close_def file_open_def file_archive_def with_stream_def
      ofs_put_def ofs_close_def fsys_rename_def Let_def tail_tag_def split: option.splits)

lemma file_write_unwritable:
  assumes "fst_stream st = \<lparr>of_node = Some i, of_good = True\<rparr>" "fst_isopen st"
    and "fsys_dir fs (fst_filename st) = Some k" "\<not> fsys_writable fs"
    and "message_line le = Inr line"
    and "fst_maxsize st < int (length (current_text (st, fs) i)) + int (length line) + 12"
  shows "\<exists>st' fs'. file_do_write le (st, fs) = Inr (False, (st', fs')) \<and>
    fst_isopen st' \<and> \<not> of_good (fst_stream st') \<and> fst_maxsize st' = fst_maxsize st"
proof -
  obtain fs1 where "file_rotate (st, fs) =
    (False, (st\<lparr>fst_stream := \<lparr>of_node = None, of_good = of_good (fst (ofs_put tail_tag (fst_stream st, fs)))\<rparr>\<rparr>, fs1))"
    using file_rotate_unwritable [OF assms(1-4)] by auto
  then show ?thesis
    using assms
    by (simp add: file_do_write_def ofs_tellp_def current_text_def with_stream_def ofs_put_def Let_def)
qed

text \<open>
  C25. A rotation that finds a directory that cannot be changed stops the sink for every line of
  ordinary length. That write fails, and from then on every event whose line fits the limit is
  refused without any effect, whatever the file system is like by then: the member
  \<^verbatim>\<open>m_isopen\<close> stays true although no file is open, so \<^verbatim>\<open>do_write\<close> does not call \<^verbatim>\<open>open\<close>.
  (Only a line longer than the limit makes it rotate, and so open the file, again. A rotation that
  fails later, when the head tag cannot be written, leaves \<^verbatim>\<open>m_isopen\<close> false, and the next write
  opens the file.)
\<close>

theorem file_rotation_failure_permanent:
  assumes "fst_stream st = \<lparr>of_node = Some i, of_good = True\<rparr>" "fst_isopen st"
    and "fsys_dir fs (fst_filename st) = Some k" "\<not> fsys_writable fs"
    and "message_line le = Inr line"
    and "fst_maxsize st < int (length (current_text (st, fs) i)) + int (length line) + 12"
  shows "\<exists>st' fs'. file_do_write le (st, fs) = Inr (False, (st', fs')) \<and>
    (\<forall>le' line' fs''. message_line le' = Inr line' \<longrightarrow> int (length line') + 11 \<le> fst_maxsize st \<longrightarrow>
       file_do_write le' (st', fs'') = Inr (False, (st', fs'')))"
  using file_write_unwritable [OF assms] file_bad_write by metis

text \<open>A sink whose file is full, in a directory that has become read-only.\<close>

definition sample_full :: file_state where
  "sample_full = (let (st, fs) = sample_file in (st\<lparr>fst_maxsize := 130\<rparr>, fs\<lparr>fsys_writable := False\<rparr>))"

theorem file_rotation_failure_permanent_witness:
  "\<exists>st' fs'. file_do_write (sample_event Info ''a'' 0) (fst sample_full, snd sample_full) =
       Inr (False, (st', fs'))"
proof -
  have "fst_stream (fst sample_full) = \<lparr>of_node = Some 0, of_good = True\<rparr>"
    "fst_isopen (fst sample_full)" "fsys_dir (snd sample_full) (fst_filename (fst sample_full)) = Some 0"
    "\<not> fsys_writable (snd sample_full)"
    "fst_maxsize (fst sample_full) < int (length (current_text (fst sample_full, snd sample_full) 0)) +
      int (length (''<message level='' @ [dquote] @ level_name Info @ [dquote] @
       ''><time>now</time><subsystem>sys</subsystem><function>f</function><text><![CDATA[a]]></text></message>'' @
       [newline])) + 12"
    by code_simp+
  then show ?thesis
    using file_rotation_failure_permanent [of "fst sample_full" 0 "snd sample_full" 0,
        OF _ _ _ _ sample_message_line] by blast
qed

subsection \<open>The virtual functions\<close>

text \<open>\<^verbatim>\<open>do_write\<close> never throws, see \<open>message_line_total\<close>.\<close>

definition file_class :: "file_state stream_class" where
  "file_class =
     \<lparr>vt_name = file_name \<circ> fst, vt_retry_time = (\<lambda>_. os_retry_time),
      vt_do_write = (\<lambda>w le. case file_do_write le w of Inr r \<Rightarrow> r | Inl _ \<Rightarrow> (False, w)),
      vt_destroy = Inr \<circ> destroy_file_stream\<rparr>"

end
