(* ===== verification/Stdout_Stream.thy ===== *)
theory Stdout_Stream
  imports Output_Stream
begin

section \<open>The console sink (output_stream_stdout.h, output_stream_stdout.cpp)\<close>

text \<open>
  The sink as it is built on a Unix system (\<^verbatim>\<open>SuS_HAS_COLOR\<close> and
  \<^verbatim>\<open>COLOR_ENTIRE_LINE\<close> are defined). A \<^verbatim>\<open>std::ostream\<close> is its text, its state
  \<^verbatim>\<open>good()\<close> and the number of characters its device still takes, \<open>None\<close> for no limit:
  an insertion into a stream that is not good does nothing, one that hits the limit writes
  what fits and makes the stream bad.
\<close>

record ostream =
  ostr_text :: string
  ostr_good :: bool
  ostr_room :: "nat option"

definition ostr_put :: "string \<Rightarrow> ostream \<Rightarrow> ostream" where
  "ostr_put s o1 =
     (if \<not> ostr_good o1 then o1
      else case ostr_room o1 of
          None \<Rightarrow> o1\<lparr>ostr_text := ostr_text o1 @ s\<rparr>
        | Some n \<Rightarrow>
            if length s \<le> n
            then o1\<lparr>ostr_text := ostr_text o1 @ s, ostr_room := Some (n - length s)\<rparr>
            else o1\<lparr>ostr_text := ostr_text o1 @ take n s, ostr_room := Some 0, ostr_good := False\<rparr>)"

definition s_colors :: "(log_level, string) std_map" where
  "s_colors =
     [(Finest, escape # ''[37m''), (Finer, escape # ''[37m''), (Fine, []),
      (Config, escape # ''[32m''), (Info, escape # ''[33m''), (Warning, escape # ''[31m''),
      (Severe, escape # ''[1;31m'')]"

definition s_colors256dark :: "(log_level, string) std_map" where
  "s_colors256dark =
     [(Finest, escape # ''[38;5;240m''), (Finer, escape # ''[38;5;244m''),
      (Fine, escape # ''[38;5;248m''), (Config, escape # ''[32m''), (Info, escape # ''[33m''),
      (Warning, escape # ''[31m''), (Severe, escape # ''[1;31m'')]"

definition s_colors256light :: "(log_level, string) std_map" where
  "s_colors256light =
     [(Finest, escape # ''[38;5;248m''), (Finer, escape # ''[38;5;244m''),
      (Fine, escape # ''[38;5;240m''), (Config, escape # ''[32m''), (Info, escape # ''[33m''),
      (Warning, escape # ''[31m''), (Severe, escape # ''[1;31m'')]"

record stdout_stream =
  so_colors :: "(log_level, string) std_map"
  so_name :: string
  so_stream :: ostream

text \<open>
  The part of \<^verbatim>\<open>init_colors\<close> inside its \<^verbatim>\<open>try\<close> block: does \<^verbatim>\<open>COLORFGBG\<close>
  name a light background?
\<close>

definition light_background :: "string \<Rightarrow> bool throws" where
  "light_background fgbg =
     bind_exn (stoi fgbg) (\<lambda>(color_fg, next1).
       if next1 = length fgbg then Inr False
       else if fgbg ! next1 \<noteq> CHR '';'' then Inr False
       else if color_fg < 0 then Inr False
       else
         bind_exn (substr_from fgbg (next1 + 1)) (\<lambda>bg.
         bind_exn (stoi bg) (\<lambda>(color_bg, next2).
           if next2 \<noteq> length bg then Inr False
           else if color_bg < 0 then Inr False
           else Inr (color_bg = 7 \<or> color_bg > 9))))"

text \<open>
  The whole function, on the values of the environment variables \<^verbatim>\<open>TERM\<close> and
  \<^verbatim>\<open>COLORFGBG\<close>. Only \<^verbatim>\<open>invalid_argument\<close> is caught.
\<close>

definition init_colors :: "string option \<Rightarrow> string option \<Rightarrow> (log_level, string) std_map throws" where
  "init_colors term_env colorfgbg =
     (case term_env of
        None \<Rightarrow> Inr s_colors
      | Some termstr \<Rightarrow>
          if 9 > length termstr \<or> drop (length termstr - 9) termstr \<noteq> ''-256color''
          then Inr s_colors
          else
            case colorfgbg of
              None \<Rightarrow> Inr s_colors256dark
            | Some fgbg \<Rightarrow>
                (case light_background fgbg of
                   Inr light \<Rightarrow> Inr (if light then s_colors256light else s_colors256dark)
                 | Inl (Invalid_argument _) \<Rightarrow> Inr s_colors256dark
                 | Inl e \<Rightarrow> Inl e))"

definition new_stdout_stream ::
  "string option \<Rightarrow> string option \<Rightarrow> string \<Rightarrow> ostream \<Rightarrow> stdout_stream throws" where
  "new_stdout_stream term_env colorfgbg name o1 =
     bind_exn (init_colors term_env colorfgbg) (\<lambda>colors.
       Inr \<lparr>so_colors = colors, so_name = (if name = [] then ''stdout'' else name), so_stream = o1\<rparr>)"

definition stdout_retry_time :: nat where
  "stdout_retry_time = 10"

text \<open>The color table's \<^verbatim>\<open>at\<close>; the tables hold every level.\<close>

definition color_of :: "stdout_stream \<Rightarrow> log_level \<Rightarrow> string" where
  "color_of so l = (case map_find l (so_colors so) of None \<Rightarrow> [] | Some c \<Rightarrow> c)"

definition stdout_line :: "stdout_stream \<Rightarrow> log_event \<Rightarrow> string" where
  "stdout_line so le =
     color_of so (le_level le) @ le_time_string le @ '' ['' @
     pad_right 7 (CHR '' '') (level_name (le_level le)) @ ''] ['' @
     resize 8 (CHR '' '') (le_subsystem_string le) @ ''] '' @ le_message le @
     escape # ''[0m'' @ [newline]"

definition stdout_do_write :: "stdout_stream \<Rightarrow> log_event \<Rightarrow> bool \<times> stdout_stream" where
  "stdout_do_write so le =
     (let o1 = ostr_put (stdout_line so le) (so_stream so)
      in (ostr_good o1, so\<lparr>so_stream := o1\<rparr>))"

definition stdout_class :: "stdout_stream stream_class" where
  "stdout_class =
     \<lparr>vt_name = so_name, vt_retry_time = (\<lambda>_. stdout_retry_time), vt_do_write = stdout_do_write,
      vt_destroy = Inr\<rparr>"

subsection \<open>The sink keeps the contract\<close>

lemma ostr_put_good: "ostr_good (ostr_put s o1) \<Longrightarrow> ostr_text (ostr_put s o1) = ostr_text o1 @ s"
  by (auto simp: ostr_put_def split: option.splits if_splits)

lemma ostr_put_prefix: "\<exists>p. prefix p s \<and> ostr_text (ostr_put s o1) = ostr_text o1 @ p"
  by (auto simp: ostr_put_def take_is_prefix split: option.splits)

lemma ostr_put_bad: "\<not> ostr_good o1 \<Longrightarrow> ostr_put s o1 = o1"
  by (simp add: ostr_put_def)

interpretation stdout: sink stdout_do_write "\<lambda>so. ostr_text (so_stream so)" stdout_line
  by unfold_locales
    (auto simp: stdout_do_write_def Let_def ostr_put_good ostr_put_prefix stdout_line_def
      color_of_def fun_eq_iff)

lemma color_tables_complete:
  "init_colors t c = Inr m \<Longrightarrow> map_wf m \<and> set (map fst m) = UNIV"
proof -
  assume "init_colors t c = Inr m"
  then have "m \<in> {s_colors, s_colors256dark, s_colors256light}"
    by (auto simp: init_colors_def split: option.splits if_splits sum.splits exn.splits)
  moreover have "l \<in> {Finest, Finer, Fine, Config, Info, Warning, Severe}" for l
    by (cases l) simp_all
  then have "{Finest, Finer, Fine, Config, Info, Warning, Severe} = UNIV" by blast
  ultimately show ?thesis
    by (auto simp: map_wf_def s_colors_def s_colors256dark_def s_colors256light_def level_order)
qed

subsection \<open>Choosing the colors\<close>

lemma light_background_numbers:
  "light_background (show_nat fg @ CHR '';'' # show_nat bg) =
     (if int_max < int fg \<or> int_max < int bg then Inl Out_of_range
      else Inr (bg = 7 \<or> 9 < bg))"
proof -
  have semi: "\<not> is_digit 10 (CHR '';'')"
    by (simp add: is_digit_def digit_value_def char_code_def)
  have bg: "stoi (show_nat bg) =
      (if int_max < int bg then Inl Out_of_range else Inr (int bg, length (show_nat bg)))"
    using stoi_show_nat [of "[]" bg] by simp
  show ?thesis
    using stoi_show_nat [of "CHR '';'' # show_nat bg" fg] semi
    by (simp add: light_background_def bg)
qed

text \<open>
  On a 256-color terminal with \<^verbatim>\<open>COLORFGBG\<close> set to two numbers the sink takes the
  light table exactly for the background colors 7 and those above 9 and the dark one
  otherwise; but a number that does not fit an \<^verbatim>\<open>int\<close> makes \<^verbatim>\<open>std::stoi\<close> throw
  \<^verbatim>\<open>out_of_range\<close>, which no handler of the constructor catches.
\<close>

theorem init_colors_fgbg:
  "init_colors (Some (t @ ''-256color'')) (Some (show_nat fg @ CHR '';'' # show_nat bg)) =
     (if int_max < int fg \<or> int_max < int bg then Inl Out_of_range
      else Inr (if bg = 7 \<or> 9 < bg then s_colors256light else s_colors256dark))"
  by (simp add: init_colors_def light_background_numbers)

text \<open>
  A console sink that could not write once never writes again: after a write whose
  stream is not good, every later event that passes the level filter is refused and leaves
  the sink as it is, since nothing clears the stream's state. Retrying cannot help it.
\<close>

theorem stdout_failure_permanent:
  assumes "os_write stdout_do_write s le = (False, s')" "os_min_level s \<le> le_level le'"
  shows "os_write stdout_do_write s' le' = (False, s')"
proof -
  have "\<not> ostr_good (so_stream (os_derived s'))" "os_min_level s' = os_min_level s"
    using assms(1) by (auto simp: os_write_def stdout_do_write_def Let_def split: if_splits)
  then show ?thesis
    using assms(2) by (simp add: os_write_def stdout_do_write_def Let_def ostr_put_bad not_less)
qed

definition full_console :: "stdout_stream output_stream" where
  "full_console = \<lparr>os_min_level = Finest, os_derived =
     \<lparr>so_colors = s_colors, so_name = ''stdout'', so_stream =
       \<lparr>ostr_text = [], ostr_good = True, ostr_room = Some 3\<rparr>\<rparr>\<rparr>"

theorem stdout_failure_permanent_witness:
  "os_write stdout_do_write
     (snd (os_write stdout_do_write full_console (sample_event Info ''a'' 0)))
     (sample_event Info ''b'' 1) =
   (False, snd (os_write stdout_do_write full_console (sample_event Info ''a'' 0)))"
  by (rule stdout_failure_permanent [of full_console "sample_event Info ''a'' 0"])
    (simp_all add: full_console_def sample_event_def os_write_def stdout_do_write_def
      ostr_put_def stdout_line_def level_order)

end
