(* ===== verification/Retry_Thread.thy ===== *)
theory Retry_Thread
  imports File_Stream Stdout_Stream
begin

section \<open>The retry thread of a sink (retry_thread.h, retry_thread.cpp)\<close>

text \<open>
  The queue of events a sink has refused, and the loop of the thread that offers them to
  the sink again. The thread sleeps between two cycles; a run is therefore a sequence of
  cycles, each given the events the log thread has queued since the last one and the clock
  at the moment of expiry. (Steps that interleave inside a cycle are in the theory
  \<open>Delivery\<close>.)
\<close>

definition time_t_max :: int where
  "time_t_max = 2 ^ 63 - 1"

definition expiry_time :: "(log_level, int) std_map" where
  "expiry_time =
     [(Finest, 900), (Finer, 900), (Fine, 1800), (Config, 1800), (Info, 3600),
      (Warning, 10 * 3600), (Severe, time_t_max)]"

text \<open>\<^verbatim>\<open>m_stream\<close> is an address; \<open>rt_running\<close> is whether \<^verbatim>\<open>m_thread\<close> has not returned.\<close>

record retry_thread =
  rt_stream :: nat
  rt_queue :: "log_event list"
  rt_running :: bool

definition new_retry_thread :: "nat \<Rightarrow> retry_thread" where
  "new_retry_thread p = \<lparr>rt_stream = p, rt_queue = [], rt_running = True\<rparr>"

definition retry_banner :: "'s stream_class \<Rightarrow> 's output_stream \<Rightarrow> string" where
  "retry_banner c s = ''starting retry thread for '' @ vt_name c (os_derived s) @ [newline]"

definition rt_active :: "retry_thread \<Rightarrow> bool" where
  "rt_active t \<longleftrightarrow> rt_queue t \<noteq> []"

definition rt_enqueue :: "log_event \<Rightarrow> retry_thread \<Rightarrow> retry_thread" where
  "rt_enqueue le t = t\<lparr>rt_queue := rt_queue t @ [le]\<rparr>"

text \<open>
  The inner loop: events are taken from the front while the sink accepts them. The first
  component of the result, the events written, is not a variable of the code.
\<close>

fun write_loop ::
  "('t \<Rightarrow> log_event \<Rightarrow> bool \<times> 't) \<Rightarrow> 't \<Rightarrow> log_event list \<Rightarrow> log_event list \<times> 't \<times> log_event list" where
  "write_loop w s [] = ([], s, [])"
| "write_loop w s (e # q) =
     (let (ok, s1) = w s e
      in if ok then let (done1, s2, q2) = write_loop w s1 q in (e # done1, s2, q2)
         else ([], s1, e # q))"

definition expired :: "time_point \<Rightarrow> log_event \<Rightarrow> bool" where
  "expired tpnow i \<longleftrightarrow>
     (case map_find (le_level i) expiry_time of
        None \<Rightarrow> False
      | Some limit \<Rightarrow> trunc_div (tpnow - le_time i) ns_per_s > limit)"

fun expire_loop :: "time_point \<Rightarrow> log_event list \<Rightarrow> nat \<Rightarrow> log_event list \<times> nat" where
  "expire_loop tpnow [] n = ([], n)"
| "expire_loop tpnow (i # q) n =
     (if expired tpnow i then expire_loop tpnow q (n + 1)
      else let (q', n') = expire_loop tpnow q n in (i # q', n'))"

text \<open>
  A run: the sink, the thread object, the events written so far (not a variable of the
  code) and the text on \<^verbatim>\<open>std::cout\<close> and \<^verbatim>\<open>std::cerr\<close>.
\<close>

record 's retry_run =
  run_stream :: "'s output_stream"
  run_thread :: retry_thread
  run_done :: "log_event list"
  run_cout :: string
  run_cerr :: string

definition run_name :: "'s stream_class \<Rightarrow> 's retry_run \<Rightarrow> string" where
  "run_name c r = vt_name c (os_derived (run_stream r))"

definition retry_cycle :: "'s stream_class \<Rightarrow> time_point \<Rightarrow> 's retry_run \<Rightarrow> 's retry_run" where
  "retry_cycle c tpnow r =
     (let (done1, s1, q1) =
            write_loop (os_write (vt_do_write c)) (run_stream r) (rt_queue (run_thread r));
          (q2, n) = expire_loop tpnow q1 0;
          r1 = r\<lparr>run_stream := s1, run_thread := (run_thread r)\<lparr>rt_queue := q2\<rparr>,
                 run_done := run_done r @ done1\<rparr>
      in if n > 0
         then r1\<lparr>run_cerr := run_cerr r1 @ ''expired '' @ show_nat n @ '' entries for logger '' @
                [dquote] @ run_name c r1 @ [dquote, newline]\<rparr>
         else r1)"

fun rt_run :: "'s stream_class \<Rightarrow> (log_event list \<times> time_point) list \<Rightarrow> 's retry_run \<Rightarrow> 's retry_run" where
  "rt_run c [] r = r"
| "rt_run c ((arrivals, tpnow) # cycles) r =
     (let r1 = r\<lparr>run_thread := fold rt_enqueue arrivals (run_thread r)\<rparr>;
          r2 = retry_cycle c tpnow r1
      in if \<not> rt_active (run_thread r2)
         then r2\<lparr>run_thread := (run_thread r2)\<lparr>rt_running := False\<rparr>,
                 run_cout := run_cout r2 @ ''stopping retry thread for '' @ run_name c r2 @ [newline]\<rparr>
         else rt_run c cycles r2)"

subsection \<open>One cycle\<close>

lemma expire_loop_filter:
  "expire_loop tpnow q n = (filter (\<lambda>i. \<not> expired tpnow i) q, n + length (filter (expired tpnow) q))"
  by (induction q arbitrary: n) simp_all

lemma rt_enqueue_fold: "fold rt_enqueue es t = t\<lparr>rt_queue := rt_queue t @ es\<rparr>"
  by (induction es arbitrary: t) (simp_all add: rt_enqueue_def)

lemma write_loop_split: "write_loop w s q = (d, s', q') \<Longrightarrow> q = d @ q'"
  by (induction w s q arbitrary: d s' q' rule: write_loop.induct)
    (auto simp: Let_def split: if_splits prod.splits)

lemma write_loop_all: "(\<And>s e. fst (w s e)) \<Longrightarrow> snd (snd (write_loop w s q)) = []"
proof (induction q arbitrary: s)
  case (Cons e q)
  then show ?case by (cases "w s e") (use Cons in \<open>auto simp: split: prod.splits; metis fst_conv snd_conv\<close>)
qed simp

lemma write_loop_stuck:
  "w s e = (False, s) \<Longrightarrow> write_loop w s (e # q) = ([], s, e # q)"
  by simp

context sink
begin

text \<open>
  What a cycle's writes put out: the lines of the events taken off the queue, then at most
  the beginning of the first one that stays.
\<close>

lemma write_loop_output:
  assumes "write_loop (os_write do_write) s q = (d, s', q')"
  shows "\<exists>p. out (os_derived s') =
      out (os_derived s) @ concat (map (line (os_derived s)) (filter (\<lambda>le. os_min_level s \<le> le_level le) d)) @ p \<and>
    (if q' = [] then p = [] else prefix p (line (os_derived s) (hd q')))"
  using assms
proof (induction q arbitrary: s d)
  case Nil
  then show ?case by simp
next
  case (Cons e q)
  obtain ok s1 where w: "os_write do_write s e = (ok, s1)" by fastforce
  show ?case
  proof (cases ok)
    case True
    have w1: "os_write do_write s e = (True, s1)" using w True by simp
    note step = os_write_written [OF w1]
    obtain d1 where rest: "write_loop (os_write do_write) s1 q = (d1, s', q')" "d = e # d1"
      using Cons.prems w True by (auto simp: Let_def split: prod.splits)
    obtain p where p: "out (os_derived s') = out (os_derived s1) @
        concat (map (line (os_derived s)) (filter (\<lambda>le. os_min_level s \<le> le_level le) d1)) @ p"
      "if q' = [] then p = [] else prefix p (line (os_derived s) (hd q'))"
      using Cons.IH [OF rest(1)] unfolding step(2,3) by blast
    show ?thesis
    proof (intro exI [of _ p] conjI)
      show "if q' = [] then p = [] else prefix p (line (os_derived s) (hd q'))" by (rule p(2))
      show "out (os_derived s') = out (os_derived s) @
          concat (map (line (os_derived s)) (filter (\<lambda>le. os_min_level s \<le> le_level le) d)) @ p"
        using p(1) step rest(2) by (simp add: not_less)
    qed
  next
    case False
    have w1: "os_write do_write s e = (False, s1)" using w False by simp
    have "s' = s1" "d = []" "q' = e # q" using Cons.prems w1 by auto
    then show ?thesis using os_write_refused(1) [OF w1] by auto
  qed
qed

end

lemma retry_cycle_split:
  obtains d rest s' where "write_loop (os_write (vt_do_write c)) (run_stream r) (rt_queue (run_thread r)) = (d, s', rest)"
    and "rt_queue (run_thread r) = d @ rest" "run_done (retry_cycle c tpnow r) = run_done r @ d"
    and "run_stream (retry_cycle c tpnow r) = s'"
    and "run_thread (retry_cycle c tpnow r) =
      (run_thread r)\<lparr>rt_queue := filter (\<lambda>i. \<not> expired tpnow i) rest\<rparr>"
proof -
  obtain d s' rest where w:
    "write_loop (os_write (vt_do_write c)) (run_stream r) (rt_queue (run_thread r)) = (d, s', rest)"
    by (metis prod.exhaust)
  show ?thesis
    by (rule that [OF w write_loop_split [OF w]])
      (simp_all add: retry_cycle_def w expire_loop_filter Let_def)
qed

text \<open>
  One cycle of a console's retry thread: the events taken off the queue are exactly the
  front part whose lines now are on the console, in order, followed by at most the beginning
  of the line of the first event that stays; of the events that stay, the expired ones go.
\<close>

theorem retry_cycle_console:
  "\<exists>d rest p. rt_queue (run_thread r) = d @ rest \<and>
     rt_queue (run_thread (retry_cycle stdout_class tpnow r)) = filter (\<lambda>i. \<not> expired tpnow i) rest \<and>
     ostr_text (so_stream (os_derived (run_stream (retry_cycle stdout_class tpnow r)))) =
       ostr_text (so_stream (os_derived (run_stream r))) @
       concat (map (stdout_line (os_derived (run_stream r)))
         (filter (\<lambda>le. os_min_level (run_stream r) \<le> le_level le) d)) @ p \<and>
     (if rest = [] then p = [] else prefix p (stdout_line (os_derived (run_stream r)) (hd rest)))"
proof -
  obtain d rest s' where "write_loop (os_write stdout_do_write) (run_stream r) (rt_queue (run_thread r)) = (d, s', rest)"
    and "rt_queue (run_thread r) = d @ rest" "run_stream (retry_cycle stdout_class tpnow r) = s'"
    and "rt_queue (run_thread (retry_cycle stdout_class tpnow r)) = filter (\<lambda>i. \<not> expired tpnow i) rest"
    by (rule retry_cycle_split [of stdout_class r tpnow]) (simp add: stdout_class_def)
  moreover note stdout.write_loop_output [OF this(1)]
  ultimately show ?thesis
    by (intro exI [of _ d] exI [of _ rest]) simp
qed

subsection \<open>Expiry\<close>

text \<open>A \<^verbatim>\<open>time_point\<close> counts nanoseconds in 64 bits.\<close>

definition time_ok :: "time_point \<Rightarrow> bool" where
  "time_ok t \<longleftrightarrow> - (2 ^ 63) \<le> t \<and> t < 2 ^ 63"

lemma trunc_div_le:
  fixes x k m :: int
  assumes "0 < k" "0 \<le> m" "x < k * (m + 1)"
  shows "trunc_div x k \<le> m"
proof (cases "0 \<le> x")
  case True
  have "x div k \<le> m"
  proof (rule ccontr)
    assume "\<not> x div k \<le> m"
    then have "k * (m + 1) \<le> k * (x div k)"
      using assms(1) by (intro mult_left_mono) auto
    also have "\<dots> \<le> x"
      using assms(1) by (simp add: mult.commute pos_mod_sign flip: minus_mod_eq_mult_div)
    finally show False using assms(3) by simp
  qed
  then show ?thesis
    using True assms by (cases "x = 0") (simp_all add: trunc_div_def)
next
  case False
  then have "sgn x * sgn k * (\<bar>x\<bar> div \<bar>k\<bar>) \<le> 0"
    using assms(1) by (simp add: pos_imp_zdiv_nonneg_iff)
  then show ?thesis using assms(2) by (simp add: trunc_div_def)
qed

lemma trunc_div_greater:
  fixes x k m :: int
  assumes "0 < k" "0 \<le> m" "k * (m + 1) \<le> x"
  shows "m < trunc_div x k"
proof -
  have "0 < k * (m + 1)" using assms by simp
  then have "0 < x" using assms(3) by simp
  moreover have "k * (m + 1) div k \<le> x div k"
    using assms by (intro zdiv_mono1) auto
  ultimately show ?thesis
    using assms(1) by (simp add: trunc_div_def)
qed

lemma expiry_time_values:
  "map_find l expiry_time = Some
     (case l of Finest \<Rightarrow> 900 | Finer \<Rightarrow> 900 | Fine \<Rightarrow> 1800 | Config \<Rightarrow> 1800 | Info \<Rightarrow> 3600
      | Warning \<Rightarrow> 36000 | Severe \<Rightarrow> time_t_max)"
  by (cases l) (simp_all add: expiry_time_def map_find_def)

lemma severe_never_expires:
  assumes "time_ok tpnow" "time_ok (le_time e)" "le_level e = Severe"
  shows "\<not> expired tpnow e"
proof -
  have "tpnow - le_time e < 1000000000 * (time_t_max + 1)"
    using assms(1,2) by (simp add: time_ok_def time_t_max_def)
  then have "trunc_div (tpnow - le_time e) ns_per_s \<le> time_t_max"
    unfolding ns_per_s_def by (intro trunc_div_le) (simp_all add: time_t_max_def)
  then show ?thesis
    using assms(3) by (simp add: expired_def expiry_time_values)
qed

lemma others_expire:
  assumes "le_level e \<noteq> Severe" "le_time e + 36001 * ns_per_s \<le> tpnow"
  shows "expired tpnow e"
proof -
  obtain m where m: "map_find (le_level e) expiry_time = Some m" "0 \<le> m" "m \<le> 36000"
    using assms(1) by (cases "le_level e") (simp_all add: expiry_time_values)
  have "ns_per_s * (m + 1) \<le> ns_per_s * 36001"
    using m by (intro mult_left_mono) (simp_all add: ns_per_s_def)
  then have "ns_per_s * (m + 1) \<le> tpnow - le_time e" using assms(2) by linarith
  then have "m < trunc_div (tpnow - le_time e) ns_per_s"
    using m by (intro trunc_div_greater) (simp_all add: ns_per_s_def)
  then show ?thesis using m by (simp add: expired_def)
qed

text \<open>
  Nothing but severe events can keep a retry thread alive for ever: a cycle at which
  every queued event is below severe and at least ten hours and a second old leaves the
  queue empty, however the sink behaves, so the thread ends.
\<close>

theorem retry_cycle_expires_all:
  assumes "\<forall>e \<in> set (rt_queue (run_thread r)). le_level e \<noteq> Severe \<and> le_time e + 36001 * ns_per_s \<le> tpnow"
  shows "\<not> rt_active (run_thread (retry_cycle c tpnow r))"
proof -
  obtain d rest where "rt_queue (run_thread r) = d @ rest"
    "rt_queue (run_thread (retry_cycle c tpnow r)) = filter (\<lambda>i. \<not> expired tpnow i) rest"
    by (rule retry_cycle_split [of c r tpnow]) simp
  then show ?thesis
    using assms others_expire by (auto simp: rt_active_def filter_empty_conv)
qed

definition sample_run :: "'s output_stream \<Rightarrow> log_event list \<Rightarrow> 's retry_run" where
  "sample_run s q = \<lparr>run_stream = s, run_thread = \<lparr>rt_stream = 0, rt_queue = q, rt_running = True\<rparr>,
     run_done = [], run_cout = [], run_cerr = []\<rparr>"

theorem retry_cycle_expires_all_witness:
  "\<not> rt_active (run_thread (retry_cycle stdout_class (40000 * ns_per_s)
      (sample_run full_console [sample_event Info ''a'' 0, sample_event Warning ''b'' 1])))"
  by (rule retry_cycle_expires_all)
    (simp add: sample_run_def sample_event_def ns_per_s_def)

subsection \<open>Runs\<close>

text \<open>What is written or still queued: the events a run still answers for.\<close>

definition run_kept :: "'s retry_run \<Rightarrow> log_event list" where
  "run_kept r = run_done r @ rt_queue (run_thread r)"

lemma retry_cycle_kept:
  "subseq (run_kept (retry_cycle c tpnow r)) (run_kept r)"
  by (rule retry_cycle_split [of c r tpnow]) (simp add: run_kept_def subseq_append')

lemma retry_cycle_kept_severe:
  assumes "time_ok tpnow" "\<forall>e \<in> set (rt_queue (run_thread r)). time_ok (le_time e)"
  shows "filter (\<lambda>e. le_level e = Severe) (run_kept (retry_cycle c tpnow r)) =
    filter (\<lambda>e. le_level e = Severe) (run_kept r)"
proof (rule retry_cycle_split [of c r tpnow])
  fix d rest
  assume split: "rt_queue (run_thread r) = d @ rest" "run_done (retry_cycle c tpnow r) = run_done r @ d"
    "run_thread (retry_cycle c tpnow r) = (run_thread r)\<lparr>rt_queue := filter (\<lambda>i. \<not> expired tpnow i) rest\<rparr>"
  have "filter (\<lambda>e. \<not> expired tpnow e \<and> le_level e = Severe) rest = filter (\<lambda>e. le_level e = Severe) rest"
    using assms split(1) severe_never_expires by (intro filter_cong) auto
  then show ?thesis
    by (simp add: run_kept_def split conj_commute)
qed

lemma retry_cycle_fields [simp]:
  "rt_running (run_thread (retry_cycle c tpnow r)) = rt_running (run_thread r)"
  "set (rt_queue (run_thread (retry_cycle c tpnow r))) \<subseteq> set (rt_queue (run_thread r))"
  by (rule retry_cycle_split [of c r tpnow]; auto)+

lemma run_kept_arrivals:
  "run_kept (r\<lparr>run_thread := fold rt_enqueue es (run_thread r)\<rparr>) = run_kept r @ es"
  by (simp add: run_kept_def rt_enqueue_fold)

lemma retry_run_account:
  assumes "rt_running (run_thread r)"
    and "\<forall>e \<in> set (rt_queue (run_thread r)). time_ok (le_time e)"
    and "\<forall>(es, tpnow) \<in> set cycles. time_ok tpnow \<and> (\<forall>e \<in> set es. time_ok (le_time e))"
  shows "\<exists>k. let fed = run_kept r @ concat (map fst (take k cycles)); r' = rt_run c cycles r in
    subseq (run_kept r') fed \<and>
    filter (\<lambda>e. le_level e = Severe) (run_kept r') = filter (\<lambda>e. le_level e = Severe) fed \<and>
    (if rt_running (run_thread r') then k = length cycles else rt_queue (run_thread r') = [])"
  using assms
proof (induction c cycles r rule: rt_run.induct)
  case (1 c r)
  then show ?case by (intro exI [of _ 0]) simp
next
  case (2 c arrivals tpnow cycles r)
  define r1 where "r1 = r\<lparr>run_thread := fold rt_enqueue arrivals (run_thread r)\<rparr>"
  define r2 where "r2 = retry_cycle c tpnow r1"
  have kept1: "run_kept r1 = run_kept r @ arrivals"
    by (simp add: r1_def run_kept_arrivals)
  have queue1: "\<forall>e \<in> set (rt_queue (run_thread r1)). time_ok (le_time e)"
    using "2.prems" by (auto simp: r1_def rt_enqueue_fold)
  have sub: "subseq (run_kept r2) (run_kept r @ arrivals)"
    using retry_cycle_kept [of c tpnow r1] by (simp add: kept1 r2_def)
  have sev: "filter (\<lambda>e. le_level e = Severe) (run_kept r2) =
      filter (\<lambda>e. le_level e = Severe) (run_kept r @ arrivals)"
    using retry_cycle_kept_severe [OF _ queue1, of tpnow c] "2.prems"(3) by (simp add: kept1 r2_def)
  have run2: "rt_running (run_thread r2)"
    using "2.prems"(1) by (simp add: r2_def r1_def rt_enqueue_fold)
  have queue2: "\<forall>e \<in> set (rt_queue (run_thread r2)). time_ok (le_time e)"
    using queue1 retry_cycle_fields(2) [of c tpnow r1] unfolding r2_def by blast
  show ?case
  proof (cases "rt_active (run_thread r2)")
    case False
    then have "rt_queue (run_thread r2) = []" by (simp add: rt_active_def)
    moreover have "rt_run c ((arrivals, tpnow) # cycles) r =
      r2\<lparr>run_thread := (run_thread r2)\<lparr>rt_running := False\<rparr>,
         run_cout := run_cout r2 @ ''stopping retry thread for '' @ run_name c r2 @ [newline]\<rparr>"
      using False by (simp add: r1_def r2_def Let_def)
    ultimately show ?thesis
      using sub sev by (intro exI [of _ 1]) (simp add: run_kept_def)
  next
    case True
    then have step: "rt_run c ((arrivals, tpnow) # cycles) r = rt_run c cycles r2"
      by (simp add: r1_def r2_def Let_def)
    obtain k where k: "let fed = run_kept r2 @ concat (map fst (take k cycles)); r' = rt_run c cycles r2 in
        subseq (run_kept r') fed \<and>
        filter (\<lambda>e. le_level e = Severe) (run_kept r') = filter (\<lambda>e. le_level e = Severe) fed \<and>
        (if rt_running (run_thread r') then k = length cycles else rt_queue (run_thread r') = [])"
      using "2.IH" [OF r1_def r2_def _ run2 queue2] True "2.prems"(3) by auto
    have "subseq (run_kept r2 @ x) (run_kept r @ arrivals @ x)" for x
      using sub list_emb_append_mono [of "(=)" "run_kept r2" "run_kept r @ arrivals" x x] by simp
    then show ?thesis
      using k sev unfolding step Let_def
      by (intro exI [of _ "Suc k"]) (auto elim: subseq_order.trans split: if_splits)
  qed
qed

text \<open>
  C18. Over any run, whatever the sink does and however the events arrive: what is written or
  still queued is an in-order part of what the thread was fed (nothing is duplicated or
  reordered), only events below severe can be missing from it, and if the thread has ended its
  queue is empty; so when it ends every severe event it was fed has been written, in order.
\<close>

theorem retry_run_accounts:
  assumes "rt_running (run_thread r)"
    and "\<forall>e \<in> set (rt_queue (run_thread r)). time_ok (le_time e)"
    and "\<forall>(es, tpnow) \<in> set cycles. time_ok tpnow \<and> (\<forall>e \<in> set es. time_ok (le_time e))"
  shows "\<exists>k. let fed = run_kept r @ concat (map fst (take k cycles)); r' = rt_run c cycles r in
    subseq (run_kept r') fed \<and>
    filter (\<lambda>e. le_level e = Severe) (run_kept r') = filter (\<lambda>e. le_level e = Severe) fed \<and>
    (if rt_running (run_thread r') then k = length cycles else rt_queue (run_thread r') = [])"
  using assms by (rule retry_run_account)

theorem retry_run_accounts_witness:
  "\<exists>k. let r = sample_run full_console [sample_event Severe ''a'' 0];
         cycles = [([sample_event Info ''b'' 1], 5 * ns_per_s), ([], 4000 * ns_per_s)];
         fed = run_kept r @ concat (map fst (take k cycles)); r' = rt_run stdout_class cycles r in
    subseq (run_kept r') fed \<and>
    filter (\<lambda>e. le_level e = Severe) (run_kept r') = filter (\<lambda>e. le_level e = Severe) fed \<and>
    (if rt_running (run_thread r') then k = length cycles else rt_queue (run_thread r') = [])"
  unfolding Let_def
  by (rule retry_run_accounts [unfolded Let_def])
    (simp_all add: sample_run_def sample_event_def time_ok_def ns_per_s_def)

lemma write_loop_dead_console:
  assumes "\<not> ostr_good (so_stream (os_derived s))" "e \<in> set q" "os_min_level s \<le> le_level e"
  shows "\<exists>d rest. write_loop (os_write stdout_do_write) s q = (d, s, rest) \<and> e \<in> set rest"
  using assms(2)
proof (induction q)
  case (Cons x q)
  show ?case
  proof (cases "le_level x < os_min_level s")
    case True
    then have "x \<noteq> e" using assms(3) by auto
    then show ?thesis using Cons True by (auto simp: os_write_def Let_def split: prod.splits)
  next
    case False
    then have "os_write stdout_do_write s x = (False, s)"
      using assms(1) by (simp add: os_write_def stdout_do_write_def Let_def ostr_put_bad)
    then show ?thesis using Cons.prems by auto
  qed
qed simp

lemma dead_console_stays:
  assumes "rt_running (run_thread r)" "\<not> ostr_good (so_stream (os_derived (run_stream r)))"
    and "e \<in> set (rt_queue (run_thread r))" "le_level e = Severe" "time_ok (le_time e)"
    and "\<forall>(es, tpnow) \<in> set cycles. time_ok tpnow"
  shows "let r' = rt_run stdout_class cycles r in
    rt_running (run_thread r') \<and> e \<in> set (rt_queue (run_thread r')) \<and> run_stream r' = run_stream r"
  using assms(1-3,6)
proof (induction cycles arbitrary: r)
  case Nil
  then show ?case by simp
next
  case (Cons cyc cycles)
  obtain arrivals tpnow where cyc: "cyc = (arrivals, tpnow)" by fastforce
  define r1 where "r1 = r\<lparr>run_thread := fold rt_enqueue arrivals (run_thread r)\<rparr>"
  define r2 where "r2 = retry_cycle stdout_class tpnow r1"
  have top: "os_min_level (run_stream r) \<le> le_level e"
    using assms(4) by (cases "os_min_level (run_stream r)") (simp_all add: level_order)
  obtain d rest where loop: "write_loop (os_write stdout_do_write) (run_stream r) (rt_queue (run_thread r1)) =
      (d, run_stream r, rest)" "e \<in> set rest"
    using write_loop_dead_console [OF Cons.prems(2) _ top, of "rt_queue (run_thread r1)"] Cons.prems(3)
    by (auto simp: r1_def rt_enqueue_fold)
  then have r2: "run_stream r2 = run_stream r" "e \<in> set (rt_queue (run_thread r2))"
      "rt_running (run_thread r2)"
    using severe_never_expires [OF _ assms(5,4), of tpnow] Cons.prems(1,4)
    by (auto simp: r2_def retry_cycle_def stdout_class_def expire_loop_filter Let_def cyc r1_def
        rt_enqueue_fold)
  have "rt_active (run_thread r2)" using r2(2) by (auto simp: rt_active_def)
  then have "rt_run stdout_class (cyc # cycles) r = rt_run stdout_class cycles r2"
    by (simp add: cyc r1_def r2_def Let_def)
  then show ?case
    using Cons.IH [of r2] r2 Cons.prems by simp
qed

text \<open>
  A console that has failed keeps its retry thread alive for ever once a severe event is
  queued: however often the thread tries, whatever arrives and whenever it is (within the
  range of the clock), it is still running afterwards and the event is still queued, the
  console unchanged.
\<close>

theorem retry_dead_console_never_ends:
  assumes "rt_running (run_thread r)" "\<not> ostr_good (so_stream (os_derived (run_stream r)))"
    and "e \<in> set (rt_queue (run_thread r))" "le_level e = Severe" "time_ok (le_time e)"
    and "\<forall>(es, tpnow) \<in> set cycles. time_ok tpnow"
  shows "let r' = rt_run stdout_class cycles r in
    rt_running (run_thread r') \<and> e \<in> set (rt_queue (run_thread r')) \<and> run_stream r' = run_stream r"
  using assms by (rule dead_console_stays)

definition dead_console :: "stdout_stream output_stream" where
  "dead_console = snd (os_write stdout_do_write full_console (sample_event Info ''a'' 0))"

theorem retry_dead_console_never_ends_witness:
  "let r = sample_run dead_console [sample_event Severe ''a'' 0];
       r' = rt_run stdout_class [([sample_event Info ''b'' 1], 5 * ns_per_s), ([], 40000 * ns_per_s)] r in
    rt_running (run_thread r') \<and> sample_event Severe ''a'' 0 \<in> set (rt_queue (run_thread r')) \<and>
    run_stream r' = run_stream r"
  unfolding Let_def
  by (rule retry_dead_console_never_ends [unfolded Let_def])
    (simp_all add: sample_run_def sample_event_def time_ok_def ns_per_s_def dead_console_def
      full_console_def os_write_def stdout_do_write_def ostr_put_def stdout_line_def level_order)

end
