(* ===== verification/Log_Thread.thy ===== *)
theory Log_Thread
  imports Retry_Thread
begin

section \<open>The log thread (log_thread.h, log_thread.cpp)\<close>

text \<open>
  The event queue the application fills, the fan-out of one event to all sinks, and the main
  loop with its shutdown. Sinks are objects on a heap: the maps of the code hold their
  addresses, so a sink that has been deleted is an address without an object; the last field is
  a history of the sinks deleted, as their destructors left them. \<open>fmt\<close> is
  \<^verbatim>\<open>format_time\<close> with its time zone.
\<close>

record 's log_thread =
  lt_streams :: "(string, nat) std_map"
  lt_events :: "log_event list"
  lt_do_terminate :: bool
  lt_max_event_queue_size :: nat
  lt_retry_map :: "(nat, retry_thread option) std_map"
  lt_heap :: "nat \<Rightarrow> 's output_stream option"
  lt_cout :: string
  lt_cerr :: string
  lt_deleted :: "(nat \<times> 's) list"

text \<open>The constructor, with the address and the object of \<^verbatim>\<open>new output_stream_stdout\<close>.\<close>

definition new_log_thread :: "nat \<Rightarrow> 's output_stream \<Rightarrow> 's log_thread" where
  "new_log_thread p s =
     \<lparr>lt_streams = map_emplace ''stdout'' p [], lt_events = [], lt_do_terminate = False,
      lt_max_event_queue_size = 0, lt_retry_map = [], lt_heap = [p \<mapsto> s], lt_cout = [], lt_cerr = [],
      lt_deleted = []\<rparr>"

text \<open>
  \<^verbatim>\<open>delete\<close> of a sink runs the destructor of its class; with an address without an object it is
  undefined.
\<close>

definition delete_stream :: "'s stream_class \<Rightarrow> nat \<Rightarrow> 's log_thread \<Rightarrow> 's log_thread throws" where
  "delete_stream c p t =
     (case lt_heap t p of
        None \<Rightarrow> Inl Use_after_free
      | Some s \<Rightarrow>
          bind_exn (vt_destroy c (os_derived s)) (\<lambda>d.
            Inr (t\<lparr>lt_heap := (lt_heap t)(p := None), lt_deleted := lt_deleted t @ [(p, d)]\<rparr>)))"

text \<open>The destructor.\<close>

fun delete_streams :: "'s stream_class \<Rightarrow> (string \<times> nat) list \<Rightarrow> 's log_thread \<Rightarrow> 's log_thread throws" where
  "delete_streams c [] t = Inr t"
| "delete_streams c ((name, p) # xs) t = bind_exn (delete_stream c p t) (delete_streams c xs)"

definition destroy_log_thread :: "'s stream_class \<Rightarrow> 's log_thread \<Rightarrow> 's log_thread throws" where
  "destroy_log_thread c t = delete_streams c (lt_streams t) t"

definition lt_enqueue :: "log_event \<Rightarrow> 's log_thread \<Rightarrow> 's log_thread" where
  "lt_enqueue e t =
     (let t1 = t\<lparr>lt_events := lt_events t @ [e]\<rparr>
      in t1\<lparr>lt_max_event_queue_size := max (lt_max_event_queue_size t1) (length (lt_events t1))\<rparr>)"

text \<open>\<^verbatim>\<open>terminate\<close> up to its \<^verbatim>\<open>join\<close>, which waits for \<open>do_run\<close> to return.\<close>

definition lt_terminate :: "'s log_thread \<Rightarrow> 's log_thread" where
  "lt_terminate t = t\<lparr>lt_do_terminate := True\<rparr>"

subsection \<open>Delivering one event\<close>

text \<open>
  The direct write, and the retry thread it starts when the sink refuses. \<open>spawn\<close> tells for
  each event and sink whether the operating system can start a thread: \<open>None\<close> if it can,
  otherwise the code and text of the \<^verbatim>\<open>system_error\<close>.
\<close>

definition write_direct ::
  "'s stream_class \<Rightarrow> (log_event \<Rightarrow> nat \<Rightarrow> (string \<times> string) option) \<Rightarrow> log_event \<Rightarrow> nat \<Rightarrow>
     's log_thread \<Rightarrow> 's log_thread throws" where
  "write_direct c spawn e p t =
     (case lt_heap t p of
        None \<Rightarrow> Inl Use_after_free
      | Some s \<Rightarrow>
          let (ok, s1) = os_write (vt_do_write c) s e;
              t1 = t\<lparr>lt_heap := (lt_heap t)(p \<mapsto> s1)\<rparr>
          in if ok then Inr t1
             else case spawn e p of
                 Some (code, what) \<Rightarrow>
                   Inr (t1\<lparr>lt_cerr := lt_cerr t1 @
                     ''Initializing retry_thread: Caught system_error with code '' @ code @
                     '', meaning '' @ what @ [newline]\<rparr>)
               | None \<Rightarrow>
                   Inr (t1\<lparr>lt_cout := lt_cout t1 @ retry_banner c s1,
                     lt_retry_map := map_emplace p (Some (rt_enqueue e (new_retry_thread p)))
                       (lt_retry_map t1)\<rparr>))"

definition log_stream ::
  "'s stream_class \<Rightarrow> (log_event \<Rightarrow> nat \<Rightarrow> (string \<times> string) option) \<Rightarrow> log_event \<Rightarrow> nat \<Rightarrow>
     's log_thread \<Rightarrow> 's log_thread throws" where
  "log_stream c spawn e p t =
     (case map_find p (lt_retry_map t) of
        Some (Some r) \<Rightarrow>
          if \<not> rt_active r
          then write_direct c spawn e p (t\<lparr>lt_retry_map := map_erase p (lt_retry_map t)\<rparr>)
          else Inr (t\<lparr>lt_retry_map := map_assign p (Some (rt_enqueue e r)) (lt_retry_map t)\<rparr>)
      | Some None \<Rightarrow>
          write_direct c spawn e p (t\<lparr>lt_retry_map := map_erase p (lt_retry_map t)\<rparr>)
      | None \<Rightarrow> write_direct c spawn e p t)"

fun log_streams ::
  "'s stream_class \<Rightarrow> (log_event \<Rightarrow> nat \<Rightarrow> (string \<times> string) option) \<Rightarrow> log_event \<Rightarrow>
     (string \<times> nat) list \<Rightarrow> 's log_thread \<Rightarrow> 's log_thread throws" where
  "log_streams c spawn e [] t = Inr t"
| "log_streams c spawn e ((name, p) # xs) t =
     bind_exn (log_stream c spawn e p t) (log_streams c spawn e xs)"

definition lt_log ::
  "(time_point \<Rightarrow> string option) \<Rightarrow> 's stream_class \<Rightarrow>
     (log_event \<Rightarrow> nat \<Rightarrow> (string \<times> string) option) \<Rightarrow> log_event \<Rightarrow> 's log_thread \<Rightarrow> 's log_thread throws" where
  "lt_log fmt c spawn e t =
     (case fmt (le_time e) of
        None \<Rightarrow> Inl Indeterminate_value
      | Some s \<Rightarrow> log_streams c spawn (e\<lparr>le_time_string := s\<rparr>) (lt_streams t) t)"

fun log_all ::
  "(time_point \<Rightarrow> string option) \<Rightarrow> 's stream_class \<Rightarrow>
     (log_event \<Rightarrow> nat \<Rightarrow> (string \<times> string) option) \<Rightarrow> log_event list \<Rightarrow> 's log_thread \<Rightarrow> 's log_thread throws" where
  "log_all fmt c spawn [] t = Inr t"
| "log_all fmt c spawn (e # es) t = bind_exn (lt_log fmt c spawn e t) (log_all fmt c spawn es)"

subsection \<open>The main loop\<close>

text \<open>
  What the other threads do between two steps of the log thread: the application enqueues
  events or asks for termination, a retry thread runs a cycle (on its sink, which must still
  exist).
\<close>

datatype env_action = Env_enqueue log_event | Env_terminate | Env_retry nat time_point

definition retry_thread_cycle ::
  "'s stream_class \<Rightarrow> nat \<Rightarrow> time_point \<Rightarrow> 's log_thread \<Rightarrow> 's log_thread throws" where
  "retry_thread_cycle c p tpnow t =
     (case map_find p (lt_retry_map t) of
        Some (Some r) \<Rightarrow>
          if \<not> rt_running r then Inr t
          else (case lt_heap t p of
              None \<Rightarrow> Inl Use_after_free
            | Some s \<Rightarrow>
                let run1 = rt_run c [([], tpnow)] \<lparr>run_stream = s, run_thread = r, run_done = [],
                             run_cout = lt_cout t, run_cerr = lt_cerr t\<rparr>
                in Inr (t\<lparr>lt_heap := (lt_heap t)(p \<mapsto> run_stream run1),
                     lt_retry_map := map_assign p (Some (run_thread run1)) (lt_retry_map t),
                     lt_cout := run_cout run1, lt_cerr := run_cerr run1\<rparr>))
      | _ \<Rightarrow> Inr t)"

fun env_step :: "'s stream_class \<Rightarrow> env_action \<Rightarrow> 's log_thread \<Rightarrow> 's log_thread throws" where
  "env_step c (Env_enqueue e) t = Inr (lt_enqueue e t)"
| "env_step c Env_terminate t = Inr (lt_terminate t)"
| "env_step c (Env_retry p tpnow) t = retry_thread_cycle c p tpnow t"

fun env_steps :: "'s stream_class \<Rightarrow> env_action list \<Rightarrow> 's log_thread \<Rightarrow> 's log_thread throws" where
  "env_steps c [] t = Inr t"
| "env_steps c (x # xs) t = bind_exn (env_step c x t) (env_steps c xs)"

text \<open>
  The scan over the retry map at shutdown: an entry whose thread is inactive is joined,
  deleted and set to null; a null entry is followed without a check.
\<close>

fun retry_scan :: "(nat, retry_thread option) std_map \<Rightarrow> ((nat, retry_thread option) std_map \<times> bool) throws" where
  "retry_scan [] = Inr ([], False)"
| "retry_scan ((p, None) # m) = Inl Null_deref"
| "retry_scan ((p, Some r) # m) =
     bind_exn (retry_scan m) (\<lambda>(m', still).
       if rt_active r then Inr ((p, Some r) # m', True) else Inr ((p, None) # m', still))"

datatype loop_outcome = Continue | Wait | Return

text \<open>
  One round of \<^verbatim>\<open>do_run\<close>. \<open>env1\<close> is what happens after it has delivered and before
  it takes the lock again, \<open>env2\<close> what happens after the scan of the retry threads.
\<close>

definition do_run_round ::
  "(time_point \<Rightarrow> string option) \<Rightarrow> 's stream_class \<Rightarrow>
     (log_event \<Rightarrow> nat \<Rightarrow> (string \<times> string) option) \<Rightarrow> env_action list \<Rightarrow> env_action list \<Rightarrow>
     's log_thread \<Rightarrow> (loop_outcome \<times> 's log_thread) throws" where
  "do_run_round fmt c spawn env1 env2 t =
     bind_exn (log_all fmt c spawn (lt_events t) (t\<lparr>lt_events := []\<rparr>)) (\<lambda>t1.
     bind_exn (env_steps c env1 t1) (\<lambda>t2.
       if lt_do_terminate t2 \<and> lt_events t2 = []
       then
         bind_exn (retry_scan (lt_retry_map t2)) (\<lambda>(m, still_active).
         bind_exn (env_steps c env2 (t2\<lparr>lt_retry_map := m\<rparr>)) (\<lambda>t3.
           if still_active then Inr (Continue, t3)
           else if lt_events t3 = [] then Inr (Return, t3) else Inr (Continue, t3)))
       else if lt_events t2 = [] then Inr (Wait, t2)
       else Inr (Continue, t2)))"

type_synonym round_env =
  "(log_event \<Rightarrow> nat \<Rightarrow> (string \<times> string) option) \<times> env_action list \<times> env_action list"

text \<open>
  The loop over the rounds given; true when it has returned. A wait ends when the thread is
  notified, or spuriously, and the next round follows.
\<close>

fun do_run ::
  "(time_point \<Rightarrow> string option) \<Rightarrow> 's stream_class \<Rightarrow> round_env list \<Rightarrow> 's log_thread \<Rightarrow>
     (bool \<times> 's log_thread) throws" where
  "do_run fmt c [] t = Inr (False, t)"
| "do_run fmt c ((spawn, env1, env2) # rounds) t =
     bind_exn (do_run_round fmt c spawn env1 env2 t) (\<lambda>(outcome, t1).
       if outcome = Return then Inr (True, t1) else do_run fmt c rounds t1)"

subsection \<open>What one sink sees\<close>

text \<open>
  The specification of delivery for a single sink: its object and the events waiting for it.
  An event goes to the queue while the queue is not empty, otherwise to the sink; a refused
  event starts a queue, unless no thread can be started for it.
\<close>

definition sink_log ::
  "('t \<Rightarrow> log_event \<Rightarrow> bool \<times> 't) \<Rightarrow> bool \<Rightarrow> log_event \<Rightarrow> 't \<times> log_event list \<Rightarrow> 't \<times> log_event list" where
  "sink_log w can_spawn e = (\<lambda>(s, q).
     if q \<noteq> [] then (s, q @ [e])
     else let (ok, s1) = w s e in (s1, if ok \<or> \<not> can_spawn then [] else [e]))"

definition retry_queue :: "'s log_thread \<Rightarrow> nat \<Rightarrow> log_event list" where
  "retry_queue t p = (case map_find p (lt_retry_map t) of Some (Some r) \<Rightarrow> rt_queue r | _ \<Rightarrow> [])"

definition sink_view :: "'s log_thread \<Rightarrow> nat \<Rightarrow> ('s output_stream \<times> log_event list) option" where
  "sink_view t p = map_option (\<lambda>s. (s, retry_queue t p)) (lt_heap t p)"

lemma write_direct_view:
  assumes "map_wf (lt_retry_map t)" "lt_heap t p = Some s" "map_find p (lt_retry_map t) = None"
  shows "\<exists>t'. write_direct c spawn e p t = Inr t' \<and> map_wf (lt_retry_map t') \<and>
    sink_view t' p = Some (sink_log (os_write (vt_do_write c)) (spawn e p = None) e (s, [])) \<and>
    (\<forall>q. q \<noteq> p \<longrightarrow> sink_view t' q = sink_view t q) \<and> lt_streams t' = lt_streams t"
  using assms
  by (auto simp: write_direct_def sink_view_def sink_log_def retry_queue_def rt_enqueue_def
      new_retry_thread_def cmap.find_emplace Let_def split: prod.splits option.splits
      intro: map_wf_intros)

lemma retry_queue_erase:
  "retry_queue (t\<lparr>lt_retry_map := map_erase p (lt_retry_map t)\<rparr>) q = (if q = p then [] else retry_queue t q)"
  by (simp add: retry_queue_def cmap.find_erase)

lemma log_stream_view:
  assumes "map_wf (lt_retry_map t)" "lt_heap t p = Some s"
  shows "\<exists>t'. log_stream c spawn e p t = Inr t' \<and> map_wf (lt_retry_map t') \<and>
    sink_view t' p = Some (sink_log (os_write (vt_do_write c)) (spawn e p = None) e (s, retry_queue t p)) \<and>
    (\<forall>q. q \<noteq> p \<longrightarrow> sink_view t' q = sink_view t q) \<and> lt_streams t' = lt_streams t"
proof -
  let ?t = "t\<lparr>lt_retry_map := map_erase p (lt_retry_map t)\<rparr>"
  have direct: "\<exists>t'. write_direct c spawn e p ?t = Inr t' \<and> map_wf (lt_retry_map t') \<and>
    sink_view t' p = Some (sink_log (os_write (vt_do_write c)) (spawn e p = None) e (s, [])) \<and>
    (\<forall>q. q \<noteq> p \<longrightarrow> sink_view t' q = sink_view t q) \<and> lt_streams t' = lt_streams t"
    using write_direct_view [of ?t p s c spawn e] assms
    by (simp add: map_wf_intros cmap.find_erase sink_view_def retry_queue_erase)
  consider "map_find p (lt_retry_map t) = None" | "map_find p (lt_retry_map t) = Some None"
    | r where "map_find p (lt_retry_map t) = Some (Some r)" "rt_queue r = []"
    | r where "map_find p (lt_retry_map t) = Some (Some r)" "rt_queue r \<noteq> []"
    by (metis option.exhaust)
  then show ?thesis
  proof cases
    case 1
    then show ?thesis
      using write_direct_view [OF assms 1, of c spawn e] by (simp add: log_stream_def retry_queue_def)
  next
    case 2
    then show ?thesis using direct by (simp add: log_stream_def retry_queue_def)
  next
    case 3
    then show ?thesis using direct by (simp add: log_stream_def retry_queue_def rt_active_def)
  next
    case (4 r)
    then show ?thesis
      using assms
      by (auto simp: log_stream_def retry_queue_def rt_active_def sink_view_def sink_log_def
          rt_enqueue_def cmap.find_assign intro: map_wf_intros)
  qed
qed

lemma log_streams_view:
  assumes "map_wf (lt_retry_map t)" "distinct (map snd xs)" "\<forall>p \<in> set (map snd xs). lt_heap t p \<noteq> None"
  shows "\<exists>t'. log_streams c spawn e xs t = Inr t' \<and> map_wf (lt_retry_map t') \<and>
    lt_streams t' = lt_streams t \<and>
    (\<forall>p. sink_view t' p = (if p \<in> set (map snd xs)
       then map_option (sink_log (os_write (vt_do_write c)) (spawn e p = None) e) (sink_view t p)
       else sink_view t p))"
  using assms
proof (induction xs arbitrary: t)
  case Nil
  then show ?case by simp
next
  case (Cons x xs)
  obtain name p where x: "x = (name, p)" by fastforce
  obtain s where s: "lt_heap t p = Some s" using Cons.prems(3) x by auto
  from log_stream_view [OF Cons.prems(1) s, of c spawn e] obtain t1 where
    t1: "log_stream c spawn e p t = Inr t1" "map_wf (lt_retry_map t1)"
      "sink_view t1 p = Some (sink_log (os_write (vt_do_write c)) (spawn e p = None) e (s, retry_queue t p))"
      "\<forall>q. q \<noteq> p \<longrightarrow> sink_view t1 q = sink_view t q" "lt_streams t1 = lt_streams t"
    by blast
  have alive: "\<forall>q \<in> set (map snd xs). lt_heap t1 q \<noteq> None"
  proof
    fix q
    assume q: "q \<in> set (map snd xs)"
    then have "q \<noteq> p" using Cons.prems(2) x by auto
    then have "sink_view t1 q = sink_view t q" using t1(4) by simp
    moreover have "lt_heap t q \<noteq> None" using Cons.prems(3) q by force
    ultimately show "lt_heap t1 q \<noteq> None" by (auto simp: sink_view_def)
  qed
  from Cons.IH [OF t1(2) _ alive] Cons.prems(2) obtain t' where
    "log_streams c spawn e xs t1 = Inr t'" "map_wf (lt_retry_map t')" "lt_streams t' = lt_streams t1"
    "\<forall>q. sink_view t' q = (if q \<in> set (map snd xs)
       then map_option (sink_log (os_write (vt_do_write c)) (spawn e q = None) e) (sink_view t1 q)
       else sink_view t1 q)"
    by auto
  moreover have "p \<notin> set (map snd xs)" using Cons.prems(2) x by simp
  ultimately show ?case
    using t1 s x by (auto simp: sink_view_def)
qed

text \<open>Everything delivery needs of a state: all registered sinks exist and are different objects.\<close>

definition lt_wf :: "'s log_thread \<Rightarrow> bool" where
  "lt_wf t \<longleftrightarrow> map_wf (lt_retry_map t) \<and> distinct (map snd (lt_streams t)) \<and>
     (\<forall>p \<in> set (map snd (lt_streams t)). lt_heap t p \<noteq> None)"

lemma lt_log_view:
  assumes "lt_wf t" "fmt (le_time e) = Some ts"
  shows "\<exists>t'. lt_log fmt c spawn e t = Inr t' \<and> lt_wf t' \<and> lt_streams t' = lt_streams t \<and>
    (\<forall>p. sink_view t' p = (if p \<in> set (map snd (lt_streams t))
       then map_option (sink_log (os_write (vt_do_write c)) (spawn (e\<lparr>le_time_string := ts\<rparr>) p = None)
              (e\<lparr>le_time_string := ts\<rparr>)) (sink_view t p)
       else sink_view t p))"
proof -
  let ?e = "e\<lparr>le_time_string := ts\<rparr>"
  obtain t' where t': "log_streams c spawn ?e (lt_streams t) t = Inr t'" "map_wf (lt_retry_map t')"
      "lt_streams t' = lt_streams t"
      "\<forall>p. sink_view t' p = (if p \<in> set (map snd (lt_streams t))
       then map_option (sink_log (os_write (vt_do_write c)) (spawn ?e p = None) ?e) (sink_view t p)
       else sink_view t p)"
    using log_streams_view [of t "lt_streams t" c spawn ?e] assms(1) by (auto simp: lt_wf_def)
  have "lt_heap t' p \<noteq> None" if "p \<in> set (map snd (lt_streams t))" for p
  proof -
    have "sink_view t p \<noteq> None" using that assms(1) by (auto simp: lt_wf_def sink_view_def)
    then have "sink_view t' p \<noteq> None" using t'(4) that by simp
    then show ?thesis by (simp add: sink_view_def)
  qed
  then have "lt_wf t'" using t'(2,3) assms(1) by (simp add: lt_wf_def)
  then show ?thesis using t' assms(2) by (simp add: lt_log_def)
qed

text \<open>
  C4. Delivering one event is, for every registered sink, one step of the specification of a
  single sink: the event goes behind the sink's waiting events if there are any, otherwise to
  the sink itself, and a refused event waits (or is dropped, when no thread can be started for
  it). No sink depends on what another one does, and all other objects stay as they are.
\<close>

theorem lt_log_refines_sink_log:
  assumes "lt_wf t" "fmt (le_time e) = Some ts"
  shows "\<exists>t'. lt_log fmt c spawn e t = Inr t' \<and> lt_wf t' \<and> lt_streams t' = lt_streams t \<and>
    (\<forall>p. sink_view t' p = (if p \<in> set (map snd (lt_streams t))
       then map_option (sink_log (os_write (vt_do_write c)) (spawn (e\<lparr>le_time_string := ts\<rparr>) p = None)
              (e\<lparr>le_time_string := ts\<rparr>)) (sink_view t p)
       else sink_view t p))"
  using assms by (rule lt_log_view)

definition fmt_now :: "time_point \<Rightarrow> string option" where "fmt_now _ = Some ''now''"

definition no_spawn_error :: "log_event \<Rightarrow> nat \<Rightarrow> (string \<times> string) option" where
  "no_spawn_error _ _ = None"

definition open_console :: "stdout_stream output_stream" where
  "open_console = \<lparr>os_min_level = Finest, os_derived =
     \<lparr>so_colors = s_colors, so_name = ''stdout'', so_stream =
       \<lparr>ostr_text = [], ostr_good = True, ostr_room = None\<rparr>\<rparr>\<rparr>"

text \<open>Two consoles, the second one full after three characters.\<close>

definition sample_log_thread :: "stdout_stream log_thread" where
  "sample_log_thread = (new_log_thread 1 open_console)
     \<lparr>lt_streams := [(''second'', 2), (''stdout'', 1)], lt_heap := [1 \<mapsto> open_console, 2 \<mapsto> full_console]\<rparr>"

lemma sample_log_thread_wf: "lt_wf sample_log_thread"
  by (simp add: lt_wf_def sample_log_thread_def new_log_thread_def)

theorem lt_log_refines_sink_log_witness:
  "\<exists>t'. lt_log fmt_now stdout_class no_spawn_error (sample_event Info ''a'' 0) sample_log_thread = Inr t' \<and>
     lt_wf t' \<and> sink_view t' 2 =
       map_option (sink_log (os_write (vt_do_write stdout_class)) True (sample_event Info ''a'' 0))
         (sink_view sample_log_thread 2)"
  using lt_log_refines_sink_log [OF sample_log_thread_wf,
      of fmt_now "sample_event Info ''a'' 0" "''now''" stdout_class no_spawn_error]
  by (force simp: fmt_now_def no_spawn_error_def sample_event_def sample_log_thread_def)

subsection \<open>A batch of events\<close>

text \<open>Writing events one after the other, all of them accepted.\<close>

fun accept_all :: "('t \<Rightarrow> log_event \<Rightarrow> bool \<times> 't) \<Rightarrow> 't \<Rightarrow> log_event list \<Rightarrow> 't option" where
  "accept_all w s [] = Some s"
| "accept_all w s (e # es) = (let (ok, s1) = w s e in if ok then accept_all w s1 es else None)"

lemma fold_sink_log_waiting:
  "q \<noteq> [] \<Longrightarrow> fold (sink_log w True) es (s, q) = (s, q @ es)"
  by (induction es arbitrary: q) (simp_all add: sink_log_def)

lemma fold_sink_log:
  "\<exists>d s1 s' q'. fold (sink_log w True) es (s, []) = (s', q') \<and> es = d @ q' \<and> accept_all w s d = Some s1 \<and>
     (if q' = [] then s' = s1 else w s1 (hd q') = (False, s'))"
proof (induction es arbitrary: s)
  case Nil
  then show ?case by simp
next
  case (Cons e es)
  obtain ok s1 where w: "w s e = (ok, s1)" by fastforce
  show ?case
  proof (cases ok)
    case True
    obtain d s2 s' q' where "fold (sink_log w True) es (s1, []) = (s', q')" "es = d @ q'"
      "accept_all w s1 d = Some s2" "if q' = [] then s' = s2 else w s2 (hd q') = (False, s')"
      using Cons.IH by blast
    then have "fold (sink_log w True) (e # es) (s, []) = (s', q') \<and> e # es = (e # d) @ q' \<and>
        accept_all w s (e # d) = Some s2 \<and> (if q' = [] then s' = s2 else w s2 (hd q') = (False, s'))"
      using w True by (simp add: sink_log_def [of w True e])
    then show ?thesis by blast
  next
    case False
    then have "sink_log w True e (s, []) = (s1, [e])" using w by (simp add: sink_log_def)
    then have "fold (sink_log w True) (e # es) (s, []) = (s1, e # es)"
      using fold_sink_log_waiting [of "[e]" w es s1] by simp
    moreover have "e # es = [] @ e # es \<and> accept_all w s [] = Some s \<and> w s (hd (e # es)) = (False, s1)"
      using w False by simp
    ultimately show ?thesis by (metis list.distinct(1))
  qed
qed

definition stamp :: "(time_point \<Rightarrow> string option) \<Rightarrow> log_event \<Rightarrow> log_event" where
  "stamp fmt e = (case fmt (le_time e) of None \<Rightarrow> e | Some ts \<Rightarrow> e\<lparr>le_time_string := ts\<rparr>)"

lemma log_all_view:
  assumes "lt_wf t" "\<forall>e \<in> set es. fmt (le_time e) \<noteq> None" "\<forall>e p. spawn e p = None"
  shows "\<exists>t'. log_all fmt c spawn es t = Inr t' \<and> lt_wf t' \<and> lt_streams t' = lt_streams t \<and>
    (\<forall>p \<in> set (map snd (lt_streams t)). sink_view t' p =
       map_option (fold (sink_log (os_write (vt_do_write c)) True) (map (stamp fmt) es)) (sink_view t p))"
  using assms(1,2)
proof (induction es arbitrary: t)
  case Nil
  then show ?case by (simp add: id_def option.map_ident)
next
  case (Cons e es)
  obtain ts where ts: "fmt (le_time e) = Some ts" using Cons.prems(2) by auto
  obtain t1 where t1: "lt_log fmt c spawn e t = Inr t1" "lt_wf t1" "lt_streams t1 = lt_streams t"
    "\<forall>p \<in> set (map snd (lt_streams t)). sink_view t1 p =
       map_option (sink_log (os_write (vt_do_write c)) True (stamp fmt e)) (sink_view t p)"
    using lt_log_view [where t = t and fmt = fmt and e = e and ts = ts and spawn = spawn and c = c,
        OF Cons.prems(1) ts] assms(3) ts by (auto simp: stamp_def)
  obtain t' where "log_all fmt c spawn es t1 = Inr t'" "lt_wf t'" "lt_streams t' = lt_streams t1"
    "\<forall>p \<in> set (map snd (lt_streams t1)). sink_view t' p =
       map_option (fold (sink_log (os_write (vt_do_write c)) True) (map (stamp fmt) es)) (sink_view t1 p)"
    using Cons.IH [OF t1(2)] Cons.prems(2) by auto
  then show ?case
    using t1 by (auto simp: option.map_comp comp_def)
qed

text \<open>
  A batch of events reaches every sink in order and without gaps, when threads can be
  started: a sink with nothing waiting takes a front part of the batch itself, every write
  accepted, and the rest of the batch waits behind the first refused event; a sink with events
  waiting gets the whole batch behind them and is not touched.
\<close>

theorem log_all_in_order:
  assumes "lt_wf t" "\<forall>e \<in> set es. fmt (le_time e) \<noteq> None" "\<forall>e p. spawn e p = None"
    and "p \<in> set (map snd (lt_streams t))" "sink_view t p = Some (s, q)"
  shows "\<exists>t' s' q'. log_all fmt c spawn es t = Inr t' \<and> sink_view t' p = Some (s', q') \<and>
    (if q \<noteq> [] then s' = s \<and> q' = q @ map (stamp fmt) es
     else \<exists>d s1. map (stamp fmt) es = d @ q' \<and> accept_all (os_write (vt_do_write c)) s d = Some s1 \<and>
       (if q' = [] then s' = s1 else os_write (vt_do_write c) s1 (hd q') = (False, s')))"
proof -
  obtain t' where t': "log_all fmt c spawn es t = Inr t'"
    "sink_view t' p = Some (fold (sink_log (os_write (vt_do_write c)) True) (map (stamp fmt) es) (s, q))"
    using log_all_view [OF assms(1-3), of c] assms(4,5) by auto
  obtain s' q' where f: "fold (sink_log (os_write (vt_do_write c)) True) (map (stamp fmt) es) (s, q) = (s', q')"
    by fastforce
  show ?thesis
  proof (cases "q = []")
    case True
    then show ?thesis
      using t' f fold_sink_log [of "os_write (vt_do_write c)" "map (stamp fmt) es" s] by fastforce
  next
    case False
    then show ?thesis
      using t' f fold_sink_log_waiting [OF False, of "os_write (vt_do_write c)" "map (stamp fmt) es" s] by simp
  qed
qed

theorem log_all_in_order_witness:
  "\<exists>t' s' q'. log_all fmt_now stdout_class no_spawn_error
       [sample_event Info ''a'' 0, sample_event Severe ''b'' 1] sample_log_thread = Inr t' \<and>
     sink_view t' 2 = Some (s', q')"
  using log_all_in_order [OF sample_log_thread_wf, of
      "[sample_event Info ''a'' 0, sample_event Severe ''b'' 1]" fmt_now no_spawn_error 2 full_console "[]" stdout_class]
  by (simp add: fmt_now_def no_spawn_error_def sample_log_thread_def sink_view_def retry_queue_def
      new_log_thread_def) blast

subsection \<open>Shutdown\<close>

lemma retry_scan_null: "(p, None) \<in> set m \<Longrightarrow> retry_scan m = Inl Null_deref"
  by (induction m rule: retry_scan.induct) auto

lemma retry_scan_result:
  "retry_scan m = Inr (m', still) \<Longrightarrow>
     m' = map (\<lambda>(p, r). (p, case r of Some x \<Rightarrow> if rt_active x then r else None | None \<Rightarrow> None)) m \<and>
     still = (\<exists>p x. (p, Some x) \<in> set m \<and> rt_active x) \<and> (\<forall>p. (p, None) \<notin> set m)"
  by (induction m arbitrary: m' still rule: retry_scan.induct) (fastforce split: if_splits)+

lemma retry_scan_total: "\<forall>p. (p, None) \<notin> set m \<Longrightarrow> \<exists>m' still. retry_scan m = Inr (m', still)"
proof (induction m rule: retry_scan.induct)
  case (3 p r m)
  then show ?case by (cases "rt_active r") auto
qed auto

text \<open>A retry thread's cycle changes no entry of the map but its own, and none to or from null.\<close>

lemma retry_thread_cycle_keeps:
  assumes "retry_thread_cycle c p tpnow t = Inr t'"
  shows "map (\<lambda>(q, r). (q, r = None)) (lt_retry_map t') = map (\<lambda>(q, r). (q, r = None)) (lt_retry_map t) \<or>
      \<not> map_wf (lt_retry_map t)"
    and "lt_events t' = lt_events t" "lt_do_terminate t' = lt_do_terminate t" "lt_streams t' = lt_streams t"
    and "map_wf (lt_retry_map t) \<Longrightarrow> map_wf (lt_retry_map t')"
proof -
  have "map (\<lambda>(q, r). (q, r = None)) (map_assign p (Some x) m) = map (\<lambda>(q, r). (q, r = None)) m"
    if "map_wf m" "map_find p m = Some (Some y)" for x y and m :: "(nat, retry_thread option) std_map"
  proof -
    have "b = Some y" if "(p, b) \<in> set m" for b
      using \<open>map_find p m = Some (Some y)\<close> that cmap.find_entries [OF \<open>map_wf m\<close>, of p b] by simp
    then show ?thesis by (auto simp: map_assign_def) blast
  qed
  then show "map (\<lambda>(q, r). (q, r = None)) (lt_retry_map t') = map (\<lambda>(q, r). (q, r = None)) (lt_retry_map t) \<or>
      \<not> map_wf (lt_retry_map t)"
    using assms by (auto simp: retry_thread_cycle_def Let_def split: option.splits if_splits)
qed (use assms in \<open>auto simp: retry_thread_cycle_def Let_def map_wf_intros split: option.splits if_splits\<close>)

lemma null_entries:
  "(p, None) \<in> set m \<longleftrightarrow> (p, True) \<in> set (map (\<lambda>(q, r). (q, r = None)) m)"
  by force

lemma env_retry_cycles_null:
  assumes "env_steps c (map (\<lambda>(p, now). Env_retry p now) cycles) t = Inr t'" "map_wf (lt_retry_map t)"
  shows "map_wf (lt_retry_map t')" "lt_events t' = lt_events t" "lt_do_terminate t' = lt_do_terminate t"
    and "(p, None) \<in> set (lt_retry_map t') \<longleftrightarrow> (p, None) \<in> set (lt_retry_map t)"
  using assms
proof (induction cycles arbitrary: t)
  case (Cons x cycles)
  case 1
  then show ?case using Cons(1) retry_thread_cycle_keeps(5) by (fastforce split: prod.splits)
next
  case (Cons x cycles)
  case 2
  then show ?case using Cons(2) retry_thread_cycle_keeps(2,5) by (fastforce split: prod.splits)
next
  case (Cons x cycles)
  case 3
  then show ?case using Cons(3) retry_thread_cycle_keeps(3,5) by (fastforce split: prod.splits)
next
  case (Cons x cycles)
  case 4
  obtain q now where x: "x = (q, now)" by fastforce
  then obtain t1 where t1: "retry_thread_cycle c q now t = Inr t1"
    "env_steps c (map (\<lambda>(p, now). Env_retry p now) cycles) t1 = Inr t'"
    using 4 by auto
  then show ?case
    using Cons(4) [OF t1(2)] retry_thread_cycle_keeps(1,5) [OF t1(1)] 4(2) null_entries by metis
qed auto

lemma do_run_round_idle:
  assumes "lt_events t = []"
  shows "do_run_round fmt c spawn env1 env2 t =
    bind_exn (env_steps c env1 t) (\<lambda>t2.
       if lt_do_terminate t2 \<and> lt_events t2 = []
       then
         bind_exn (retry_scan (lt_retry_map t2)) (\<lambda>(m, still_active).
         bind_exn (env_steps c env2 (t2\<lparr>lt_retry_map := m\<rparr>)) (\<lambda>t3.
           if still_active then Inr (Continue, t3)
           else if lt_events t3 = [] then Inr (Return, t3) else Inr (Continue, t3)))
       else if lt_events t2 = [] then Inr (Wait, t2)
       else Inr (Continue, t2))"
proof -
  have "t\<lparr>lt_events := []\<rparr> = t" using assms by simp
  then show ?thesis by (simp only: do_run_round_def assms log_all.simps bind_exn_simps)
qed

lemma env_steps_append: "env_steps c (xs @ ys) t = bind_exn (env_steps c xs t) (env_steps c ys)"
  by (induction xs arbitrary: t) (auto simp: bind_exn_def split: sum.splits)

text \<open>
  C20. Shutdown follows a null pointer when two sinks have retry threads and only one of them
  is finished: the first scan deletes that one, sets its entry to null and finds the other one
  still active; the next scan dereferences the null entry, whatever the retry threads do in
  between (unless one of them already fails on a deleted sink), as long as no new event is
  logged.
\<close>

theorem shutdown_follows_null:
  assumes "map_wf (lt_retry_map t)" "\<forall>p. (p, None) \<notin> set (lt_retry_map t)"
    and "lt_events t = []" "lt_do_terminate t"
    and "(p, Some a) \<in> set (lt_retry_map t)" "rt_active a"
    and "(q, Some b) \<in> set (lt_retry_map t)" "\<not> rt_active b"
  shows "\<exists>x. do_run fmt c
      [(sp1, [], map (\<lambda>(p, now). Env_retry p now) cycles1), (sp2, map (\<lambda>(p, now). Env_retry p now) cycles2, [])] t
      = Inl x \<and>
    (x = Null_deref \<or> env_steps c (map (\<lambda>(p, now). Env_retry p now) (cycles1 @ cycles2))
       (t\<lparr>lt_retry_map := fst (projr (retry_scan (lt_retry_map t)))\<rparr>) = Inl x)"
proof -
  obtain m still where scan: "retry_scan (lt_retry_map t) = Inr (m, still)"
    using retry_scan_total assms(2) by blast
  note res = retry_scan_result [OF scan]
  have "still" using res assms(5,6) by blast
  have null: "(q, None) \<in> set m" using res assms(7,8) by force
  have "map fst m = map fst (lt_retry_map t)" using res by auto
  then have wf: "map_wf m" using assms(1) by (simp add: map_wf_def)
  let ?c1 = "map (\<lambda>(p, now). Env_retry p now) cycles1" and ?c2 = "map (\<lambda>(p, now). Env_retry p now) cycles2"
  let ?t = "t\<lparr>lt_retry_map := m\<rparr>"
  have round1: "do_run_round fmt c sp1 [] ?c1 t = bind_exn (env_steps c ?c1 ?t) (\<lambda>t3. Inr (Continue, t3))"
    using assms(3,4) scan \<open>still\<close> by (simp add: do_run_round_idle)
  show ?thesis
  proof (cases "env_steps c ?c1 ?t")
    case (Inl x)
    then show ?thesis using round1 scan by (simp add: env_steps_append)
  next
    case (Inr t1)
    note k1 = env_retry_cycles_null [OF Inr]
    show ?thesis
    proof (cases "env_steps c ?c2 t1")
      case (Inl x)
      then show ?thesis
        using round1 scan \<open>env_steps c ?c1 ?t = Inr t1\<close> k1(2) wf assms(3)
        by (simp add: do_run_round_idle env_steps_append)
    next
      case (Inr t2)
      note k2 = env_retry_cycles_null [OF Inr]
      have "(q, None) \<in> set (lt_retry_map t2)" using k1(1,4) k2(4) wf null by simp
      then have "do_run_round fmt c sp2 ?c2 [] t1 = Inl Null_deref"
        using Inr k1 k2 wf assms(3,4) retry_scan_null by (simp add: do_run_round_idle)
      then show ?thesis using round1 \<open>env_steps c ?c1 ?t = Inr t1\<close> by simp
    qed
  qed
qed

definition sample_shutdown :: "stdout_stream log_thread" where
  "sample_shutdown = sample_log_thread\<lparr>lt_do_terminate := True, lt_retry_map :=
     [(1, Some (new_retry_thread 1)), (2, Some (rt_enqueue (sample_event Severe ''a'' 0) (new_retry_thread 2)))]\<rparr>"

theorem shutdown_follows_null_witness:
  "\<exists>x. do_run fmt_now stdout_class
      [(no_spawn_error, [], map (\<lambda>(p, now). Env_retry p now) [(2, ns_per_s)]),
       (no_spawn_error, map (\<lambda>(p, now). Env_retry p now) [], [])] sample_shutdown = Inl x"
  using shutdown_follows_null [of sample_shutdown 2 "rt_enqueue (sample_event Severe ''a'' 0) (new_retry_thread 2)"
      1 "new_retry_thread 1" fmt_now stdout_class no_spawn_error "[(2, ns_per_s)]" no_spawn_error "[]"]
  by (auto simp: sample_shutdown_def sample_log_thread_def new_log_thread_def map_wf_def rt_active_def
      rt_enqueue_def new_retry_thread_def)

definition all_null :: "'s log_thread \<Rightarrow> bool" where
  "all_null t \<longleftrightarrow> (\<forall>(p, r) \<in> set (lt_retry_map t). r = None)"

lemma map_find_all_null: "all_null t \<Longrightarrow> map_find p (lt_retry_map t) \<noteq> Some (Some r)"
  by (auto simp: all_null_def map_find_def dest!: map_of_SomeD)

lemma env_steps_all_null:
  "env_steps c xs t = Inr t' \<Longrightarrow> all_null t \<Longrightarrow> lt_do_terminate t \<Longrightarrow> all_null t' \<and> lt_do_terminate t'"
proof (induction c xs t rule: env_steps.induct)
  case (2 c x xs t)
  then obtain t1 where t1: "env_step c x t = Inr t1" "env_steps c xs t1 = Inr t'" by auto
  have "all_null t1 \<and> lt_do_terminate t1"
    using t1(1) "2.prems" map_find_all_null
    by (cases x) (auto simp: lt_enqueue_def lt_terminate_def retry_thread_cycle_def all_null_def Let_def
        split: option.splits)
  then show ?case using "2.IH" t1 by blast
qed simp

lemma do_run_round_parts:
  assumes "do_run_round fmt c spawn env1 env2 t = Inr (outcome, t')"
  obtains t1 t2 where "log_all fmt c spawn (lt_events t) (t\<lparr>lt_events := []\<rparr>) = Inr t1"
      "env_steps c env1 t1 = Inr t2" "outcome \<noteq> Return" "t' = t2"
    | t1 t2 m still where "log_all fmt c spawn (lt_events t) (t\<lparr>lt_events := []\<rparr>) = Inr t1"
      "env_steps c env1 t1 = Inr t2" "lt_do_terminate t2" "retry_scan (lt_retry_map t2) = Inr (m, still)"
      "env_steps c env2 (t2\<lparr>lt_retry_map := m\<rparr>) = Inr t'" "outcome = Return \<longleftrightarrow> \<not> still \<and> lt_events t' = []"
proof -
  obtain t1 t2 where t2: "log_all fmt c spawn (lt_events t) (t\<lparr>lt_events := []\<rparr>) = Inr t1"
    "env_steps c env1 t1 = Inr t2"
    using assms by (auto simp: do_run_round_def)
  show thesis
  proof (cases "lt_do_terminate t2 \<and> lt_events t2 = []")
    case True
    then show thesis
      using assms t2 that(2) [OF t2] by (auto simp: do_run_round_def split: if_splits)
  next
    case False
    then show thesis
      using assms t2 that(1) [OF t2] by (auto simp: do_run_round_def split: if_splits)
  qed
qed

lemma do_run_round_return:
  assumes "do_run_round fmt c spawn env1 env2 t = Inr (Return, t')"
  shows "lt_do_terminate t' \<and> lt_events t' = [] \<and> all_null t'"
  using assms
proof (cases rule: do_run_round_parts)
  case (2 t1 t2 m still)
  then have "all_null (t2\<lparr>lt_retry_map := m\<rparr>)"
    using retry_scan_result [OF 2(4)] by (auto simp: all_null_def split: option.splits)
  then show ?thesis
    using env_steps_all_null [OF 2(5)] 2(3,6) by simp
qed simp

lemma do_run_return:
  "do_run fmt c rounds t = Inr (True, t') \<Longrightarrow> lt_do_terminate t' \<and> lt_events t' = [] \<and> all_null t'"
proof (induction rounds arbitrary: t)
  case (Cons x rounds)
  obtain spawn env1 env2 where x: "x = (spawn, env1, env2)" by (cases x)
  obtain outcome t1 where "do_run_round fmt c spawn env1 env2 t = Inr (outcome, t1)"
    "if outcome = Return then t1 = t' else do_run fmt c rounds t1 = Inr (True, t')"
    using Cons.prems x by (auto split: if_splits)
  then show ?case
    using Cons.IH [of t1] do_run_round_return [of fmt c spawn env1 env2 t t1]
    by (cases "outcome = Return") simp_all
qed simp

text \<open>
  C19. When the main loop returns, termination has been asked for, the event queue is empty
  and every retry thread that was left has been joined and deleted, so nothing waits for any
  sink. This holds for every environment: events that arrive during the last scan send the
  loop round again.
\<close>

theorem do_run_returned:
  assumes "do_run fmt c rounds t = Inr (True, t')"
  shows "lt_do_terminate t' \<and> lt_events t' = [] \<and> (\<forall>(p, r) \<in> set (lt_retry_map t'). r = None) \<and>
    (\<forall>p. retry_queue t' p = [])"
proof -
  have "lt_do_terminate t' \<and> lt_events t' = [] \<and> all_null t'"
    using assms by (rule do_run_return)
  moreover then have "retry_queue t' p = []" for p
    using map_find_all_null [of t' p] by (auto simp: retry_queue_def split: option.splits)
  ultimately show ?thesis by (simp add: all_null_def)
qed

theorem do_run_returned_witness:
  "\<exists>t'. do_run fmt_now stdout_class
       [(no_spawn_error, [], []), (no_spawn_error, [Env_terminate], [])]
       (lt_enqueue (sample_event Info ''a'' 0) (new_log_thread 1 open_console)) = Inr (True, t') \<and>
     lt_do_terminate t' \<and> lt_events t' = [] \<and> (\<forall>p. retry_queue t' p = [])"
proof -
  have "\<exists>t'. do_run fmt_now stdout_class
       [(no_spawn_error, [], []), (no_spawn_error, [Env_terminate], [])]
       (lt_enqueue (sample_event Info ''a'' 0) (new_log_thread 1 open_console)) = Inr (True, t')"
    by (simp add: lt_enqueue_def new_log_thread_def do_run_round_def lt_log_def fmt_now_def
        log_stream_def write_direct_def open_console_def stdout_class_def os_write_def
        stdout_do_write_def ostr_put_def lt_terminate_def sample_event_def level_order Let_def)
  then show ?thesis using do_run_returned by blast
qed

subsection \<open>A shutdown that never ends\<close>

text \<open>A failed console at address \<open>p\<close>, with the severe event \<open>e\<close> waiting for it.\<close>

definition dead_sink :: "nat \<Rightarrow> log_event \<Rightarrow> stdout_stream log_thread \<Rightarrow> bool" where
  "dead_sink p e t \<longleftrightarrow> map_wf (lt_retry_map t) \<and> le_level e = Severe \<and> time_ok (le_time e) \<and>
     (\<exists>s r. lt_heap t p = Some s \<and> \<not> ostr_good (so_stream (os_derived s)) \<and>
        map_find p (lt_retry_map t) = Some (Some r) \<and> rt_running r \<and> e \<in> set (rt_queue r))"

lemma dead_sink_direct:
  assumes "write_direct c spawn e' q t = Inr t'" "dead_sink p e t" "q \<noteq> p"
  shows "dead_sink p e t'"
  using assms
  by (auto simp: write_direct_def dead_sink_def cmap.find_emplace Let_def
      intro: map_wf_intros split: option.splits prod.splits if_splits)

lemma dead_sink_erase: "dead_sink p e t \<Longrightarrow> q \<noteq> p \<Longrightarrow> dead_sink p e (t\<lparr>lt_retry_map := map_erase q (lt_retry_map t)\<rparr>)"
  by (auto simp: dead_sink_def cmap.find_erase intro: map_wf_intros)

lemma dead_sink_log_stream:
  assumes "log_stream c spawn e' q t = Inr t'" "dead_sink p e t"
  shows "dead_sink p e t'"
proof (cases "q = p")
  case True
  then obtain r where "map_find p (lt_retry_map t) = Some (Some r)" "e \<in> set (rt_queue r)"
    using assms(2) by (auto simp: dead_sink_def)
  moreover from this have "rt_active r" by (auto simp: rt_active_def)
  ultimately show ?thesis
    using assms True
    by (auto simp: log_stream_def dead_sink_def cmap.find_assign rt_enqueue_def intro: map_wf_intros)
next
  case False
  then show ?thesis
    using assms dead_sink_direct [OF _ _ False] dead_sink_erase [OF _ False]
    by (auto simp: log_stream_def split: option.splits if_splits)
      (auto simp: dead_sink_def cmap.find_assign intro: map_wf_intros)
qed

lemma dead_sink_log_streams:
  "log_streams c spawn e' xs t = Inr t' \<Longrightarrow> dead_sink p e t \<Longrightarrow> dead_sink p e t'"
  by (induction c spawn e' xs t rule: log_streams.induct) (auto dest: dead_sink_log_stream)

lemma dead_sink_log_all:
  "log_all fmt c spawn es t = Inr t' \<Longrightarrow> dead_sink p e t \<Longrightarrow> dead_sink p e t'"
  by (induction fmt c spawn es t rule: log_all.induct)
    (auto simp: lt_log_def split: option.splits dest: dead_sink_log_streams)

definition env_time_ok :: "env_action \<Rightarrow> bool" where
  "env_time_ok x = (case x of Env_retry _ tpnow \<Rightarrow> time_ok tpnow | _ \<Rightarrow> True)"

lemma dead_sink_env_step:
  assumes "env_step stdout_class x t = Inr t'" "dead_sink p e t" "env_time_ok x"
  shows "dead_sink p e t'"
proof (cases x)
  case (Env_retry q tpnow)
  show ?thesis
  proof (cases "q = p")
    case False
    then show ?thesis
      using assms Env_retry
      by (auto simp: retry_thread_cycle_def dead_sink_def cmap.find_assign Let_def
          intro: map_wf_intros split: option.splits if_splits)
  next
    case True
    obtain s r where s: "lt_heap t p = Some s" "\<not> ostr_good (so_stream (os_derived s))"
      "map_find p (lt_retry_map t) = Some (Some r)" "rt_running r" "e \<in> set (rt_queue r)"
      and e: "map_wf (lt_retry_map t)" "le_level e = Severe" "time_ok (le_time e)"
      using assms(2) by (auto simp: dead_sink_def)
    let ?run = "\<lparr>run_stream = s, run_thread = r, run_done = [], run_cout = lt_cout t, run_cerr = lt_cerr t\<rparr>"
    have run: "rt_running (run_thread (rt_run stdout_class [([], tpnow)] ?run))"
      "e \<in> set (rt_queue (run_thread (rt_run stdout_class [([], tpnow)] ?run)))"
      "run_stream (rt_run stdout_class [([], tpnow)] ?run) = s"
      using dead_console_stays [of ?run e "[([], tpnow)]"] s e assms(3) Env_retry
      by (simp_all add: Let_def env_time_ok_def del: rt_run.simps)
    show ?thesis
      using assms(1) Env_retry True s e run
      by (auto simp: retry_thread_cycle_def dead_sink_def cmap.find_assign Let_def
          intro: map_wf_intros simp del: rt_run.simps)
  qed
qed (use assms in \<open>auto simp: dead_sink_def lt_enqueue_def lt_terminate_def Let_def\<close>)

lemma dead_sink_env_steps:
  "env_steps stdout_class xs t = Inr t' \<Longrightarrow> dead_sink p e t \<Longrightarrow> \<forall>x \<in> set xs. env_time_ok x \<Longrightarrow> dead_sink p e t'"
  by (induction xs arbitrary: t) (auto dest: dead_sink_env_step)

lemma dead_sink_scan:
  assumes "retry_scan (lt_retry_map t) = Inr (m, still)" "dead_sink p e t"
  shows "still" "dead_sink p e (t\<lparr>lt_retry_map := m\<rparr>)"
proof -
  obtain r where r: "map_find p (lt_retry_map t) = Some (Some r)" "e \<in> set (rt_queue r)"
    and wf: "map_wf (lt_retry_map t)"
    using assms(2) by (auto simp: dead_sink_def)
  then have active: "rt_active r" by (auto simp: rt_active_def)
  note res = retry_scan_result [OF assms(1)]
  have entry: "(p, Some r) \<in> set (lt_retry_map t)"
    using r(1) cmap.find_entries [OF wf, of p "Some r"] by simp
  then show still using res active by blast
  have "map fst m = map fst (lt_retry_map t)" using res by auto
  then have wf': "map_wf m" using wf by (simp add: map_wf_def)
  have "(p, Some r) \<in> set m" using entry active res by force
  then have "map_find p m = Some (Some r)" using cmap.find_entries [OF wf', of p "Some r"] by simp
  then show "dead_sink p e (t\<lparr>lt_retry_map := m\<rparr>)"
    using assms(2) r wf' by (auto simp: dead_sink_def)
qed

lemma dead_sink_round:
  assumes "do_run_round fmt stdout_class spawn env1 env2 t = Inr (outcome, t')" "dead_sink p e t"
    and "\<forall>x \<in> set env1 \<union> set env2. env_time_ok x"
  shows "outcome \<noteq> Return \<and> dead_sink p e t'"
proof -
  have start: "dead_sink p e (t\<lparr>lt_events := []\<rparr>)" using assms(2) by (simp add: dead_sink_def)
  have times: "\<forall>x \<in> set env1. env_time_ok x" "\<forall>x \<in> set env2. env_time_ok x" using assms(3) by auto
  from assms(1) show ?thesis
  proof (cases rule: do_run_round_parts)
    case (1 t1 t2)
    then show ?thesis
      using dead_sink_env_steps [OF 1(2) dead_sink_log_all [OF 1(1) start] times(1)] by simp
  next
    case (2 t1 t2 m still)
    have "dead_sink p e t2"
      using dead_sink_env_steps [OF 2(2) dead_sink_log_all [OF 2(1) start] times(1)] .
    from dead_sink_scan [OF 2(4) this] show ?thesis
      using 2(6) dead_sink_env_steps [OF 2(5) _ times(2)] by simp
  qed
qed

text \<open>
  C21. A failed console with a severe event waiting for it makes shutdown impossible: in every
  environment and after any number of rounds the main loop has not returned, so
  \<^verbatim>\<open>log_thread::terminate\<close>, which joins it, never does.
\<close>

theorem dead_sink_blocks_shutdown:
  assumes "dead_sink p e t" "\<forall>(spawn, env1, env2) \<in> set rounds. \<forall>x \<in> set env1 \<union> set env2. env_time_ok x"
  shows "do_run fmt stdout_class rounds t \<noteq> Inr (True, t')"
  using assms
proof (induction rounds arbitrary: t)
  case (Cons x rounds)
  obtain spawn env1 env2 where x: "x = (spawn, env1, env2)" by (cases x)
  show ?case
  proof
    assume run: "do_run fmt stdout_class (x # rounds) t = Inr (True, t')"
    then obtain outcome t1 where round: "do_run_round fmt stdout_class spawn env1 env2 t = Inr (outcome, t1)"
      using x by auto
    have "\<forall>y \<in> set env1 \<union> set env2. env_time_ok y" using Cons.prems(2) x by simp
    from dead_sink_round [OF round Cons.prems(1) this] have "outcome \<noteq> Return" "dead_sink p e t1" by auto
    moreover from this have "do_run fmt stdout_class rounds t1 = Inr (True, t')"
      using run x round by simp
    ultimately show False using Cons.IH [of t1] Cons.prems(2) by simp
  qed
qed simp

definition sample_dead :: "stdout_stream log_thread" where
  "sample_dead = sample_log_thread\<lparr>lt_do_terminate := True, lt_heap := [1 \<mapsto> open_console, 2 \<mapsto> dead_console],
     lt_retry_map := [(2, Some (rt_enqueue (sample_event Severe ''a'' 0) (new_retry_thread 2)))]\<rparr>"

theorem dead_sink_blocks_shutdown_witness:
  "\<forall>t'. do_run fmt_now stdout_class [(no_spawn_error, [Env_retry 2 ns_per_s], []), (no_spawn_error, [], [])]
     sample_dead \<noteq> Inr (True, t')"
proof -
  have "dead_sink 2 (sample_event Severe ''a'' 0) sample_dead"
    by (simp add: dead_sink_def sample_dead_def sample_log_thread_def new_log_thread_def map_wf_def
        map_find_def rt_enqueue_def new_retry_thread_def sample_event_def time_ok_def dead_console_def
        full_console_def os_write_def stdout_do_write_def ostr_put_def stdout_line_def level_order)
  then show ?thesis
    by (rule allI [OF dead_sink_blocks_shutdown]) (simp add: env_time_ok_def time_ok_def ns_per_s_def)
qed

end
