(* ===== verification/Chunked.thy ===== *)
theory Chunked
  imports Prelude
begin

section \<open>Consumers of text that arrives in pieces\<close>

text \<open>
  The line splitter and the STOMP reader are fed the buffers a \<^verbatim>\<open>read\<close> returned, which
  cut the text anywhere. Both promise that only the text counts: a buffer is consumed as its
  bytes are, one after the other. The consequences are proved here once.
\<close>

locale chunk_consumer =
  fixes feed :: "'s \<Rightarrow> 'a list \<Rightarrow> 's"
    and step :: "'s \<Rightarrow> 'a \<Rightarrow> 's"
  assumes feed_steps: "feed s xs = foldl step s xs"
begin

lemma feed_Nil [simp]: "feed s [] = s"
  by (simp add: feed_steps)

lemma feed_append: "feed s (xs @ ys) = feed (feed s xs) ys"
  by (simp add: feed_steps)

lemma feed_chunks: "foldl feed s cs = feed s (concat cs)"
  by (induction cs arbitrary: s) (simp_all add: feed_append)

lemma chunking_irrelevant: "concat cs = concat ds \<Longrightarrow> foldl feed s cs = foldl feed s ds"
  by (simp add: feed_chunks)

lemma feed_invariant:
  assumes "I s" "\<And>s x. I s \<Longrightarrow> I (step s x)"
  shows "I (feed s xs)"
proof -
  have "I (foldl step s xs)"
    using assms by (induction xs arbitrary: s) auto
  then show ?thesis by (simp add: feed_steps)
qed

end

end
