(* ===== verification/Line_Splitter.thy ===== *)
theory Line_Splitter
  imports Cpp_String Chunked
begin

section \<open>The line splitter (line_splitter.h, line_splitter.cpp)\<close>

text \<open>
  \<^verbatim>\<open>m_active_line\<close> and, for the callback \<^verbatim>\<open>m_sink\<close>, the lines it has been called
  with, in order.
\<close>

record line_splitter =
  m_active_line :: string
  m_sink :: "string list"

definition new_line_splitter :: line_splitter where
  "new_line_splitter = \<lparr>m_active_line = [], m_sink = []\<rparr>"

text \<open>
  The loop of \<^verbatim>\<open>read_and_forward\<close>: its argument is the text from \<^verbatim>\<open>sol\<close> to
  \<^verbatim>\<open>last\<close>, \<open>None\<close> when \<^verbatim>\<open>sol\<close> is the null pointer.
\<close>

function forward_loop :: "string option \<Rightarrow> line_splitter \<Rightarrow> line_splitter" where
  "forward_loop None ls = ls"
| "forward_loop (Some buf) ls =
     (case str_find_char newline buf 0 of
        Some lf \<Rightarrow>
          let ls' = ls\<lparr>m_sink := m_sink ls @ [m_active_line ls @ take lf buf],
                       m_active_line := []\<rparr>;
              sol = drop (lf + 1) buf
          in forward_loop (if sol = [] then None else Some sol) ls'
      | None \<Rightarrow> forward_loop None (ls\<lparr>m_active_line := m_active_line ls @ buf\<rparr>))"
  by pat_completeness auto
termination
  by (relation "measure (\<lambda>(t, ls). case t of None \<Rightarrow> 0 | Some buf \<Rightarrow> Suc (length buf))")
    (auto dest: str_find_char_bounds)

declare forward_loop.simps [simp del]

definition read_and_forward :: "line_splitter \<Rightarrow> string \<Rightarrow> line_splitter" where
  "read_and_forward ls buf = forward_loop (Some buf) ls"

text \<open>The destructor hands over an unfinished last line.\<close>

definition destroy_line_splitter :: "line_splitter \<Rightarrow> string list" where
  "destroy_line_splitter ls =
     (if m_active_line ls \<noteq> [] then m_sink ls @ [m_active_line ls] else m_sink ls)"

subsection \<open>The splitter byte by byte\<close>

definition split_step :: "line_splitter \<Rightarrow> char \<Rightarrow> line_splitter" where
  "split_step ls c =
     (if c = newline
      then ls\<lparr>m_sink := m_sink ls @ [m_active_line ls], m_active_line := []\<rparr>
      else ls\<lparr>m_active_line := m_active_line ls @ [c]\<rparr>)"

lemma split_steps_line:
  "newline \<notin> set s \<Longrightarrow> foldl split_step ls s = ls\<lparr>m_active_line := m_active_line ls @ s\<rparr>"
  by (induction s arbitrary: ls) (auto simp: split_step_def)

lemma split_steps_newline:
  "newline \<notin> set a \<Longrightarrow>
     foldl split_step ls (a @ newline # b) =
     foldl split_step
       (ls\<lparr>m_sink := m_sink ls @ [m_active_line ls @ a], m_active_line := []\<rparr>) b"
  by (simp add: split_steps_line) (simp add: split_step_def)

lemma forward_loop_steps:
  "forward_loop t ls = (case t of None \<Rightarrow> ls | Some buf \<Rightarrow> foldl split_step ls buf)"
proof (induction t ls rule: forward_loop.induct)
  case (1 ls)
  then show ?case by (simp add: forward_loop.simps)
next
  case (2 buf ls)
  show ?case
  proof (cases "str_find_char newline buf 0")
    case None
    then have "newline \<notin> set buf" by (simp add: str_find_char_0 find_pat_char_None)
    with None show ?thesis
      by (simp add: forward_loop.simps split_steps_line)
  next
    case (Some lf)
    then have lf: "find_pat [newline] buf = Some lf" by (simp add: str_find_char_0)
    have buf: "buf = take lf buf @ newline # drop (lf + 1) buf"
      using find_pat_Some [OF lf] by simp
    have "newline \<notin> set (take lf buf)"
    proof
      assume "newline \<in> set (take lf buf)"
      then obtain j where "j < lf" "j < length buf" "buf ! j = newline"
        by (auto simp: in_set_conv_nth)
      then have "prefix [newline] (drop j buf)"
        by (metis Cons_nth_drop_Suc append_Cons append_Nil prefixI)
      then show False using find_pat_first [OF lf \<open>j < lf\<close>] by simp
    qed
    then have steps: "foldl split_step ls buf = foldl split_step
        (ls\<lparr>m_sink := m_sink ls @ [m_active_line ls @ take lf buf], m_active_line := []\<rparr>)
        (drop (lf + 1) buf)"
      by (subst buf) (rule split_steps_newline)
    show ?thesis
      using 2(2) [OF Some refl refl] Some
      by (simp add: forward_loop.simps(2) [of buf ls] steps split: if_splits)
  qed
qed

interpretation splitter: chunk_consumer read_and_forward split_step
  by unfold_locales (simp add: read_and_forward_def forward_loop_steps)

subsection \<open>What the splitter promises\<close>

text \<open>The text consumed so far, rebuilt from the state.\<close>

definition splitter_text :: "line_splitter \<Rightarrow> string" where
  "splitter_text ls = concat (map (\<lambda>l. l @ [newline]) (m_sink ls)) @ m_active_line ls"

definition splitter_inv :: "line_splitter \<Rightarrow> bool" where
  "splitter_inv ls \<longleftrightarrow> newline \<notin> set (m_active_line ls) \<and> (\<forall>l \<in> set (m_sink ls). newline \<notin> set l)"

lemma splitter_inv_new [simp]: "splitter_inv new_line_splitter"
  by (simp add: splitter_inv_def new_line_splitter_def)

lemma splitter_inv_step [inv_intros]: "splitter_inv ls \<Longrightarrow> splitter_inv (split_step ls c)"
  by (auto simp: splitter_inv_def split_step_def)

lemma splitter_text_step: "splitter_text (split_step ls c) = splitter_text ls @ [c]"
  by (simp add: splitter_text_def split_step_def)

lemma splitter_inv_feed [inv_intros]: "splitter_inv ls \<Longrightarrow> splitter_inv (read_and_forward ls buf)"
  by (rule splitter.feed_invariant) (auto intro: splitter_inv_step)

lemma splitter_text_feed: "splitter_text (read_and_forward ls buf) = splitter_text ls @ buf"
proof -
  have "splitter_text (foldl split_step ls buf) = splitter_text ls @ buf"
    by (induction buf arbitrary: ls) (simp_all add: splitter_text_step)
  then show ?thesis by (simp add: splitter.feed_steps)
qed

text \<open>
  How the text is cut into buffers does not matter: feeding a list of buffers leaves the
  splitter in the state that the concatenated text leaves it in.
\<close>

theorem read_and_forward_chunks:
  "foldl read_and_forward ls bufs = read_and_forward ls (concat bufs)"
  by (rule splitter.feed_chunks)

text \<open>
  C39. The splitter loses and invents nothing: after any buffers, the forwarded lines, each
  with its line feed, followed by the active line are exactly the text fed; no line holds a
  line feed; and what the destructor finally forwards are these lines and, when it is not
  empty, the unfinished last one.
\<close>

theorem read_and_forward_lossless:
  "(let ls = foldl read_and_forward new_line_splitter bufs;
        unfinished = (if m_active_line ls = [] then [] else [m_active_line ls])
    in concat (map (\<lambda>l. l @ [newline]) (m_sink ls)) @ m_active_line ls = concat bufs \<and>
       set (destroy_line_splitter ls) \<inter> {l. newline \<in> set l} = {} \<and>
       destroy_line_splitter ls = m_sink ls @ unfinished)"
proof -
  define ls where "ls = foldl read_and_forward new_line_splitter bufs"
  then have ls: "ls = read_and_forward new_line_splitter (concat bufs)"
    by (simp add: splitter.feed_chunks)
  have "splitter_text ls = concat bufs"
    by (simp add: ls splitter_text_feed) (simp add: splitter_text_def new_line_splitter_def)
  moreover have "splitter_inv ls"
    by (simp add: ls splitter_inv_feed)
  ultimately show ?thesis
    by (auto simp: Let_def splitter_text_def splitter_inv_def destroy_line_splitter_def
        simp flip: ls_def)
qed

end
