(* ===== verification/Logger.thy ===== *)
theory Logger
  imports Log_Thread Line_Splitter "HOL-Library.Word"
begin

section \<open>The logger (logger.h, logger_private.h, logger.cpp, subsystem_registrator.cpp)\<close>

text \<open>
  The registry of subsystems, the filter in front of the event queue, the administration of
  the sinks, the end of the log thread, the crash handler and \<^verbatim>\<open>string_format\<close>. A
  subsystem id is a 32-bit \<^verbatim>\<open>unsigned\<close>; \<open>minlevel\<close> is \<^verbatim>\<open>SuS_LOG_MINLEVEL\<close>.
\<close>

record subsystem_info =
  si_name :: string
  si_min_level :: log_level

text \<open>\<^verbatim>\<open>m_thread\<close> is \<open>None\<close> once the thread has been deleted.\<close>

record 's logger =
  lg_subsystems :: "(32 word, subsystem_info) std_map"
  lg_next_free_subsystem_id :: "32 word"
  lg_thread :: "'s log_thread option"

definition new_logger :: "nat \<Rightarrow> 's output_stream \<Rightarrow> 's logger" where
  "new_logger p s =
     \<lparr>lg_subsystems = [], lg_next_free_subsystem_id = 0, lg_thread = Some (new_log_thread p s)\<rparr>"

text \<open>\<^verbatim>\<open>instance()\<close>, for the value of \<^verbatim>\<open>s_instance\<close> and the console the constructor makes.\<close>

definition logger_instance :: "nat \<Rightarrow> 's output_stream \<Rightarrow> 's logger option \<Rightarrow> 's logger" where
  "logger_instance p s inst = (case inst of None \<Rightarrow> new_logger p s | Some lg \<Rightarrow> lg)"

subsection \<open>Subsystems\<close>

fun find_if_name :: "string \<Rightarrow> (32 word, subsystem_info) std_map \<Rightarrow> 32 word option" where
  "find_if_name name [] = None"
| "find_if_name name ((k, info) # m) = (if si_name info = name then Some k else find_if_name name m)"

definition find_subsystem :: "string \<Rightarrow> 's logger \<Rightarrow> 32 word throws" where
  "find_subsystem name lg =
     (case find_if_name name (lg_subsystems lg) of
        Some k \<Rightarrow> Inr k
      | None \<Rightarrow> Inl (Invalid_argument ''Unknown subsystem name.''))"

definition register_subsystem :: "log_level \<Rightarrow> string \<Rightarrow> 's logger \<Rightarrow> 32 word \<times> 's logger" where
  "register_subsystem minlevel name lg =
     (case find_subsystem name lg of
        Inr k \<Rightarrow> (k, lg)
      | Inl _ \<Rightarrow>
          let new_id = lg_next_free_subsystem_id lg
          in (new_id,
              lg\<lparr>lg_next_free_subsystem_id := new_id + 1,
                 lg_subsystems := map_emplace new_id \<lparr>si_name = name, si_min_level = minlevel\<rparr>
                   (lg_subsystems lg)\<rparr>))"

definition set_subsystem_min_log_level :: "32 word \<Rightarrow> log_level \<Rightarrow> 's logger \<Rightarrow> 's logger throws" where
  "set_subsystem_min_log_level k l lg =
     (case map_find k (lg_subsystems lg) of
        None \<Rightarrow> Inl Assert_failed
      | Some info \<Rightarrow> Inr (lg\<lparr>lg_subsystems := map_assign k (info\<lparr>si_min_level := l\<rparr>) (lg_subsystems lg)\<rparr>))"

record subsystem_registrator =
  m_subsystem :: "32 word"

definition new_subsystem_registrator ::
  "log_level \<Rightarrow> string \<Rightarrow> 's logger \<Rightarrow> subsystem_registrator \<times> 's logger" where
  "new_subsystem_registrator minlevel name lg =
     (let (k, lg1) = register_subsystem minlevel name lg in (\<lparr>m_subsystem = k\<rparr>, lg1))"

definition registrator_call :: "subsystem_registrator \<Rightarrow> 32 word" where
  "registrator_call r = m_subsystem r"

definition registrator_set_min_log_level ::
  "subsystem_registrator \<Rightarrow> log_level \<Rightarrow> 's logger \<Rightarrow> 's logger throws" where
  "registrator_set_min_log_level r l lg = set_subsystem_min_log_level (m_subsystem r) l lg"

subsection \<open>Logging\<close>

definition logger_log ::
  "time_point \<Rightarrow> log_level \<Rightarrow> 32 word \<Rightarrow> string \<Rightarrow> string \<Rightarrow> 's logger \<Rightarrow> 's logger throws" where
  "logger_log now l k message function lg =
     (case map_find k (lg_subsystems lg) of
        None \<Rightarrow> Inl Assert_failed
      | Some info \<Rightarrow>
          if l < si_min_level info then Inr lg
          else
            let le = \<lparr>le_level = l, le_subsystem = k, le_message = message, le_time = now,
                      le_function = function, le_subsystem_string = si_name info, le_time_string = []\<rparr>
            in case lg_thread lg of
                None \<Rightarrow> Inl Null_deref
              | Some t \<Rightarrow> Inr (lg\<lparr>lg_thread := Some (lt_enqueue le t)\<rparr>))"

text \<open>The macro \<^verbatim>\<open>SuS_LOG\<close>; \<open>function\<close> is \<^verbatim>\<open>SuS_FUNCNAME\<close>.\<close>

definition SuS_LOG ::
  "log_level \<Rightarrow> string \<Rightarrow> time_point \<Rightarrow> log_level \<Rightarrow> 32 word \<Rightarrow> string \<Rightarrow> 's logger \<Rightarrow> 's logger throws" where
  "SuS_LOG minlevel function now l sys msg lg =
     (if l < minlevel then Inr lg else logger_log now l sys msg function lg)"

subsection \<open>Sinks\<close>

definition add_output_stream ::
  "'s stream_class \<Rightarrow> nat \<Rightarrow> string \<Rightarrow> 's logger \<Rightarrow> 's logger throws" where
  "add_output_stream c p ref lg =
     (case lg_thread lg of
        None \<Rightarrow> Inl Null_deref
      | Some t \<Rightarrow>
          bind_exn
            (if ref = []
             then (case lt_heap t p of None \<Rightarrow> Inl Use_after_free | Some s \<Rightarrow> Inr (vt_name c (os_derived s)))
             else Inr ref)
            (\<lambda>name. Inr (lg\<lparr>lg_thread := Some (t\<lparr>lt_streams := map_emplace name p (lt_streams t)\<rparr>)\<rparr>)))"

definition remove_output_stream ::
  "'s stream_class \<Rightarrow> string \<Rightarrow> 's logger \<Rightarrow> (bool \<times> 's logger) throws" where
  "remove_output_stream c name lg =
     (case lg_thread lg of
        None \<Rightarrow> Inl Null_deref
      | Some t \<Rightarrow>
          (case map_find name (lt_streams t) of
             None \<Rightarrow> Inr (False, lg)
           | Some p \<Rightarrow>
               bind_exn (delete_stream c p t) (\<lambda>t1.
                 Inr (True, lg\<lparr>lg_thread := Some (t1\<lparr>lt_streams := map_erase name (lt_streams t1)\<rparr>)\<rparr>))))"

definition set_min_log_level :: "string \<Rightarrow> log_level \<Rightarrow> 's logger \<Rightarrow> (bool \<times> 's logger) throws" where
  "set_min_log_level name l lg =
     (case lg_thread lg of
        None \<Rightarrow> Inl Null_deref
      | Some t \<Rightarrow>
          (case map_find name (lt_streams t) of
             None \<Rightarrow> Inr (False, lg)
           | Some p \<Rightarrow>
               (case lt_heap t p of
                  None \<Rightarrow> Inl Use_after_free
                | Some s \<Rightarrow> Inr (True, lg\<lparr>lg_thread := Some
                    (t\<lparr>lt_heap := (lt_heap t)(p \<mapsto> os_set_min_log_level l s)\<rparr>)\<rparr>))))"

fun dump_streams :: "'s stream_class \<Rightarrow> (string \<times> nat) list \<Rightarrow> 's log_thread \<Rightarrow> string throws" where
  "dump_streams c [] t = Inr []"
| "dump_streams c ((name, p) # xs) t =
     (case lt_heap t p of
        None \<Rightarrow> Inl Use_after_free
      | Some s \<Rightarrow> bind_exn (dump_streams c xs t) (\<lambda>rest. Inr (os_dump c s @ rest)))"

definition dump_subsystem :: "subsystem_info \<Rightarrow> string" where
  "dump_subsystem info =
     ''   - '' @ si_name info @ [newline] @
     ''     min. log level: '' @ level_name (si_min_level info) @ [newline]"

definition dump_configuration :: "log_level \<Rightarrow> 's stream_class \<Rightarrow> 's logger \<Rightarrow> string throws" where
  "dump_configuration minlevel c lg =
     (case lg_thread lg of
        None \<Rightarrow> Inl Null_deref
      | Some t \<Rightarrow>
          bind_exn (dump_streams c (lt_streams t) t) (\<lambda>streams.
            Inr (''global min. log level (compile-time): '' @ level_name minlevel @ [newline] @
                 ''active output streams:'' @ [newline] @ streams @
                 ''active logging subsystems'' @ [newline] @
                 concat (map (dump_subsystem \<circ> snd) (lg_subsystems lg)))))"

subsection \<open>The end of the log thread\<close>

text \<open>
  \<^verbatim>\<open>terminate\<close> waits for the main loop over the given rounds; false when it is still
  waiting after them.
\<close>

definition logger_terminate ::
  "(time_point \<Rightarrow> string option) \<Rightarrow> 's stream_class \<Rightarrow> round_env list \<Rightarrow> 's logger \<Rightarrow>
     (bool \<times> 's logger) throws" where
  "logger_terminate fmt c rounds lg =
     (case lg_thread lg of
        None \<Rightarrow> Inr (True, lg)
      | Some t \<Rightarrow>
          bind_exn (do_run fmt c rounds (lt_terminate t)) (\<lambda>(returned, t1).
            if \<not> returned then Inr (False, lg\<lparr>lg_thread := Some t1\<rparr>)
            else bind_exn (destroy_log_thread c t1) (\<lambda>_. Inr (True, lg\<lparr>lg_thread := None\<rparr>))))"

text \<open>
  The destructor does the same, without resetting \<^verbatim>\<open>m_thread\<close>; true when it ends. The exit
  handler returns its text on \<^verbatim>\<open>std::cout\<close>, too.
\<close>

definition destroy_logger ::
  "(time_point \<Rightarrow> string option) \<Rightarrow> 's stream_class \<Rightarrow> round_env list \<Rightarrow> 's logger \<Rightarrow> bool throws" where
  "destroy_logger fmt c rounds lg =
     (case lg_thread lg of
        None \<Rightarrow> Inr True
      | Some t \<Rightarrow>
          bind_exn (do_run fmt c rounds (lt_terminate t)) (\<lambda>(returned, t1).
            if \<not> returned then Inr False else bind_exn (destroy_log_thread c t1) (\<lambda>_. Inr True)))"

definition atexit_handler ::
  "(time_point \<Rightarrow> string option) \<Rightarrow> 's stream_class \<Rightarrow> round_env list \<Rightarrow> 's logger option \<Rightarrow>
     (string \<times> bool) throws" where
  "atexit_handler fmt c rounds inst =
     bind_exn (case inst of None \<Rightarrow> Inr True | Some lg \<Rightarrow> destroy_logger fmt c rounds lg) (\<lambda>ended.
       Inr (''exit'' @ [newline], ended))"

subsection \<open>The crash handler\<close>

fun log_each :: "(string \<Rightarrow> 's logger \<Rightarrow> 's logger throws) \<Rightarrow> string list \<Rightarrow> 's logger \<Rightarrow> 's logger throws" where
  "log_each f [] lg = Inr lg"
| "log_each f (m # ms) lg = bind_exn (f m lg) (log_each f ms)"

text \<open>
  What the operating system does for \<^verbatim>\<open>gdb_backtrace\<close>: whether \<^verbatim>\<open>pipe\<close> works, which
  side of the \<^verbatim>\<open>fork\<close> this process is (the child only comes back when \<^verbatim>\<open>execl\<close>
  fails), the buffers \<^verbatim>\<open>read\<close> returns and the child's exit status.
\<close>

record gdb_env =
  gdb_pipe :: bool
  gdb_in_child :: bool
  gdb_chunks :: "string list"
  gdb_status :: int

definition gdb_backtrace ::
  "(string \<Rightarrow> 's logger \<Rightarrow> 's logger throws) \<Rightarrow> gdb_env \<Rightarrow> 's logger \<Rightarrow> (bool \<times> 's logger) throws" where
  "gdb_backtrace f env lg =
     (if \<not> gdb_pipe env then Inr (False, lg)
      else if gdb_in_child env then Inr (False, lg)
      else
        let ls = foldl read_and_forward new_line_splitter (gdb_chunks env)
        in bind_exn (log_each f (destroy_line_splitter ls) lg) (\<lambda>lg1.
             Inr (gdb_status env = 0, lg1)))"

text \<open>
  The handler: \<open>f\<close> logs a severe message, \<open>bt_syms\<close> are the symbols \<^verbatim>\<open>backtrace\<close> finds.
  The result holds what happens afterwards and the texts on \<^verbatim>\<open>std::cout\<close> and
  \<^verbatim>\<open>std::cerr\<close>.
\<close>

datatype after_signal = Old_handler | Exit_1 | Hangs

definition signal_handler ::
  "(string \<Rightarrow> 's logger \<Rightarrow> 's logger throws) \<Rightarrow> gdb_env \<Rightarrow> string list \<Rightarrow> bool \<Rightarrow>
     (time_point \<Rightarrow> string option) \<Rightarrow> 's stream_class \<Rightarrow> round_env list \<Rightarrow> int \<Rightarrow> 's logger \<Rightarrow>
     (after_signal \<times> string \<times> string \<times> 's logger) throws" where
  "signal_handler f env bt_syms old_handler fmt c rounds sig lg =
     bind_exn (f (''SIGNAL '' @ show_int sig @ '' received.'') lg) (\<lambda>lg1.
     bind_exn (gdb_backtrace f env lg1) (\<lambda>(ok, lg2).
     bind_exn (if ok then Inr lg2 else log_each f bt_syms lg2) (\<lambda>lg3.
     bind_exn (logger_terminate fmt c rounds lg3) (\<lambda>(ended, lg4).
       Inr (if \<not> ended then Hangs else if old_handler then Old_handler else Exit_1,
            ''SIGNAL '' @ show_int sig @ [newline],
            if ok then [] else concat (map (\<lambda>s. s @ [newline]) bt_syms), lg4)))))"

subsection \<open>string_format\<close>

definition int_limit :: int where "int_limit = 2147483647"

text \<open>
  The loop from a buffer of \<open>bufsize\<close> bytes. \<open>vsn\<close> is \<^verbatim>\<open>vsnprintf\<close> with the caller's
  format and arguments: for a size its return value and the buffer it leaves. The arithmetic
  on the size is that of \<^verbatim>\<open>int\<close>; the size is at least 100 in every round, and the test
  \<open>bufsize < 1\<close> only makes the recursion total.
\<close>

function string_format_loop :: "(int \<Rightarrow> int \<times> string) \<Rightarrow> int \<Rightarrow> string throws" where
  "string_format_loop vsn bufsize =
     (let (n, str) = vsn bufsize
      in if n > -1 \<and> n < bufsize then Inr (take (nat n) str)
         else
           let next_size = (if n > -1 then n + 1 else bufsize * 2)
           in if next_size > int_limit \<or> bufsize < 1 then Inl Int_overflow
              else string_format_loop vsn next_size)"
  by pat_completeness auto
termination
  by (relation "measure (\<lambda>(vsn, bufsize). nat (int_limit - bufsize))")
    (auto simp: int_limit_def split: if_splits)

declare string_format_loop.simps [simp del]

definition string_format :: "(int \<Rightarrow> int \<times> string) \<Rightarrow> string throws" where
  "string_format vsn = string_format_loop vsn 100"

text \<open>
  The other two macros: one formats its message, the other inserts it into an
  \<^verbatim>\<open>ostringstream\<close>; both only if the level is compiled in.
\<close>

definition SuS_LOG_PRINTF ::
  "log_level \<Rightarrow> string \<Rightarrow> time_point \<Rightarrow> log_level \<Rightarrow> 32 word \<Rightarrow> (int \<Rightarrow> int \<times> string) \<Rightarrow>
     's logger \<Rightarrow> 's logger throws" where
  "SuS_LOG_PRINTF minlevel function now l sys vsn lg =
     (if l < minlevel then Inr lg
      else bind_exn (string_format vsn) (\<lambda>msg. logger_log now l sys msg function lg))"

definition SuS_LOG_STREAM ::
  "log_level \<Rightarrow> string \<Rightarrow> time_point \<Rightarrow> log_level \<Rightarrow> 32 word \<Rightarrow> string list \<Rightarrow> 's logger \<Rightarrow> 's logger throws" where
  "SuS_LOG_STREAM minlevel function now l sys inserted lg =
     (if l < minlevel then Inr lg else logger_log now l sys (concat inserted) function lg)"

subsection \<open>Registration\<close>

text \<open>
  The registry after \<open>n\<close> different names: ids are given in order, \<open>names\<close> are the names by id.
\<close>

definition registry :: "string list \<Rightarrow> 's logger \<Rightarrow> bool" where
  "registry names lg \<longleftrightarrow>
     distinct names \<and> length names \<le> 2 ^ 32 \<and>
     lg_next_free_subsystem_id lg = of_nat (length names) \<and>
     map fst (lg_subsystems lg) = map of_nat [0..<length names] \<and>
     map (si_name \<circ> snd) (lg_subsystems lg) = names"

lemma find_if_name_found:
  assumes "map fst m = map of_nat [a..<a + length names]" "map (si_name \<circ> snd) m = names" "distinct names"
    and "i < length names"
  shows "find_if_name (names ! i) m = Some (of_nat (a + i))"
  using assms
proof (induction m arbitrary: names a i)
  case (Cons x m)
  obtain k info where x: "x = (k, info)" by (cases x)
  from Cons.prems(2) x obtain ns where ns: "names = si_name info # ns" "map (si_name \<circ> snd) m = ns" by auto
  have upt: "[a..<a + length names] = a # [Suc a..<Suc a + length ns]"
    using ns by (simp add: upt_conv_Cons del: upt_Suc)
  have k: "k = of_nat a" and rest: "map fst m = map of_nat [Suc a..<Suc a + length ns]"
    using Cons.prems(1) x unfolding upt by simp_all
  show ?case
  proof (cases i)
    case 0
    then show ?thesis using x k ns by simp
  next
    case (Suc j)
    then have "ns ! j \<noteq> si_name info" using Cons.prems(3,4) ns(1) nth_mem [of j ns] by force
    then show ?thesis
      using Cons.IH [OF rest ns(2), of j] Cons.prems(3,4) ns x Suc by simp
  qed
qed simp

lemma find_if_name_None: "find_if_name name m = None \<longleftrightarrow> name \<notin> set (map (si_name \<circ> snd) m)"
  by (induction name m rule: find_if_name.induct) auto

lemma registry_find:
  assumes "registry names lg"
  shows "i < length names \<Longrightarrow> find_subsystem (names ! i) lg = Inr (of_nat i)"
    and "name \<notin> set names \<Longrightarrow> find_subsystem name lg = Inl (Invalid_argument ''Unknown subsystem name.'')"
  using find_if_name_found [of "lg_subsystems lg" 0 names i] assms find_if_name_None [of name "lg_subsystems lg"]
  by (auto simp: find_subsystem_def registry_def)

lemma map_emplace_last:
  "\<forall>x \<in> set (map fst m). x < k \<Longrightarrow> map_emplace k v m = m @ [(k, v)]"
  by (induction k v m rule: map_emplace.induct) auto

lemma of_nat_less_word32: "i < n \<Longrightarrow> n < 2 ^ 32 \<Longrightarrow> (of_nat i :: 32 word) < of_nat n"
  by (simp add: word_less_nat_alt unat_of_nat)

lemma registry_register_new:
  assumes "registry names lg" "name \<notin> set names" "length names < 2 ^ 32"
  shows "fst (register_subsystem minlevel name lg) = of_nat (length names)"
    and "registry (names @ [name]) (snd (register_subsystem minlevel name lg))"
proof -
  have "\<forall>x \<in> set (map fst (lg_subsystems lg)). x < of_nat (length names)"
    using assms by (auto simp: registry_def intro!: of_nat_less_word32)
  then have "map_emplace (of_nat (length names)) \<lparr>si_name = name, si_min_level = minlevel\<rparr> (lg_subsystems lg) =
      lg_subsystems lg @ [(of_nat (length names), \<lparr>si_name = name, si_min_level = minlevel\<rparr>)]"
    by (rule map_emplace_last)
  then show "fst (register_subsystem minlevel name lg) = of_nat (length names)"
    "registry (names @ [name]) (snd (register_subsystem minlevel name lg))"
    using assms registry_find(2) [OF assms(1,2)]
    by (auto simp: register_subsystem_def registry_def Let_def add.commute)
qed

lemma registry_register_old:
  assumes "registry names lg" "i < length names"
  shows "register_subsystem minlevel (names ! i) lg = (of_nat i, lg)"
  by (simp add: register_subsystem_def registry_find(1) [OF assms])

fun register_all :: "log_level \<Rightarrow> string list \<Rightarrow> 's logger \<Rightarrow> 32 word list \<times> 's logger" where
  "register_all minlevel [] lg = ([], lg)"
| "register_all minlevel (name # ns) lg =
     (let (r, lg1) = new_subsystem_registrator minlevel name lg; (ks, lg2) = register_all minlevel ns lg1
      in (registrator_call r # ks, lg2))"

lemma register_all_registry:
  assumes "registry names lg" "length names + length ns \<le> 2 ^ 32" "register_all minlevel ns lg = (ks, lg')"
  shows "\<exists>names'. registry (names @ names') lg' \<and> set (names @ names') = set names \<union> set ns \<and>
    length (names @ names') \<le> length names + length ns \<and> length ks = length ns \<and>
    (\<forall>j < length ns. find_subsystem (ns ! j) lg' = Inr (ks ! j))"
  using assms
proof (induction ns arbitrary: names lg ks)
  case Nil
  then show ?case by (intro exI [of _ "[]"]) simp
next
  case (Cons name ns)
  obtain k lg1 where reg: "register_subsystem minlevel name lg = (k, lg1)" by fastforce
  obtain ks1 where rest: "register_all minlevel ns lg1 = (ks1, lg')" "ks = k # ks1"
    using Cons.prems(3) reg
    by (auto simp: new_subsystem_registrator_def registrator_call_def Let_def split: prod.splits)
  obtain extra i where extra: "registry (names @ extra) lg1" "length extra \<le> 1" "set (names @ extra) = insert name (set names)"
    "i < length (names @ extra)" "(names @ extra) ! i = name" "k = of_nat i"
  proof (cases "name \<in> set names")
    case True
    then obtain i where "i < length names" "names ! i = name" by (auto simp: in_set_conv_nth)
    then show thesis
      using that [of "[]" i] registry_register_old [OF Cons.prems(1), of i minlevel] reg Cons.prems(1) True by auto
  next
    case False
    then show thesis
      using that [of "[name]" "length names"] registry_register_new [OF Cons.prems(1) False, of minlevel] reg
        Cons.prems(2) by auto
  qed
  obtain names' where names': "registry ((names @ extra) @ names') lg'"
    "set ((names @ extra) @ names') = set (names @ extra) \<union> set ns"
    "length ((names @ extra) @ names') \<le> length (names @ extra) + length ns" "length ks1 = length ns"
    "\<forall>j < length ns. find_subsystem (ns ! j) lg' = Inr (ks1 ! j)"
    using Cons.IH [OF extra(1) _ rest(1)] Cons.prems(2) extra(2) by auto
  have "((names @ extra) @ names') ! i = name"
    using extra(4,5) by (simp only: nth_append) simp
  then have "find_subsystem name lg' = Inr k"
    using registry_find(1) [OF names'(1), of i] extra(4,6) by simp
  then show ?case
    using names' extra rest(2)
    by (intro exI [of _ "extra @ names'"]) (auto simp: nth_Cons split: nat.splits)
qed

text \<open>
  C22. Registration from any number of source files, up to the number of ids: after
  registering any sequence of names at startup, every name is known under the id its
  registrator holds, and two registrators hold the same id exactly when they registered the
  same name.
\<close>

theorem registrators_merge_by_name:
  assumes "length ns \<le> 2 ^ 32" "register_all minlevel ns (new_logger p s) = (ks, lg)"
  shows "length ks = length ns \<and> (\<forall>i < length ns. find_subsystem (ns ! i) lg = Inr (ks ! i)) \<and>
    (\<forall>i < length ns. \<forall>j < length ns. ks ! i = ks ! j \<longleftrightarrow> ns ! i = ns ! j)"
proof -
  have start: "registry [] (new_logger p s)" by (simp add: registry_def new_logger_def)
  obtain names where names: "registry names lg" "set names = set ns" "length ks = length ns"
    "\<forall>i < length ns. find_subsystem (ns ! i) lg = Inr (ks ! i)"
    using register_all_registry [OF start _ assms(2)] assms(1) by auto
  have "ks ! i = ks ! j \<longleftrightarrow> ns ! i = ns ! j" if "i < length ns" "j < length ns" for i j
  proof
    assume eq: "ks ! i = ks ! j"
    have "ns ! i \<in> set names" "ns ! j \<in> set names" using names(2) that by auto
    then obtain a b where ab: "a < length names" "names ! a = ns ! i" "b < length names" "names ! b = ns ! j"
      by (metis in_set_conv_nth)
    have "ks ! i = of_nat a" "ks ! j = of_nat b"
      using registry_find(1) [OF names(1) ab(1)] registry_find(1) [OF names(1) ab(3)] names(4) that ab
      by auto
    moreover have "a < 2 ^ 32" "b < 2 ^ 32" using ab names(1) by (auto simp: registry_def)
    then have "unat (of_nat a :: 32 word) = a" "unat (of_nat b :: 32 word) = b" by (simp_all add: unat_of_nat)
    ultimately have "a = b" using eq by metis
    then show "ns ! i = ns ! j" using ab by simp
  next
    assume "ns ! i = ns ! j"
    then show "ks ! i = ks ! j" using names(4) that by (metis Inr_inject)
  qed
  then show ?thesis using names by blast
qed

theorem registrators_merge_by_name_witness:
  "\<exists>ks lg. register_all Finest [''a'', ''b'', ''a''] (new_logger 1 open_console) = (ks, lg) \<and> length ks = 3 \<and>
     (\<forall>i < 3. \<forall>j < 3. ks ! i = ks ! j \<longleftrightarrow> [''a'', ''b'', ''a''] ! i = [''a'', ''b'', ''a''] ! j)"
proof -
  obtain ks lg where run: "register_all Finest [''a'', ''b'', ''a''] (new_logger 1 open_console) = (ks, lg)"
    by fastforce
  then show ?thesis
    using registrators_merge_by_name [OF _ run] by simp
qed

subsection \<open>What reaches the queue\<close>

text \<open>
  The two filters in front of the queue, after any subsystem's threshold has been set: a
  message is put into the queue exactly when its level reaches the compile-time minimum and
  the threshold of its own subsystem, which is the level just set if it is that subsystem and
  its old one otherwise; it is put last, as an event with the message, time, function, level,
  id and name of the subsystem, and nothing else in the queue changes.
\<close>

theorem SuS_LOG_filter:
  assumes "set_subsystem_min_log_level k l lg = Inr lg1"
    and "map_find k' (lg_subsystems lg) = Some info" "lg_thread lg = Some t"
  shows "\<exists>lg2 t2. SuS_LOG minlevel function now v k' msg lg1 = Inr lg2 \<and> lg_thread lg2 = Some t2 \<and>
    lt_events t2 = lt_events t @
      (if minlevel \<le> v \<and> (if k' = k then l else si_min_level info) \<le> v
       then [\<lparr>le_level = v, le_subsystem = k', le_message = msg, le_time = now, le_function = function,
              le_subsystem_string = si_name info, le_time_string = []\<rparr>]
       else [])"
  using assms
  by (auto simp: set_subsystem_min_log_level_def SuS_LOG_def logger_log_def cmap.find_assign
      lt_enqueue_def Let_def not_less split: option.splits)

definition sample_logger :: "stdout_stream logger" where
  "sample_logger = snd (register_subsystem Finest ''sys'' (new_logger 1 open_console))"

theorem SuS_LOG_filter_witness:
  "\<exists>lg1 lg2 t2. set_subsystem_min_log_level 0 Warning sample_logger = Inr lg1 \<and>
     SuS_LOG Finest ''f'' 5 Severe 0 ''m'' lg1 = Inr lg2 \<and> lg_thread lg2 = Some t2 \<and> lt_events t2 \<noteq> []"
proof -
  have "\<exists>lg1. set_subsystem_min_log_level 0 Warning sample_logger = Inr lg1"
    and find: "map_find 0 (lg_subsystems sample_logger) = Some \<lparr>si_name = ''sys'', si_min_level = Finest\<rparr>"
    and thread: "lg_thread sample_logger = Some (new_log_thread 1 open_console)"
    by (simp_all add: sample_logger_def set_subsystem_min_log_level_def register_subsystem_def
        find_subsystem_def new_logger_def map_find_def Let_def)
  then obtain lg1 where "set_subsystem_min_log_level 0 Warning sample_logger = Inr lg1" by blast
  then show ?thesis
    using SuS_LOG_filter [OF _ find thread, of 0 Warning lg1 Finest "''f''" 5 Severe "''m''"]
    by (fastforce simp: level_order)
qed

subsection \<open>Using what has been deleted\<close>

text \<open>
  After the crash handler's \<^verbatim>\<open>terminate\<close> the logger must not be used: \<^verbatim>\<open>m_thread\<close> is
  null then, and any message that passes its filters follows it, as does every operation on
  the sinks.
\<close>

theorem log_after_terminate:
  assumes "logger_terminate fmt c rounds lg = Inr (True, lg1)"
    and "map_find k (lg_subsystems lg) = Some info" "minlevel \<le> l" "si_min_level info \<le> l"
  shows "SuS_LOG minlevel function now l k msg lg1 = Inl Null_deref \<and>
    set_min_log_level name l lg1 = Inl Null_deref \<and> remove_output_stream c name lg1 = Inl Null_deref \<and>
    add_output_stream c p name lg1 = Inl Null_deref"
proof -
  have "lg_thread lg1 = None" "lg_subsystems lg1 = lg_subsystems lg"
    using assms(1) by (auto simp: logger_terminate_def split: option.splits if_splits)
  then show ?thesis
    using assms by (simp add: SuS_LOG_def logger_log_def set_min_log_level_def remove_output_stream_def
        add_output_stream_def not_less)
qed

theorem log_after_terminate_witness:
  "\<exists>lg1. logger_terminate fmt_now stdout_class [(no_spawn_error, [], [])] sample_logger = Inr (True, lg1) \<and>
     SuS_LOG Finest ''f'' 5 Severe 0 ''m'' lg1 = Inl Null_deref"
proof -
  have "\<exists>lg1. logger_terminate fmt_now stdout_class [(no_spawn_error, [], [])] sample_logger = Inr (True, lg1)"
    by (simp add: logger_terminate_def sample_logger_def register_subsystem_def find_subsystem_def
        new_logger_def do_run_round_def new_log_thread_def lt_terminate_def destroy_log_thread_def delete_stream_def
        stdout_class_def Let_def)
  then obtain lg1 where lg1: "logger_terminate fmt_now stdout_class [(no_spawn_error, [], [])] sample_logger =
      Inr (True, lg1)" by blast
  have "map_find 0 (lg_subsystems sample_logger) = Some \<lparr>si_name = ''sys'', si_min_level = Finest\<rparr>"
    by (simp add: sample_logger_def register_subsystem_def find_subsystem_def new_logger_def map_find_def Let_def)
  from log_after_terminate [OF lg1 this] show ?thesis using lg1 by simp
qed

subsection \<open>Messages of the crash handler\<close>

text \<open>
  The debugger's report is logged line by line, however the pipe cuts it: the messages are
  the lines of the whole output (without their line feeds, an unfinished last line included),
  one log call each and in order. A failed \<^verbatim>\<open>pipe\<close> and a child that comes back from
  \<^verbatim>\<open>execl\<close> log nothing and report failure alike, so such a child goes on as a second
  copy of the crashed program.
\<close>

theorem gdb_backtrace_lines:
  "if gdb_pipe env \<and> \<not> gdb_in_child env
   then gdb_backtrace f env lg =
     bind_exn (log_each f (let ls = foldl split_step new_line_splitter (concat (gdb_chunks env))
         in m_sink ls @ (if m_active_line ls = [] then [] else [m_active_line ls])) lg)
       (\<lambda>lg1. Inr (gdb_status env = 0, lg1))
   else gdb_backtrace f env lg = Inr (False, lg)"
proof -
  have "foldl read_and_forward new_line_splitter (gdb_chunks env) =
      foldl split_step new_line_splitter (concat (gdb_chunks env))"
    by (simp add: splitter.feed_chunks splitter.feed_steps)
  then show ?thesis
    by (auto simp: gdb_backtrace_def destroy_line_splitter_def Let_def)
qed

subsection \<open>Formatting\<close>

lemma string_format_loop_done:
  assumes "fst (vsn sz) = int (length s)" "int (length s) < sz" "take (length s) (snd (vsn sz)) = s"
  shows "string_format_loop vsn sz = Inr s"
proof -
  obtain str where "vsn sz = (int (length s), str)" "take (length s) str = s"
    using assms by (metis prod.collapse)
  then show ?thesis using assms(2) by (simp add: string_format_loop.simps [of vsn sz])
qed

lemma string_format_loop_total:
  assumes "4 * int (length s) < int_limit"
    and "\<forall>n. int (length s) < n \<longrightarrow> fst (vsn n) = int (length s) \<and> take (length s) (snd (vsn n)) = s"
    and "\<forall>n \<le> int (length s). fst (vsn n) = (if modern then int (length s) else -1)"
    and "100 \<le> n"
  shows "string_format_loop vsn n = Inr s"
  using assms(4)
proof (induction "nat (int (length s) + 1 - n)" arbitrary: n rule: less_induct)
  case less
  show ?case
  proof (cases "int (length s) < n")
    case True
    then show ?thesis using string_format_loop_done assms(2) by simp
  next
    case False
    obtain str where vsn: "vsn n = (if modern then int (length s) else -1, str)"
      using assms(3) False by (metis not_less prod.collapse)
    show ?thesis
    proof (cases modern)
      case True
      have "string_format_loop vsn (int (length s) + 1) = Inr s"
        using string_format_loop_done assms(2) by simp
      then show ?thesis
        using vsn True False assms(1) less.prems by (simp add: string_format_loop.simps [of vsn n] Let_def)
    next
      case old: False
      have "string_format_loop vsn (n * 2) = Inr s"
        using less.hyps [of "n * 2"] less.prems False by simp
      then show ?thesis
        using vsn old False assms(1) less.prems by (simp add: string_format_loop.simps [of vsn n] Let_def)
    qed
  qed
qed

text \<open>
  C38. \<^verbatim>\<open>string_format\<close> returns the whole text for both conventions of \<^verbatim>\<open>vsnprintf\<close>: the
  C99 one, which returns the full length when the buffer is too small, and the older one,
  which returns -1 then; for texts up to a quarter of the largest \<^verbatim>\<open>int\<close>. (The
  hypotheses say what the library call returns for the text \<open>s\<close>.)
\<close>

theorem string_format_complete:
  assumes "4 * int (length s) < int_limit"
    and "\<forall>n. int (length s) < n \<longrightarrow> fst (vsn n) = int (length s) \<and> take (length s) (snd (vsn n)) = s"
    and "\<forall>n \<le> int (length s). fst (vsn n) = (if modern then int (length s) else -1)"
  shows "string_format vsn = Inr s"
  unfolding string_format_def by (rule string_format_loop_total [OF assms]) simp

theorem string_format_complete_witness:
  "string_format (\<lambda>n. (if 150 < n then 150 else -1, replicate 150 (CHR ''x''))) = Inr (replicate 150 (CHR ''x''))"
  by (rule string_format_complete [where modern = False]) (simp_all add: int_limit_def)

end
