(* ===== verification/Application.thy ===== *)
theory Application
  imports Logger
begin

section \<open>From a log call to the console (logger.h, logger.cpp, log_thread.cpp, output_stream_stdout.cpp)\<close>

text \<open>
  An application's log calls, made one after the other through \<^verbatim>\<open>SuS_LOG\<close>, the round of
  the log thread that follows them, and the text that is on the console then: the composition
  of the logger, the log thread, the base class of the sinks and the console.
\<close>

record log_call =
  lc_level :: log_level
  lc_subsystem :: "32 word"
  lc_message :: string
  lc_function :: string
  lc_time :: time_point

fun log_calls :: "log_level \<Rightarrow> log_call list \<Rightarrow> 's logger \<Rightarrow> 's logger throws" where
  "log_calls minlevel [] lg = Inr lg"
| "log_calls minlevel (lc # lcs) lg =
     bind_exn (SuS_LOG minlevel (lc_function lc) (lc_time lc) (lc_level lc) (lc_subsystem lc) (lc_message lc) lg)
       (log_calls minlevel lcs)"

text \<open>The specification of the two filters and of the event that passes them.\<close>

definition call_event :: "log_level \<Rightarrow> 's logger \<Rightarrow> log_call \<Rightarrow> log_event list" where
  "call_event minlevel lg lc =
     (case map_find (lc_subsystem lc) (lg_subsystems lg) of
        None \<Rightarrow> []
      | Some info \<Rightarrow>
          if minlevel \<le> lc_level lc \<and> si_min_level info \<le> lc_level lc
          then [\<lparr>le_level = lc_level lc, le_subsystem = lc_subsystem lc, le_message = lc_message lc,
                 le_time = lc_time lc, le_function = lc_function lc, le_subsystem_string = si_name info,
                 le_time_string = []\<rparr>]
          else [])"

definition call_known :: "'s logger \<Rightarrow> log_call \<Rightarrow> bool" where
  "call_known lg lc \<longleftrightarrow> map_find (lc_subsystem lc) (lg_subsystems lg) \<noteq> None"

lemma log_call_enqueues:
  assumes "call_known lg lc" "lg_thread lg = Some t"
  shows "\<exists>t1. SuS_LOG minlevel (lc_function lc) (lc_time lc) (lc_level lc) (lc_subsystem lc) (lc_message lc) lg =
      Inr (lg\<lparr>lg_thread := Some t1\<rparr>) \<and> t1 = fold lt_enqueue (call_event minlevel lg lc) t"
  using assms
  by (cases lg) (auto simp: SuS_LOG_def logger_log_def call_event_def call_known_def Let_def not_less not_le)

lemma fold_lt_enqueue:
  "lt_events (fold lt_enqueue es t) = lt_events t @ es \<and> lt_streams (fold lt_enqueue es t) = lt_streams t \<and>
   lt_retry_map (fold lt_enqueue es t) = lt_retry_map t \<and> lt_heap (fold lt_enqueue es t) = lt_heap t \<and>
   lt_do_terminate (fold lt_enqueue es t) = lt_do_terminate t"
  by (induction es arbitrary: t) (simp_all add: lt_enqueue_def Let_def)

lemma log_calls_enqueue:
  assumes "\<forall>lc \<in> set lcs. call_known lg lc" "lg_thread lg = Some t"
  shows "log_calls minlevel lcs lg =
    Inr (lg\<lparr>lg_thread := Some (fold lt_enqueue (concat (map (call_event minlevel lg) lcs)) t)\<rparr>)"
  using assms
proof (induction lcs arbitrary: lg t)
  case (Cons lc lcs)
  obtain t1 where t1: "SuS_LOG minlevel (lc_function lc) (lc_time lc) (lc_level lc) (lc_subsystem lc) (lc_message lc) lg =
      Inr (lg\<lparr>lg_thread := Some t1\<rparr>)" "t1 = fold lt_enqueue (call_event minlevel lg lc) t"
    using log_call_enqueues [of lg lc t] Cons.prems by auto
  have same: "call_event minlevel (lg\<lparr>lg_thread := x\<rparr>) = call_event minlevel lg" for x
    by (simp add: call_event_def fun_eq_iff)
  have "\<forall>lc \<in> set lcs. call_known (lg\<lparr>lg_thread := Some t1\<rparr>) lc"
    using Cons.prems(1) by (simp add: call_known_def)
  then show ?case using t1 Cons.IH [of "lg\<lparr>lg_thread := Some t1\<rparr>" t1] by (simp add: same)
qed simp

text \<open>Delivering takes nothing from the event queue and leaves the request to terminate alone.\<close>

definition lt_input :: "'s log_thread \<Rightarrow> log_event list \<times> bool" where
  "lt_input t = (lt_events t, lt_do_terminate t)"

lemma write_direct_input: "write_direct c spawn e p t = Inr t' \<Longrightarrow> lt_input t' = lt_input t"
  by (auto simp: lt_input_def write_direct_def Let_def split: option.splits prod.splits if_splits)

lemma log_stream_input: "log_stream c spawn e p t = Inr t' \<Longrightarrow> lt_input t' = lt_input t"
  by (auto simp: log_stream_def lt_input_def [of "lt_retry_map_update x t" for x] dest!: write_direct_input
      split: option.splits if_splits) (simp_all add: lt_input_def)

lemma log_streams_input: "log_streams c spawn e xs t = Inr t' \<Longrightarrow> lt_input t' = lt_input t"
proof (induction c spawn e xs t rule: log_streams.induct)
  case (2 c spawn e name p xs t)
  then obtain t1 where "log_stream c spawn e p t = Inr t1" "log_streams c spawn e xs t1 = Inr t'" by auto
  then show ?case using "2.IH" log_stream_input by metis
qed simp

lemma log_all_input: "log_all fmt c spawn es t = Inr t' \<Longrightarrow> lt_input t' = lt_input t"
proof (induction fmt c spawn es t rule: log_all.induct)
  case (2 fmt c spawn e es t)
  then obtain t1 where t1: "lt_log fmt c spawn e t = Inr t1" "log_all fmt c spawn es t1 = Inr t'" by auto
  then have "lt_input t1 = lt_input t" by (auto simp: lt_log_def dest: log_streams_input split: option.splits)
  then show ?case using "2.IH" t1 by metis
qed simp

subsection \<open>A console that takes everything\<close>

definition console_open :: "stdout_stream output_stream \<Rightarrow> bool" where
  "console_open s \<longleftrightarrow> ostr_good (so_stream (os_derived s)) \<and> ostr_room (so_stream (os_derived s)) = None"

definition console_text :: "stdout_stream output_stream \<Rightarrow> string" where
  "console_text s = ostr_text (so_stream (os_derived s))"

lemma console_open_write:
  assumes "console_open s"
  shows "\<exists>s'. os_write stdout_do_write s e = (True, s') \<and> console_open s' \<and>
    console_text s' = console_text s @ (if os_min_level s \<le> le_level e then stdout_line (os_derived s) e else []) \<and>
    os_min_level s' = os_min_level s \<and> stdout_line (os_derived s') = stdout_line (os_derived s)"
proof -
  have "fst (os_write stdout_do_write s e)" "console_open (snd (os_write stdout_do_write s e))"
    using assms by (auto simp: os_write_def stdout_do_write_def console_open_def ostr_put_def Let_def)
  moreover obtain ok s' where w: "os_write stdout_do_write s e = (ok, s')" by fastforce
  ultimately have ok: "os_write stdout_do_write s e = (True, s')" and "console_open s'" by simp_all
  then show ?thesis
    using stdout.os_write_written [OF ok] by (auto simp: console_text_def not_less)
qed

lemma console_open_takes_all:
  assumes "console_open s"
  shows "\<exists>s'. fold (sink_log (os_write stdout_do_write) True) es (s, []) = (s', []) \<and>
    console_text s' = console_text s @
      concat (map (stdout_line (os_derived s)) (filter (\<lambda>e. os_min_level s \<le> le_level e) es))"
  using assms
proof (induction es arbitrary: s)
  case (Cons e es)
  obtain s1 where s1: "os_write stdout_do_write s e = (True, s1)" "console_open s1"
    "console_text s1 = console_text s @ (if os_min_level s \<le> le_level e then stdout_line (os_derived s) e else [])"
    "os_min_level s1 = os_min_level s" "stdout_line (os_derived s1) = stdout_line (os_derived s)"
    using console_open_write [OF Cons.prems] by blast
  then have "sink_log (os_write stdout_do_write) True e (s, []) = (s1, [])" by (simp add: sink_log_def)
  then show ?case using Cons.IH [OF s1(2)] s1(3-5) by auto
qed simp

text \<open>
  C1. What an application logs is what its user reads: after any sequence of log calls to
  registered subsystems, one undisturbed round of the log thread leaves on an open console,
  behind what was there, the lines of exactly those calls whose level reaches the compile-time
  minimum, the threshold of their subsystem and the threshold of the console, in the order of
  the calls; the thread then waits with an empty queue.
\<close>

theorem log_calls_reach_console:
  assumes "\<forall>lc \<in> set lcs. call_known lg lc \<and> fmt (lc_time lc) \<noteq> None"
    and "lg_thread lg = Some t" "lt_events t = []" "\<not> lt_do_terminate t" "lt_wf t" "\<forall>e p. spawn e p = None"
    and "p \<in> set (map snd (lt_streams t))" "lt_heap t p = Some s" "console_open s" "retry_queue t p = []"
  shows "\<exists>lg' t' t'' s'. log_calls minlevel lcs lg = Inr lg' \<and> lg_thread lg' = Some t' \<and>
    do_run_round fmt stdout_class spawn [] [] t' = Inr (Wait, t'') \<and> lt_events t'' = [] \<and>
    lt_heap t'' p = Some s' \<and> retry_queue t'' p = [] \<and>
    console_text s' = console_text s @
      concat (map (stdout_line (os_derived s) \<circ> stamp fmt)
        (filter (\<lambda>e. os_min_level s \<le> le_level e) (concat (map (call_event minlevel lg) lcs))))"
proof -
  let ?es = "concat (map (call_event minlevel lg) lcs)"
  let ?t = "fold lt_enqueue ?es t"
  have start: "lt_wf (?t\<lparr>lt_events := []\<rparr>)" "sink_view (?t\<lparr>lt_events := []\<rparr>) p = Some (s, [])"
    using assms(5,8,10) by (simp_all add: lt_wf_def fold_lt_enqueue sink_view_def retry_queue_def)
  have "\<forall>e \<in> set ?es. fmt (le_time e) \<noteq> None"
    using assms(1) by (auto simp: call_event_def split: option.splits if_splits)
  then obtain t1 where t1: "log_all fmt stdout_class spawn ?es (?t\<lparr>lt_events := []\<rparr>) = Inr t1"
    "sink_view t1 p = Some (fold (sink_log (os_write stdout_do_write) True) (map (stamp fmt) ?es) (s, []))"
    using log_all_view [OF start(1), of ?es fmt spawn stdout_class] assms(6,7) start(2)
    by (auto simp: fold_lt_enqueue stdout_class_def)
  obtain s' where s': "fold (sink_log (os_write stdout_do_write) True) (map (stamp fmt) ?es) (s, []) = (s', [])"
    "console_text s' = console_text s @ concat (map (stdout_line (os_derived s))
       (filter (\<lambda>e. os_min_level s \<le> le_level e) (map (stamp fmt) ?es)))"
    using console_open_takes_all [OF assms(9)] by blast
  have level: "le_level (stamp fmt e) = le_level e" for e by (simp add: stamp_def split: option.split)
  have idle: "lt_events t1 = []" "\<not> lt_do_terminate t1"
    using log_all_input [OF t1(1)] assms(4) by (simp_all add: fold_lt_enqueue lt_input_def)
  have "do_run_round fmt stdout_class spawn [] [] ?t = Inr (Wait, t1)"
    using t1(1) idle assms(3) by (simp add: do_run_round_def fold_lt_enqueue)
  moreover have "log_calls minlevel lcs lg = Inr (lg\<lparr>lg_thread := Some ?t\<rparr>)"
    using log_calls_enqueue assms(1,2) by blast
  moreover have "lt_heap t1 p = Some s'" "retry_queue t1 p = []"
    using t1(2) s'(1) by (auto simp: sink_view_def)
  ultimately show ?thesis
    using idle(1) s'(2) by (simp add: filter_map comp_def level)
qed

theorem log_calls_reach_console_witness:
  "\<exists>lg' t' t'' s'. log_calls Fine
      [\<lparr>lc_level = Finer, lc_subsystem = 0, lc_message = ''a'', lc_function = ''f'', lc_time = 5\<rparr>,
       \<lparr>lc_level = Severe, lc_subsystem = 0, lc_message = ''b'', lc_function = ''f'', lc_time = 6\<rparr>] sample_logger = Inr lg' \<and>
     lg_thread lg' = Some t' \<and> do_run_round fmt_now stdout_class no_spawn_error [] [] t' = Inr (Wait, t'') \<and>
     lt_heap t'' 1 = Some s' \<and>
     console_text s' = stdout_line (os_derived open_console) (sample_event Severe ''b'' 6)"
proof -
  let ?lcs = "[\<lparr>lc_level = Finer, lc_subsystem = 0, lc_message = ''a'', lc_function = ''f'', lc_time = 5\<rparr>,
    \<lparr>lc_level = Severe, lc_subsystem = 0, lc_message = ''b'', lc_function = ''f'', lc_time = 6\<rparr>]"
  have lg: "map_find 0 (lg_subsystems sample_logger) = Some \<lparr>si_name = ''sys'', si_min_level = Finest\<rparr>"
    "lg_thread sample_logger = Some (new_log_thread 1 open_console)"
    by (simp_all add: sample_logger_def register_subsystem_def find_subsystem_def new_logger_def map_find_def Let_def)
  have known: "\<forall>lc \<in> set ?lcs. call_known sample_logger lc \<and> fmt_now (lc_time lc) \<noteq> None"
    by (simp add: call_known_def lg(1) fmt_now_def)
  have console: "console_open open_console" "console_text open_console = []" "os_min_level open_console = Finest"
    by (simp_all add: console_open_def console_text_def open_console_def)
  have t: "lt_wf (new_log_thread 1 open_console)" "retry_queue (new_log_thread 1 open_console) 1 = []"
    by (simp_all add: lt_wf_def new_log_thread_def retry_queue_def map_wf_def)
  have out: "concat (map (stdout_line (os_derived open_console) \<circ> stamp fmt_now)
        (filter (\<lambda>e. os_min_level open_console \<le> le_level e) (concat (map (call_event Fine sample_logger) ?lcs)))) =
      stdout_line (os_derived open_console) (sample_event Severe ''b'' 6)"
    by (simp add: call_event_def lg(1) level_order stamp_def fmt_now_def console(3) stdout_line_def sample_event_def)
  show ?thesis
    using log_calls_reach_console [OF known lg(2), of no_spawn_error 1 open_console Fine] t console(1,2) out
    by (simp add: no_spawn_error_def new_log_thread_def) metis
qed

subsection \<open>Termination with working sinks\<close>

definition consoles_open :: "stdout_stream log_thread \<Rightarrow> bool" where
  "consoles_open t \<longleftrightarrow> lt_retry_map t = [] \<and>
     (\<forall>p \<in> set (map snd (lt_streams t)). \<exists>s. lt_heap t p = Some s \<and> console_open s)"

lemma consoles_open_log_stream:
  assumes "consoles_open t" "p \<in> set (map snd (lt_streams t))"
  shows "\<exists>t'. log_stream stdout_class spawn e p t = Inr t' \<and> consoles_open t' \<and> lt_streams t' = lt_streams t"
proof -
  obtain s where s: "lt_heap t p = Some s" "console_open s" using assms by (auto simp: consoles_open_def)
  obtain s' where "os_write stdout_do_write s e = (True, s')" "console_open s'"
    using console_open_write [OF s(2)] by blast
  then show ?thesis
    using assms s(1) by (auto simp: log_stream_def write_direct_def stdout_class_def consoles_open_def map_find_def)
qed

lemma consoles_open_log_streams:
  assumes "consoles_open t" "set (map snd xs) \<subseteq> set (map snd (lt_streams t))"
  shows "\<exists>t'. log_streams stdout_class spawn e xs t = Inr t' \<and> consoles_open t' \<and> lt_streams t' = lt_streams t"
  using assms
proof (induction xs arbitrary: t)
  case (Cons x xs)
  obtain name p where x: "x = (name, p)" by fastforce
  obtain t1 where "log_stream stdout_class spawn e p t = Inr t1" "consoles_open t1" "lt_streams t1 = lt_streams t"
    using consoles_open_log_stream [OF Cons.prems(1), of p spawn e] Cons.prems(2) x by auto
  then show ?case using Cons.IH [of t1] Cons.prems(2) x by auto
qed simp

lemma consoles_open_log_all:
  assumes "consoles_open t" "\<forall>e \<in> set es. fmt (le_time e) \<noteq> None"
  shows "\<exists>t'. log_all fmt stdout_class spawn es t = Inr t' \<and> consoles_open t' \<and> lt_streams t' = lt_streams t"
  using assms
proof (induction es arbitrary: t)
  case (Cons e es)
  obtain ts where ts: "fmt (le_time e) = Some ts" using Cons.prems(2) by auto
  obtain t1 where "lt_log fmt stdout_class spawn e t = Inr t1" "consoles_open t1" "lt_streams t1 = lt_streams t"
    using consoles_open_log_streams [OF Cons.prems(1), of "lt_streams t" spawn] ts by (auto simp: lt_log_def)
  then show ?case using Cons.IH [of t1] Cons.prems(2) by auto
qed simp

text \<open>
  Deleting sinks that are all there: the end is that of the destructors, if no two of them end
  the program in different ways.
\<close>

lemma delete_streams_ends:
  assumes "distinct (map snd xs)" "\<forall>p \<in> set (map snd xs). \<exists>s. lt_heap t p = Some s \<and>
      (vt_destroy c (os_derived s) = Inl e \<or> (\<exists>d. vt_destroy c (os_derived s) = Inr d))"
  shows "if \<exists>p \<in> set (map snd xs). \<exists>s. lt_heap t p = Some s \<and> vt_destroy c (os_derived s) = Inl e
    then delete_streams c xs t = Inl e else \<exists>t'. delete_streams c xs t = Inr t'"
  using assms
proof (induction xs arbitrary: t)
  case (Cons x xs)
  obtain name p where x: "x = (name, p)" by fastforce
  obtain s where s: "lt_heap t p = Some s" using Cons.prems(2) x by auto
  show ?case
  proof (cases "vt_destroy c (os_derived s)")
    case (Inl e')
    then show ?thesis using s x Cons.prems(2) by (auto simp: delete_stream_def)
  next
    case (Inr d)
    let ?t = "t\<lparr>lt_heap := (lt_heap t)(p := None), lt_deleted := lt_deleted t @ [(p, d)]\<rparr>"
    have other: "lt_heap ?t q = lt_heap t q" if "q \<in> set (map snd xs)" for q
      using Cons.prems(1) x that by auto
    then have "if \<exists>p \<in> set (map snd xs). \<exists>s. lt_heap t p = Some s \<and> vt_destroy c (os_derived s) = Inl e
        then delete_streams c xs ?t = Inl e else \<exists>t'. delete_streams c xs ?t = Inr t'"
      using Cons.IH [of ?t] Cons.prems by simp
    then show ?thesis using s x Inr by (simp add: delete_stream_def)
  qed
qed simp

text \<open>
  Terminating loses nothing that is still queued, when the sinks work: with every sink an
  open console and no retry thread left over, one round of the main loop is enough to write
  all events in the queue, each to every sink whose threshold it reaches and in order, and to
  return; \<^verbatim>\<open>terminate\<close> then ends and leaves the logger without a thread.
\<close>

theorem terminate_writes_queue:
  assumes "lg_thread lg = Some t" "lt_wf t" "consoles_open t" "\<forall>e \<in> set (lt_events t). fmt (le_time e) \<noteq> None"
    and "\<forall>e p. spawn e p = None"
  shows "\<exists>t'. do_run fmt stdout_class [(spawn, [], [])] (lt_terminate t) = Inr (True, t') \<and>
    (\<forall>p \<in> set (map snd (lt_streams t)). \<exists>s s'. lt_heap t p = Some s \<and> lt_heap t' p = Some s' \<and>
       console_text s' = console_text s @
         concat (map (stdout_line (os_derived s) \<circ> stamp fmt)
           (filter (\<lambda>e. os_min_level s \<le> le_level e) (lt_events t)))) \<and>
    logger_terminate fmt stdout_class [(spawn, [], [])] lg = Inr (True, lg\<lparr>lg_thread := None\<rparr>)"
proof -
  let ?es = "lt_events t"
  let ?t = "(lt_terminate t)\<lparr>lt_events := []\<rparr>"
  have start: "lt_wf ?t" "consoles_open ?t" "lt_streams ?t = lt_streams t"
    using assms(2,3) by (simp_all add: lt_wf_def consoles_open_def lt_terminate_def)
  obtain t1 where t1: "log_all fmt stdout_class spawn ?es ?t = Inr t1" "consoles_open t1"
    using consoles_open_log_all [OF start(2) assms(4)] by blast
  have view: "lt_wf t1 \<and> lt_streams t1 = lt_streams ?t \<and> (\<forall>p \<in> set (map snd (lt_streams t)). sink_view t1 p =
      map_option (fold (sink_log (os_write stdout_do_write) True) (map (stamp fmt) ?es)) (sink_view ?t p))"
    using log_all_view [OF start(1) assms(4,5), of stdout_class] t1(1) start(3) by (auto simp: stdout_class_def)
  have level: "le_level (stamp fmt e) = le_level e" for e by (simp add: stamp_def split: option.split)
  have texts: "\<exists>s s'. lt_heap t p = Some s \<and> lt_heap t1 p = Some s' \<and> console_text s' = console_text s @
      concat (map (stdout_line (os_derived s) \<circ> stamp fmt) (filter (\<lambda>e. os_min_level s \<le> le_level e) ?es))"
    if p: "p \<in> set (map snd (lt_streams t))" for p
  proof -
    obtain s where s: "lt_heap t p = Some s" "console_open s" using assms(3) p by (auto simp: consoles_open_def)
    then have "sink_view ?t p = Some (s, [])"
      using assms(3) by (simp add: sink_view_def lt_terminate_def retry_queue_def consoles_open_def map_find_def)
    then show ?thesis
      using view p console_open_takes_all [OF s(2), of "map (stamp fmt) ?es"] s(1)
      by (auto simp: sink_view_def filter_map comp_def level)
  qed
  have idle: "lt_events t1 = []" "lt_do_terminate t1"
    using log_all_input [OF t1(1)] by (simp_all add: lt_input_def lt_terminate_def)
  have "t1\<lparr>lt_retry_map := []\<rparr> = t1" using t1(2) by (simp add: consoles_open_def)
  then have run: "do_run fmt stdout_class [(spawn, [], [])] (lt_terminate t) = Inr (True, t1)"
    using t1 idle by (simp add: do_run_round_def lt_terminate_def consoles_open_def)
  moreover obtain t2 where "destroy_log_thread stdout_class t1 = Inr t2"
    using delete_streams_ends [of "lt_streams t1" t1 stdout_class Std_terminate] view t1(2)
    by (fastforce simp: destroy_log_thread_def lt_wf_def stdout_class_def consoles_open_def)
  ultimately have "logger_terminate fmt stdout_class [(spawn, [], [])] lg = Inr (True, lg\<lparr>lg_thread := None\<rparr>)"
    using assms(1) by (simp add: logger_terminate_def del: do_run.simps)
  then show ?thesis using run texts by blast
qed

theorem terminate_writes_queue_witness:
  "\<exists>t' s'. do_run fmt_now stdout_class [(no_spawn_error, [], [])]
      (lt_terminate (lt_enqueue (sample_event Severe ''b'' 6) (new_log_thread 1 open_console))) = Inr (True, t') \<and>
     lt_heap t' 1 = Some s' \<and> console_text s' = stdout_line (os_derived open_console) (sample_event Severe ''b'' 6)"
proof -
  let ?t = "lt_enqueue (sample_event Severe ''b'' 6) (new_log_thread 1 open_console)"
  let ?lg = "sample_logger\<lparr>lg_thread := Some ?t\<rparr>"
  have t: "lg_thread ?lg = Some ?t" "lt_wf ?t" "consoles_open ?t"
    by (simp_all add: lt_enqueue_def lt_wf_def new_log_thread_def map_wf_def consoles_open_def console_open_def
        open_console_def)
  have out: "lt_events ?t = [sample_event Severe ''b'' 6]" "lt_streams ?t = [(''stdout'', 1)]"
    "lt_heap ?t 1 = Some open_console"
    by (simp_all add: lt_enqueue_def new_log_thread_def)
  have line: "concat (map (stdout_line (os_derived open_console) \<circ> stamp fmt_now)
      (filter (\<lambda>e. os_min_level open_console \<le> le_level e) [sample_event Severe ''b'' 6])) =
    stdout_line (os_derived open_console) (sample_event Severe ''b'' 6)" "console_text open_console = []"
    by (simp_all add: stamp_def fmt_now_def sample_event_def open_console_def console_text_def)
  have "\<forall>e \<in> set (lt_events ?t). fmt_now (le_time e) \<noteq> None" by (simp add: fmt_now_def)
  moreover have "\<forall>e p. no_spawn_error e p = None" by (simp add: no_spawn_error_def)
  ultimately obtain t' where run: "do_run fmt_now stdout_class [(no_spawn_error, [], [])] (lt_terminate ?t) = Inr (True, t')"
    and all: "\<forall>p \<in> set (map snd (lt_streams ?t)). \<exists>s s'. lt_heap ?t p = Some s \<and> lt_heap t' p = Some s' \<and>
       console_text s' = console_text s @ concat (map (stdout_line (os_derived s) \<circ> stamp fmt_now)
         (filter (\<lambda>e. os_min_level s \<le> le_level e) (lt_events ?t)))"
    using terminate_writes_queue [OF t] by blast
  have "1 \<in> set (map snd (lt_streams ?t))" unfolding out(2) by simp
  from bspec [OF all this] obtain s' where "lt_heap t' 1 = Some s'"
    "console_text s' = stdout_line (os_derived open_console) (sample_event Severe ''b'' 6)"
    unfolding out(1,3) using line by auto
  then show ?thesis using run by blast
qed

end
