(* ===== verification/Stomp_Text.thy ===== *)
theory Stomp_Text
  imports Log_Event
begin

section \<open>Text for the message server (output_stream_stomp.cpp)\<close>

text \<open>
  \<^verbatim>\<open>replace_all\<close> and \<^verbatim>\<open>sanitize_string\<close>, the XML quoting of everything the sink sends,
  and the level names it uses.
\<close>

subsection \<open>replace\_all\<close>

text \<open>
  The loop may run for ever (see below), so it is a partial function: \<open>None\<close> is a loop that
  does not end.
\<close>

partial_function (option) replace_all_loop :: "string \<Rightarrow> string \<Rightarrow> string \<Rightarrow> nat \<Rightarrow> string option" where
  "replace_all_loop pat new str pos =
     (case str_find pat str pos of
        None \<Rightarrow> Some str
      | Some i \<Rightarrow> replace_all_loop pat new (take i str @ new @ drop (i + length pat) str) (i + length new))"

definition replace_all :: "string \<Rightarrow> string \<Rightarrow> string \<Rightarrow> string option" where
  "replace_all str pat new = replace_all_loop pat new str 0"

text \<open>For a pattern that is not empty the loop ends: what is left to search shrinks.\<close>

lemma replace_all_loop_returns:
  "pat \<noteq> [] \<Longrightarrow> \<exists>r. replace_all_loop pat new str pos = Some r"
proof (induction "length str - pos" arbitrary: str pos rule: less_induct)
  case less
  show ?case
  proof (cases "str_find pat str pos")
    case None
    then show ?thesis by (simp add: replace_all_loop.simps [of pat new str pos])
  next
    case (Some i)
    let ?str = "take i str @ new @ drop (i + length pat) str"
    have bounds: "pos \<le> i" "i + length pat \<le> length str" using str_find_bounds [OF Some] by auto
    have "0 < length pat" using less.prems by simp
    then have "i + length pat > pos" "i + length pat \<le> length str" using bounds less.prems by (cases pat; auto)+
    then have "length ?str - (i + length new) < length str - pos" using bounds by simp
    from less.hyps [OF this less.prems] show ?thesis
      using Some by (simp add: replace_all_loop.simps [of pat new str pos])
  qed
qed

lemma find_empty: "pos \<le> length str \<Longrightarrow> str_find [] str pos = Some pos"
  by (cases "drop pos str") (simp_all add: str_find_def)

text \<open>An empty pattern is found everywhere, and the search never gets to the end.\<close>

lemma replace_all_loop_empty:
  "replace_all_loop pat new str pos = Some r \<Longrightarrow> pat = [] \<longrightarrow> \<not> pos \<le> length str"
proof (erule replace_all_loop.raw_induct [where P = "\<lambda>pat new str pos r. pat = [] \<longrightarrow> \<not> pos \<le> length str", rotated])
  fix loop :: "string \<Rightarrow> string \<Rightarrow> string \<Rightarrow> nat \<Rightarrow> string option" and pat new str pos r
  assume IH: "\<And>new str pos b y. loop new str pos b = Some y \<Longrightarrow> new = [] \<longrightarrow> \<not> b \<le> length pos"
    and step: "(case str_find pat str pos of None \<Rightarrow> Some str
      | Some i \<Rightarrow> loop pat new (take i str @ new @ drop (i + length pat) str) (i + length new)) = Some r"
  show "pat = [] \<longrightarrow> \<not> pos \<le> length str"
  proof (intro impI notI)
    assume empty: "pat = []" "pos \<le> length str"
    then have "loop [] new (take pos str @ new @ drop pos str) (pos + length new) = Some r"
      using step by (simp add: find_empty)
    from IH [OF this] show False using empty by simp
  qed
qed

text \<open>
  C33. \<^verbatim>\<open>replace_all\<close> returns exactly for the patterns that are not empty; for an empty
  pattern its loop never ends.
\<close>

theorem replace_all_returns_iff: "(\<exists>r. replace_all str pat new = Some r) \<longleftrightarrow> pat \<noteq> []"
  using replace_all_loop_returns [of pat new str 0] replace_all_loop_empty [of pat new str 0]
  by (auto simp: replace_all_def)

lemma replace_all_loop_char:
  "replace_all_loop [c] new (a @ s) (length a) =
     Some (a @ concat (map (\<lambda>x. if x = c then new else [x]) s))"
proof (induction "length s" arbitrary: a s rule: less_induct)
  case less
  show ?case
  proof (cases "c \<in> set s")
    case False
    then have "find_pat [c] s = None" by (simp add: find_pat_char_None)
    moreover have "concat (map (\<lambda>x. if x = c then new else [x]) s) = s"
      using False by (induction s) auto
    ultimately show ?thesis
      by (simp add: replace_all_loop.simps [of "[c]" new] str_find_def)
  next
    case True
    then obtain x y where xy: "s = x @ c # y" "c \<notin> set x" by (meson split_list_first)
    then have find: "str_find [c] (a @ s) (length a) = Some (length a + length x)"
      by (simp add: str_find_def cstr_simps)
    have next_str: "take (length a + length x) (a @ s) @ new @ drop (length a + length x + 1) (a @ s) =
        (a @ x @ new) @ y"
      using xy by simp
    have "concat (map (\<lambda>z. if z = c then new else [z]) x) = x"
      using xy(2) by (induction x) auto
    moreover have "length y < length s" using xy by simp
    ultimately show ?thesis
      using less(1) [of y "a @ x @ new"] xy find next_str
      by (simp add: replace_all_loop.simps [of "[c]" new "a @ x @ c # y"] add.commute add.left_commute)
  qed
qed

lemma replace_all_char:
  "replace_all s [c] new = Some (concat (map (\<lambda>x. if x = c then new else [x]) s))"
  using replace_all_loop_char [of c new "[]" s] by (simp add: replace_all_def)

subsection \<open>sanitize\_string\<close>

text \<open>
  The map of replacements has addresses of literals as its keys, so the order of its entries
  is that of the addresses, whatever it is: an argument of the model.
\<close>

definition replacements :: "(string \<times> string) list" where
  "replacements = [([dquote], ''&quot;''), ([squote], ''&apos;''), (''<'', ''&lt;''), (''>'', ''&gt;'')]"

fun replace_each :: "(string \<times> string) list \<Rightarrow> string \<Rightarrow> string option" where
  "replace_each [] cur = Some cur"
| "replace_each ((pat, new) # rs) cur =
     (case replace_all cur pat new of None \<Rightarrow> None | Some cur' \<Rightarrow> replace_each rs cur')"

definition sanitize_string :: "(string \<times> string) list \<Rightarrow> string \<Rightarrow> string option" where
  "sanitize_string order dat =
     (case replace_all dat ''&'' ''&amp;'' of
        None \<Rightarrow> None
      | Some cur \<Rightarrow>
          (case replace_each order cur of
             None \<Rightarrow> None
           | Some cur' \<Rightarrow> replace_all cur' [nul] [CHR 0x5C, CHR ''0'']))"

text \<open>What each character becomes.\<close>

definition xml_char :: "char \<Rightarrow> string" where
  "xml_char c =
     (if c = CHR ''&'' then ''&amp;'' else if c = dquote then ''&quot;'' else if c = squote then ''&apos;''
      else if c = CHR ''<'' then ''&lt;'' else if c = CHR ''>'' then ''&gt;''
      else if c = nul then [CHR 0x5C, CHR ''0''] else [c])"

text \<open>What a character has become when the patterns in \<open>D\<close> have been replaced.\<close>

definition quoted :: "string set \<Rightarrow> char \<Rightarrow> string" where
  "quoted D c = (if c = CHR ''&'' then ''&amp;'' else if [c] \<in> D \<and> c \<noteq> nul then xml_char c else [c])"

lemma xml_char_plain:
  assumes "c \<in> {nul, dquote, squote, CHR ''<'', CHR ''>''}"
  shows "c \<notin> set (xml_char x)"
proof -
  consider "x = CHR ''&''" | "x = dquote" | "x = squote" | "x = CHR ''<''" | "x = CHR ''>''" | "x = nul"
    | "x \<noteq> CHR ''&''" "x \<notin> {nul, dquote, squote, CHR ''<'', CHR ''>''}"
    by blast
  then show ?thesis
  proof cases
    case 7
    then have "xml_char x = [x]" by (simp add: xml_char_def)
    moreover have "c \<noteq> x" using 7(2) assms by blast
    ultimately show ?thesis by simp
  qed (insert assms, (elim insertE emptyE; simp add: xml_char_def)+)
qed

lemma replace_absent: "c \<notin> set s \<Longrightarrow> concat (map (\<lambda>x. if x = c then new else [x]) s) = s"
  by (induction s) auto

lemma replace_quoted_char:
  assumes "c \<in> {dquote, squote, CHR ''<'', CHR ''>''}"
  shows "concat (map (\<lambda>x. if x = c then xml_char c else [x]) (quoted D y)) = quoted (insert [c] D) y"
proof -
  have c: "c \<noteq> CHR ''&''" "c \<noteq> nul" "c \<in> {nul, dquote, squote, CHR ''<'', CHR ''>''}"
    using assms by auto
  consider "y = CHR ''&''" | "y \<noteq> CHR ''&''" "[y] \<in> D" "y \<noteq> nul" | "y \<noteq> CHR ''&''" "[y] \<notin> D \<or> y = nul"
    by blast
  then show ?thesis
  proof cases
    case 1
    then have "quoted E y = xml_char y" for E by (simp add: quoted_def xml_char_def)
    then show ?thesis by (simp add: replace_absent xml_char_plain [OF c(3)])
  next
    case 2
    then have "quoted D y = xml_char y" "quoted (insert [c] D) y = xml_char y" by (simp_all add: quoted_def)
    then show ?thesis by (simp add: replace_absent xml_char_plain [OF c(3)])
  next
    case 3
    then have "quoted D y = [y]" by (auto simp: quoted_def)
    then show ?thesis using 3 c by (auto simp: quoted_def)
  qed
qed

lemma replace_quoted:
  assumes "(pat, new) \<in> set replacements"
  shows "replace_all (concat (map (quoted D) s)) pat new = Some (concat (map (quoted (insert pat D)) s))"
proof -
  have table: "replacements = map (\<lambda>c. ([c], xml_char c)) [dquote, squote, CHR ''<'', CHR ''>'']"
    by (simp add: replacements_def xml_char_def)
  have "(pat, new) \<in> (\<lambda>c. ([c], xml_char c)) ` set [dquote, squote, CHR ''<'', CHR ''>'']"
    using assms unfolding table set_map .
  then obtain c where c: "pat = [c]" "new = xml_char c" "c \<in> {dquote, squote, CHR ''<'', CHR ''>''}"
    by auto
  have one: "concat (map (\<lambda>x. if x = c then new else [x]) (quoted D y)) = quoted (insert pat D) y" for y
    unfolding c(1,2) by (rule replace_quoted_char [OF c(3)])
  have "concat (map (\<lambda>x. if x = c then new else [x]) (concat (map (quoted D) s))) =
      concat (map (quoted (insert pat D)) s)"
    by (induction s) (simp_all add: one)
  then show ?thesis by (simp add: c(1) replace_all_char)
qed

lemma replace_each_quoted:
  "set order \<subseteq> set replacements \<Longrightarrow>
     replace_each order (concat (map (quoted D) s)) = Some (concat (map (quoted (D \<union> fst ` set order)) s))"
proof (induction order arbitrary: D)
  case (Cons x order)
  obtain pat new where x: "x = (pat, new)" by fastforce
  have "replace_all (concat (map (quoted D) s)) pat new = Some (concat (map (quoted (insert pat D)) s))"
    using Cons.prems x by (intro replace_quoted) simp
  then show ?case using Cons.IH [of "insert pat D"] Cons.prems x by simp
qed simp

lemma sanitize_string_chars:
  assumes "set order = set replacements"
  shows "sanitize_string order s = Some (concat (map xml_char s))"
proof -
  have start: "concat (map (\<lambda>x. if x = CHR ''&'' then ''&amp;'' else [x]) s) = concat (map (quoted {}) s)"
    by (induction s) (simp_all add: quoted_def)
  have one: "concat (map (\<lambda>x. if x = nul then [CHR 0x5C, CHR ''0''] else [x]) (quoted (fst ` set replacements) y)) = xml_char y" for y
  proof (cases "y = nul")
    case True
    then show ?thesis by (simp add: quoted_def xml_char_def)
  next
    case False
    then have "quoted (fst ` set replacements) y = xml_char y"
      by (simp add: quoted_def xml_char_def replacements_def)
    then show ?thesis by (simp add: replace_absent xml_char_plain)
  qed
  have "concat (map (\<lambda>x. if x = nul then [CHR 0x5C, CHR ''0''] else [x])
      (concat (map (quoted (fst ` set replacements)) s))) = concat (map xml_char s)"
    by (induction s) (simp_all add: one)
  then show ?thesis
    using replace_each_quoted [of order "{}" s] assms
    by (simp add: sanitize_string_def replace_all_char start)
qed

text \<open>
  C34. The order in which the map of replacements is traversed, which depends on where the
  compiler puts the literals, does not matter: in every order \<^verbatim>\<open>sanitize_string\<close> returns the
  text with each character replaced on its own.
\<close>

theorem sanitize_string_any_order:
  assumes "set order = set replacements"
  shows "sanitize_string order s = Some (concat (map xml_char s))"
  using assms by (rule sanitize_string_chars)

theorem sanitize_string_any_order_witness:
  "sanitize_string (rev replacements) ''a<b & c'' = Some (concat (map xml_char ''a<b & c''))"
  by (rule sanitize_string_any_order) simp

text \<open>
  How an XML parser reads character data: \<open>None\<close> for markup or an unknown entity. The reader is an
  ideal one: it takes control characters and does not normalise line ends.
\<close>

fun xml_text :: "string \<Rightarrow> string option" where
  "xml_text [] = Some []"
| "xml_text (c # s) =
     (if c = CHR ''<'' then None
      else if c \<noteq> CHR ''&'' then map_option ((#) c) (xml_text s)
      else if prefix ''amp;'' s then map_option ((#) (CHR ''&'')) (xml_text (drop 4 s))
      else if prefix ''quot;'' s then map_option ((#) dquote) (xml_text (drop 5 s))
      else if prefix ''apos;'' s then map_option ((#) squote) (xml_text (drop 5 s))
      else if prefix ''lt;'' s then map_option ((#) (CHR ''<'')) (xml_text (drop 3 s))
      else if prefix ''gt;'' s then map_option ((#) (CHR ''>'')) (xml_text (drop 3 s))
      else None)"

lemma xml_text_char: "c \<noteq> nul \<Longrightarrow> xml_text (xml_char c @ s) = map_option ((#) c) (xml_text s)"
  by (simp add: xml_char_def)

lemma xml_text_chars: "nul \<notin> set s \<Longrightarrow> xml_text (concat (map xml_char s)) = Some s"
proof (induction s)
  case (Cons c s)
  then have "c \<noteq> nul" "nul \<notin> set s" by auto
  then show ?case using Cons.IH xml_text_char [of c] by (simp del: xml_text.simps(2))
qed simp

text \<open>
  C32. Text without null bytes survives the quoting: the server's XML parser reads back exactly
  the text that was sanitized. No quoted text holds a null byte, which would end the frame, or
  an unescaped quote or bracket.
\<close>

theorem sanitize_string_reads_back:
  assumes "set order = set replacements"
  shows "\<exists>t. sanitize_string order s = Some t \<and> set t \<inter> {nul, dquote, squote, CHR ''<'', CHR ''>''} = {} \<and>
    (nul \<notin> set s \<longrightarrow> xml_text t = Some s)"
proof -
  have "set (xml_char c) \<inter> {nul, dquote, squote, CHR ''<'', CHR ''>''} = {}" for c
    using xml_char_plain by blast
  then have "set (concat (map xml_char s)) \<inter> {nul, dquote, squote, CHR ''<'', CHR ''>''} = {}"
    by fastforce
  then show ?thesis
    using sanitize_string_chars [OF assms, of s] xml_text_chars [of s] by simp
qed

theorem sanitize_string_reads_back_witness:
  "\<exists>t. sanitize_string replacements ''if (a<b && c)'' = Some t \<and> xml_text t = Some ''if (a<b && c)''"
  using sanitize_string_reads_back [of replacements "''if (a<b && c)''"] by auto

subsection \<open>Level names\<close>

definition to_upper :: "char \<Rightarrow> char" where
  "to_upper c = (if 97 \<le> char_code c \<and> char_code c \<le> 122 then char_of (char_code c - 32) else c)"

definition upper_name :: "string \<Rightarrow> string" where
  "upper_name s = foldl (\<lambda>out p. if is_space p then out else out @ [to_upper p]) [] s"

definition level_strings :: "(log_level, string) std_map" where
  "level_strings = foldl (\<lambda>m i. map_emplace i (upper_name (level_name i)) m) [] all_levels"

lemma level_strings_table:
  "level_strings = [(Finest, ''FINEST''), (Finer, ''FINER''), (Fine, ''FINE''), (Config, ''CONFIG''),
     (Info, ''INFO''), (Warning, ''WARNING''), (Severe, ''SEVERE'')]"
  by code_simp

end
