(* ===== verification/Parse_Url.thy ===== *)
theory Parse_Url
  imports Cpp_String
begin

section \<open>URLs (parse_url.h, parse_url.cpp)\<close>

text \<open>
  \<^verbatim>\<open>decode_hex_byte\<close> and \<^verbatim>\<open>parse_URL\<close>, position by position as the code works,
  with every exception a value. \<open>parse_URL\<close> returns the structure that is finally
  assigned to the caller's \<^verbatim>\<open>_parts\<close>; on an exception nothing is assigned.
\<close>

record URL_info =
  url_protocol :: string
  url_login :: string
  url_password :: string
  url_host :: string
  url_port :: "16 word"
  url_path :: string

subsection \<open>Percent decoding\<close>

definition bad_escape :: "string \<Rightarrow> exn" where
  "bad_escape esc = Invalid_argument (''Invalid escape sequence: %'' @ esc)"

function decode_loop :: "string \<Rightarrow> nat \<Rightarrow> string \<Rightarrow> string throws" where
  "decode_loop inp i out =
     (if i < length inp then
        if inp ! i = CHR ''%'' then
          bind_exn (substr inp (i + 1) 2) (\<lambda>esc.
            if length esc \<noteq> 2 then Inl (bad_escape esc)
            else if find_first_not_of esc ''0123456789abcdefABCDEF'' \<noteq> None
            then Inl (bad_escape esc)
            else decode_loop inp (i + 2 + 1) (out @ [char_of (nat (fst (strtol 16 esc)))]))
        else if inp ! i = CHR ''+'' then decode_loop inp (i + 1) (out @ [CHR '' ''])
        else decode_loop inp (i + 1) (out @ [inp ! i])
      else Inr out)"
  by pat_completeness auto
termination
  by (relation "measure (\<lambda>(inp, i, out). length inp - i)") auto

declare decode_loop.simps [simp del]

definition decode_hex_byte :: "string \<Rightarrow> string throws" where
  "decode_hex_byte inp = decode_loop inp 0 []"

subsection \<open>Parsing\<close>

text \<open>\<^verbatim>\<open>login:password@\<close>: the updated structure and where host and port begin.\<close>

definition parse_login :: "string \<Rightarrow> nat \<Rightarrow> URL_info \<Rightarrow> (URL_info \<times> nat) throws" where
  "parse_login url proto_end ret =
     (case str_find_char (CHR ''@'') url proto_end of
        None \<Rightarrow> Inr (ret, proto_end)
      | Some at \<Rightarrow>
          (case str_find_char (CHR '':'') url proto_end of
             None \<Rightarrow> Inl (Invalid_argument ''Cannot parse login information.'')
           | Some colon \<Rightarrow>
               if colon = proto_end \<or> colon > at
               then Inl (Invalid_argument ''Cannot parse login information.'')
               else
                 bind_exn (substr url proto_end (colon - proto_end)) (\<lambda>l.
                 bind_exn (decode_hex_byte l) (\<lambda>login.
                 bind_exn (substr url (colon + 1) (at - (colon + 1))) (\<lambda>p.
                 bind_exn (decode_hex_byte p) (\<lambda>password.
                   Inr (ret\<lparr>url_login := login, url_password := password\<rparr>, at + 1)))))))"

text \<open>\<^verbatim>\<open>/path\<close>: the updated structure and where the host section ends.\<close>

definition parse_path :: "string \<Rightarrow> nat \<Rightarrow> URL_info \<Rightarrow> (URL_info \<times> nat) throws" where
  "parse_path url host_port ret =
     (case str_find_char (CHR ''/'') url host_port of
        Some slash \<Rightarrow>
          bind_exn (substr_from url (slash + 1)) (\<lambda>p.
          bind_exn (decode_hex_byte p) (\<lambda>path.
            Inr (ret\<lparr>url_path := path\<rparr>, slash)))
      | None \<Rightarrow> Inr (ret, length url))"

text \<open>\<^verbatim>\<open>host:port\<close>, ending at \<open>slash\<close>.\<close>

definition parse_host_port :: "string \<Rightarrow> nat \<Rightarrow> nat \<Rightarrow> URL_info \<Rightarrow> URL_info throws" where
  "parse_host_port url host_port slash ret =
     (case str_find_char (CHR '':'') url host_port of
        None \<Rightarrow> bind_exn (substr url host_port (slash - host_port)) (\<lambda>h. Inr (ret\<lparr>url_host := h\<rparr>))
      | Some colon \<Rightarrow>
          if colon > slash
          then bind_exn (substr url host_port (slash - host_port)) (\<lambda>h. Inr (ret\<lparr>url_host := h\<rparr>))
          else
            bind_exn (substr url (colon + 1) (slash - (colon + 1))) (\<lambda>port.
            bind_exn (substr url host_port (colon - host_port)) (\<lambda>h.
              let p = atoi port;
                  badchar = find_first_not_of port ''0123456789''
              in if length port > 5 \<or> badchar \<noteq> None \<or> p < 1 \<or> p > 65535
                 then Inl (Invalid_argument (''Invalid port: '' @ port))
                 else Inr (ret\<lparr>url_host := h, url_port := word_of_int p\<rparr>))))"

definition parse_URL :: "string \<Rightarrow> URL_info \<Rightarrow> URL_info throws" where
  "parse_URL url parts =
     bind_exn
       (case str_find ''://'' url 0 of
          Some proto_end \<Rightarrow>
            bind_exn (substr url 0 proto_end) (\<lambda>p.
              Inr (parts\<lparr>url_protocol := p\<rparr>, proto_end + 3))
        | None \<Rightarrow> Inr (parts, 0)) (\<lambda>(ret, proto_end).
     bind_exn (parse_login url proto_end ret) (\<lambda>(ret, host_port).
     bind_exn (parse_path url host_port ret) (\<lambda>(ret, slash).
     bind_exn (parse_host_port url host_port slash ret) (\<lambda>ret.
       if url_host ret = [] then Inl (Invalid_argument ''Invalid URL: No hostname.'')
       else Inr ret))))"

text \<open>\<^verbatim>\<open>operator<<\<close> for a \<^verbatim>\<open>URL_info\<close>.\<close>

definition url_output :: "URL_info \<Rightarrow> string" where
  "url_output u =
     ''protocol: '' @ [squote] @ url_protocol u @ [squote, newline] @
     ''login:    '' @ [squote] @ url_login u @ [squote, newline] @
     ''password: '' @ [squote] @ url_password u @ [squote, newline] @
     ''host:     '' @ [squote] @ url_host u @ [squote, newline] @
     ''port :    '' @ [squote] @ show_nat (unat (url_port u)) @ [squote, newline] @
     ''path :    '' @ [squote] @ url_path u @ [squote, newline]"

subsection \<open>Percent decoding as a function of the text\<close>

fun decode_spec :: "string \<Rightarrow> string throws" where
  "decode_spec [] = Inr []"
| "decode_spec (c # s) =
     (if c = CHR ''%'' then
        (case s of
           a # b # r \<Rightarrow>
             if is_digit 16 a \<and> is_digit 16 b
             then bind_exn (decode_spec r) (\<lambda>d.
               Inr (char_of (the (digit_value a) * 16 + the (digit_value b)) # d))
             else Inl (bad_escape [a, b])
         | _ \<Rightarrow> Inl (bad_escape s))
      else bind_exn (decode_spec s) (\<lambda>d. Inr ((if c = CHR ''+'' then CHR '' '' else c) # d)))"

lemma find_bad_hex:
  "find_first_not_of [a, b] ''0123456789abcdefABCDEF'' \<noteq> None \<longleftrightarrow>
     \<not> (is_digit 16 a \<and> is_digit 16 b)"
  using hex_digits [of a] hex_digits [of b] by simp

lemma decode_loop_spec:
  "decode_loop inp i out = bind_exn (decode_spec (drop i inp)) (\<lambda>d. Inr (out @ d))"
proof (induction inp i out rule: decode_loop.induct)
  case (1 inp i out)
  show ?case
  proof (cases "i < length inp")
    case False
    then show ?thesis by (simp add: decode_loop.simps)
  next
    case True
    then have inp: "drop i inp = inp ! i # drop (Suc i) inp" by (simp add: Cons_nth_drop_Suc)
    consider (esc) a b r where "inp ! i = CHR ''%''" "drop (Suc i) inp = a # b # r"
        "is_digit 16 a" "is_digit 16 b"
      | (bad) a b r where "inp ! i = CHR ''%''" "drop (Suc i) inp = a # b # r"
        "\<not> (is_digit 16 a \<and> is_digit 16 b)"
      | (short) s where "inp ! i = CHR ''%''" "drop (Suc i) inp = s" "s = [] \<or> (\<exists>a. s = [a])"
      | (plus) "inp ! i = CHR ''+''"
      | (plain) "inp ! i \<noteq> CHR ''%''" "inp ! i \<noteq> CHR ''+''"
      by (metis list.exhaust)
    then show ?thesis
    proof cases
      case esc
      have r: "drop (i + 2 + 1) inp = r"
        using arg_cong [OF esc(2), of "drop 2"] by simp
      have ok: "find_first_not_of [a, b] ''0123456789abcdefABCDEF'' = None"
        using find_bad_hex [of a b] esc(3,4) by blast
      have "decode_loop inp i out =
          decode_loop inp (i + 2 + 1)
            (out @ [char_of (the (digit_value a) * 16 + the (digit_value b))])"
        using True esc ok
        by (subst decode_loop.simps) (simp add: strtol_hex_pair nat_add_distrib nat_mult_distrib
            del: find_first_not_of.simps)
      also have "\<dots> = bind_exn (decode_spec (drop i inp)) (\<lambda>d. Inr (out @ d))"
        using "1.IH"(1) [of "[a, b]"] True esc ok inp r
        by (simp add: strtol_hex_pair nat_add_distrib nat_mult_distrib bind_exn_def
            split: sum.split del: find_first_not_of.simps)
      finally show ?thesis .
    next
      case bad
      then have "find_first_not_of [a, b] ''0123456789abcdefABCDEF'' \<noteq> None"
        using find_bad_hex by blast
      then show ?thesis
        using True bad inp
        by (subst decode_loop.simps) (auto simp del: find_first_not_of.simps)
    next
      case short
      then show ?thesis
        using True inp by (subst decode_loop.simps) auto
    next
      case plus
      then show ?thesis
        using True inp "1.IH"(2)
        by (subst decode_loop.simps) (simp add: bind_exn_def split: sum.split)
    next
      case plain
      then show ?thesis
        using True inp "1.IH"(3)
        by (subst decode_loop.simps) (simp add: bind_exn_def split: sum.split)
    qed
  qed
qed

lemma decode_hex_byte_spec: "decode_hex_byte s = decode_spec s"
  by (cases "decode_spec s") (simp_all add: decode_hex_byte_def decode_loop_spec)

lemma decode_spec_error: "decode_spec s = Inl e \<Longrightarrow> \<exists>esc. e = bad_escape esc"
proof (induction s arbitrary: e rule: decode_spec.induct)
  case 1
  then show ?case by simp
next
  case (2 c s)
  from "2.prems" show ?case
    unfolding decode_spec.simps(2)
    by (auto simp: bind_exn_eq_Inl simp del: decode_spec.simps(2) split: if_splits list.splits
        dest: "2.IH")
qed

subsection \<open>Percent encoding\<close>

definition url_safe :: "char \<Rightarrow> bool" where
  "url_safe c \<longleftrightarrow> is_digit 36 c \<or> c \<in> set ''-_.~''"

definition pct_encode_char :: "char \<Rightarrow> string" where
  "pct_encode_char c =
     (if url_safe c then [c]
      else [CHR ''%'', hex_char (char_code c div 16), hex_char (char_code c mod 16)])"

definition pct_encode :: "string \<Rightarrow> string" where
  "pct_encode s = concat (map pct_encode_char s)"

lemma char_code_less: "char_code c < 256"
  by (simp add: char_code_def)

lemma char_of_char_code [simp]: "char_of (char_code c) = c"
  by (simp add: char_code_def)

lemma url_safe_simps [simp]:
  "\<not> url_safe (CHR ''%'')" "\<not> url_safe (CHR ''+'')" "\<not> url_safe (CHR ''/'')"
  "\<not> url_safe (CHR '':'')" "\<not> url_safe (CHR ''@'')"
  by (simp_all add: url_safe_def is_digit_def digit_value_def char_code_def)

lemma decode_pct_encode_char:
  "decode_spec (pct_encode_char c @ s) = bind_exn (decode_spec s) (\<lambda>d. Inr (c # d))"
proof (cases "url_safe c")
  case True
  then have "c \<noteq> CHR ''%''" "c \<noteq> CHR ''+''" by auto
  with True show ?thesis by (simp add: pct_encode_char_def)
next
  case False
  have "char_code c div 16 < 16" using char_code_less [of c] by simp
  moreover have "char_code c div 16 * 16 + char_code c mod 16 = char_code c" by simp
  ultimately show ?thesis using False
    by (simp add: pct_encode_char_def)
qed

lemma decode_pct_encode [simp]: "decode_hex_byte (pct_encode s) = Inr s"
proof -
  have "decode_spec (pct_encode s) = Inr s"
    by (induction s) (simp_all add: pct_encode_def decode_pct_encode_char)
  then show ?thesis by (simp add: decode_hex_byte_spec)
qed

lemma hex_char_url_safe: "n < 16 \<Longrightarrow> url_safe (hex_char n)"
  by (simp add: url_safe_def is_digit_def)

lemma pct_encode_chars: "c \<in> set (pct_encode s) \<Longrightarrow> url_safe c \<or> c = CHR ''%''"
proof -
  have "char_code d div 16 < 16" for d using char_code_less [of d] by simp
  then show "c \<in> set (pct_encode s) \<Longrightarrow> url_safe c \<or> c = CHR ''%''"
    by (auto simp: pct_encode_def pct_encode_char_def hex_char_url_safe split: if_splits)
qed

lemma pct_encode_no_separator [simp]:
  "CHR ''/'' \<notin> set (pct_encode s)" "CHR '':'' \<notin> set (pct_encode s)"
  "CHR ''@'' \<notin> set (pct_encode s)"
  using pct_encode_chars by fastforce+

lemma pct_encode_eq_Nil [simp]: "pct_encode s = [] \<longleftrightarrow> s = []"
  by (cases s) (simp_all add: pct_encode_def pct_encode_char_def)

subsection \<open>Each section of a URL\<close>

lemma parse_login_absent:
  "CHR ''@'' \<notin> set r \<Longrightarrow> parse_login (p @ r) (length p) ret = Inr (ret, length p)"
  by (simp add: parse_login_def cstr_simps)

lemma find_login_colon:
  "CHR '':'' \<notin> set l \<Longrightarrow> find_pat '':'' (l @ CHR '':'' # r) = Some (length l)"
  by (rule find_pat_char_append)

lemma parse_login_present:
  assumes "l \<noteq> []" "CHR '':'' \<notin> set l" "CHR ''@'' \<notin> set l" "CHR ''@'' \<notin> set pw"
    and "decode_hex_byte l = Inr l'" "decode_hex_byte pw = Inr pw'"
  shows "parse_login (p @ l @ CHR '':'' # pw @ CHR ''@'' # r) (length p) ret =
    Inr (ret\<lparr>url_login := l', url_password := pw'\<rparr>, length (p @ l @ CHR '':'' # pw @ ''@''))"
proof -
  have "find_pat ''@'' ((l @ CHR '':'' # pw) @ CHR ''@'' # r) = Some (length (l @ CHR '':'' # pw))"
    using assms by (intro find_pat_char_append) auto
  then show ?thesis
    using assms by (simp add: parse_login_def cstr_simps)
qed

lemma parse_path_absent:
  "CHR ''/'' \<notin> set r \<Longrightarrow> parse_path (p @ r) (length p) ret = Inr (ret, length (p @ r))"
  by (simp add: parse_path_def cstr_simps)

lemma parse_path_present:
  "CHR ''/'' \<notin> set h \<Longrightarrow> decode_hex_byte t = Inr t' \<Longrightarrow>
     parse_path (p @ h @ CHR ''/'' # t) (length p) ret =
     Inr (ret\<lparr>url_path := t'\<rparr>, length (p @ h))"
  by (simp add: parse_path_def cstr_simps)

lemma parse_host_port_absent:
  assumes "CHR '':'' \<notin> set h" "r = [] \<or> hd r = CHR ''/''"
  shows "parse_host_port (p @ h @ r) (length p) (length (p @ h)) ret = Inr (ret\<lparr>url_host := h\<rparr>)"
proof (cases "find_pat '':'' r")
  case None
  with assms show ?thesis by (simp add: parse_host_port_def cstr_simps)
next
  case (Some i)
  moreover have "i \<noteq> 0"
    using assms(2) find_pat_Some [OF Some] by (cases r; cases i) auto
  ultimately show ?thesis
    using assms by (simp add: parse_host_port_def cstr_simps)
qed

lemma parse_host_port_present:
  assumes "CHR '':'' \<notin> set h" "1 \<le> n" "n \<le> 65535"
  shows "parse_host_port (p @ h @ CHR '':'' # show_nat n @ r) (length p)
      (length (p @ h @ CHR '':'' # show_nat n)) ret =
    Inr (ret\<lparr>url_host := h, url_port := word_of_nat n\<rparr>)"
proof -
  have "length (show_nat n) \<le> 5"
    using assms by (intro length_show_nat) auto
  moreover have "find_first_not_of (show_nat n) ''0123456789'' = None"
    by (auto simp: decimal_digits dest: show_nat_digits simp del: list.set)
  moreover have "atoi (show_nat n) = int n"
    using assms by (intro atoi_show_nat) (simp add: int_max_def)
  ultimately show ?thesis
    using assms by (simp add: parse_host_port_def cstr_simps)
qed

subsection \<open>Printing a URL and parsing it back\<close>

text \<open>A URL of the documented form, with any of its optional parts left out.\<close>

definition render_proto :: "string option \<Rightarrow> string" where
  "render_proto proto = (case proto of None \<Rightarrow> [] | Some p \<Rightarrow> p @ ''://'')"

definition render_login :: "(string \<times> string) option \<Rightarrow> string" where
  "render_login cred = (case cred of None \<Rightarrow> []
     | Some (l, pw) \<Rightarrow> pct_encode l @ CHR '':'' # pct_encode pw @ ''@'')"

definition render_port :: "nat option \<Rightarrow> string" where
  "render_port port = (case port of None \<Rightarrow> [] | Some n \<Rightarrow> CHR '':'' # show_nat n)"

definition render_path :: "string option \<Rightarrow> string" where
  "render_path path = (case path of None \<Rightarrow> [] | Some t \<Rightarrow> CHR ''/'' # pct_encode t)"

definition render_url ::
  "string option \<Rightarrow> (string \<times> string) option \<Rightarrow> string \<Rightarrow> nat option \<Rightarrow> string option \<Rightarrow> string" where
  "render_url proto cred host port path =
     render_proto proto @ render_login cred @ host @ render_port port @ render_path path"

text \<open>The parts of a URL that can be parsed back.\<close>

definition url_parts_ok :: "string option \<Rightarrow> (string \<times> string) option \<Rightarrow> string \<Rightarrow> nat option \<Rightarrow> bool" where
  "url_parts_ok proto cred host port \<longleftrightarrow>
     (case proto of None \<Rightarrow> True | Some p \<Rightarrow> CHR '':'' \<notin> set p) \<and>
     (case cred of None \<Rightarrow> True | Some (l, pw) \<Rightarrow> l \<noteq> []) \<and>
     host \<noteq> [] \<and> CHR '':'' \<notin> set host \<and> CHR ''@'' \<notin> set host \<and> CHR ''/'' \<notin> set host \<and>
     (case port of None \<Rightarrow> True | Some n \<Rightarrow> 1 \<le> n \<and> n \<le> 65535)"

text \<open>The structure updated in the parts that are present, and in no other.\<close>

definition set_parts ::
  "string option \<Rightarrow> (string \<times> string) option \<Rightarrow> string \<Rightarrow> nat option \<Rightarrow> string option \<Rightarrow> URL_info \<Rightarrow> URL_info" where
  "set_parts proto cred host port path u =
     u\<lparr>url_protocol := (case proto of None \<Rightarrow> url_protocol u | Some p \<Rightarrow> p),
       url_login := (case cred of None \<Rightarrow> url_login u | Some (l, pw) \<Rightarrow> l),
       url_password := (case cred of None \<Rightarrow> url_password u | Some (l, pw) \<Rightarrow> pw),
       url_host := host,
       url_port := (case port of None \<Rightarrow> url_port u | Some n \<Rightarrow> word_of_nat n),
       url_path := (case path of None \<Rightarrow> url_path u | Some t \<Rightarrow> t)\<rparr>"

lemma separators_not_in_number [simp]:
  "CHR ''/'' \<notin> set (show_nat n)" "CHR ''@'' \<notin> set (show_nat n)"
  by (rule not_digit_in_show_nat; simp add: is_digit_def digit_value_def char_code_def)+

lemma port_no_separator [simp]:
  "CHR ''/'' \<notin> set (render_port port)" "CHR ''@'' \<notin> set (render_port port)"
  by (simp_all add: render_port_def split: option.split)

lemma path_no_at [simp]: "CHR ''@'' \<notin> set (render_path path)"
  by (simp add: render_path_def split: option.split)

lemma find_proto:
  "CHR '':'' \<notin> set p \<Longrightarrow> find_pat ''://'' (p @ CHR '':'' # CHR ''/'' # CHR ''/'' # r) = Some (length p)"
  by (induction p) auto

lemma find_proto_absent:
  assumes "count_list s (CHR ''/'') < 2"
  shows "find_pat ''://'' s = None"
proof (rule ccontr)
  assume "find_pat ''://'' s \<noteq> None"
  then obtain i where "find_pat ''://'' s = Some i" by auto
  then obtain a b where "s = a @ ''://'' @ b" using find_pat_Some by metis
  with assms show False by simp
qed

lemma parse_proto_render:
  assumes "url_parts_ok proto cred host port"
  shows "str_find ''://'' (render_url proto cred host port path) 0 = map_option length proto"
proof (cases proto)
  case None
  have "count_list (render_login cred) (CHR ''/'') = 0"
    by (simp add: render_login_def count_list_0_iff split: option.split prod.split)
  moreover have "count_list (render_path path) (CHR ''/'') \<le> 1"
    by (simp add: render_path_def count_list_0_iff split: option.split)
  moreover have "count_list host (CHR ''/'') = 0" "count_list (render_port port) (CHR ''/'') = 0"
    using assms by (simp_all add: url_parts_ok_def count_list_0_iff)
  ultimately show ?thesis
    using None find_proto_absent [of "render_login cred @ host @ render_port port @ render_path path"]
    by (simp add: str_find_def render_url_def render_proto_def)
next
  case (Some p)
  with assms show ?thesis
    by (simp add: str_find_def render_url_def render_proto_def url_parts_ok_def find_proto)
qed

lemma parse_login_render:
  assumes "url_parts_ok proto cred host port" "CHR ''@'' \<notin> set r"
  shows "parse_login (p @ render_login cred @ r) (length p) ret =
    Inr (ret\<lparr>url_login := (case cred of None \<Rightarrow> url_login ret | Some (l, pw) \<Rightarrow> l),
             url_password := (case cred of None \<Rightarrow> url_password ret | Some (l, pw) \<Rightarrow> pw)\<rparr>,
         length (p @ render_login cred))"
proof (cases cred)
  case None
  with assms show ?thesis by (simp add: render_login_def parse_login_absent)
next
  case (Some c)
  obtain l pw where "c = (l, pw)" by (cases c)
  with Some assms show ?thesis
    using parse_login_present [of "pct_encode l" "pct_encode pw" l pw p r ret]
    by (simp add: render_login_def url_parts_ok_def)
qed

lemma parse_path_render:
  "CHR ''/'' \<notin> set h \<Longrightarrow> parse_path (p @ h @ render_path path) (length p) ret =
     Inr (ret\<lparr>url_path := (case path of None \<Rightarrow> url_path ret | Some t \<Rightarrow> t)\<rparr>, length (p @ h))"
  by (cases path) (simp_all add: render_path_def parse_path_absent parse_path_present)

lemma parse_host_port_render:
  assumes "url_parts_ok proto cred host port" "r = [] \<or> hd r = CHR ''/''"
  shows "parse_host_port (p @ host @ render_port port @ r) (length p)
      (length (p @ host @ render_port port)) ret =
    Inr (ret\<lparr>url_host := host,
             url_port := (case port of None \<Rightarrow> url_port ret | Some n \<Rightarrow> word_of_nat n)\<rparr>)"
proof (cases port)
  case None
  with assms show ?thesis
    using parse_host_port_absent [of host r p ret] by (simp add: render_port_def url_parts_ok_def)
next
  case (Some n)
  with assms show ?thesis
    using parse_host_port_present [of host n p r ret] by (simp add: render_port_def url_parts_ok_def)
qed

text \<open>
  C35. A URL printed from its parts is parsed back to these parts: whatever optional parts it
  has, \<^verbatim>\<open>parse_URL\<close> returns the caller's structure with the present parts replaced
  (login, password and path percent-decoded) and every absent part left as it was.
\<close>

theorem parse_URL_render:
  assumes "url_parts_ok proto cred host port"
  shows "parse_URL (render_url proto cred host port path) u =
    Inr (set_parts proto cred host port path u)"
proof -
  let ?pre = "render_proto proto" and ?cr = "render_login cred"
  let ?hp = "host @ render_port port" and ?pt = "render_path path"
  let ?u1 = "u\<lparr>url_protocol := (case proto of None \<Rightarrow> url_protocol u | Some p \<Rightarrow> p)\<rparr>"
  have url: "render_url proto cred host port path = ?pre @ ?cr @ ?hp @ ?pt"
    by (simp add: render_url_def)
  have proto: "(case str_find ''://'' (?pre @ ?cr @ ?hp @ ?pt) 0 of
        Some e \<Rightarrow> bind_exn (substr (?pre @ ?cr @ ?hp @ ?pt) 0 e) (\<lambda>p.
          Inr (u\<lparr>url_protocol := p\<rparr>, e + 3))
      | None \<Rightarrow> Inr (u, 0)) = Inr (?u1, length ?pre)"
    using parse_proto_render [OF assms, of path] unfolding url
    by (cases proto) (simp_all only:, simp_all add: render_proto_def)
  have login: "parse_login (?pre @ ?cr @ ?hp @ ?pt) (length ?pre) v =
      Inr (v\<lparr>url_login := (case cred of None \<Rightarrow> url_login v | Some (l, pw) \<Rightarrow> l),
             url_password := (case cred of None \<Rightarrow> url_password v | Some (l, pw) \<Rightarrow> pw)\<rparr>,
           length (?pre @ ?cr))" for v
    using assms by (intro parse_login_render) (auto simp: url_parts_ok_def)
  have path: "parse_path (?pre @ ?cr @ ?hp @ ?pt) (length (?pre @ ?cr)) v =
      Inr (v\<lparr>url_path := (case path of None \<Rightarrow> url_path v | Some t \<Rightarrow> t)\<rparr>,
           length (?pre @ ?cr @ ?hp))" for v
    using parse_path_render [of ?hp "?pre @ ?cr" path v] assms by (simp add: url_parts_ok_def)
  have host: "parse_host_port (?pre @ ?cr @ ?hp @ ?pt) (length (?pre @ ?cr))
        (length (?pre @ ?cr @ ?hp)) v =
      Inr (v\<lparr>url_host := host,
             url_port := (case port of None \<Rightarrow> url_port v | Some n \<Rightarrow> word_of_nat n)\<rparr>)" for v
    using parse_host_port_render [OF assms, of ?pt "?pre @ ?cr" v]
    by (simp add: render_path_def split: option.split)
  show ?thesis
    using assms
    by (simp add: parse_URL_def url proto login path host set_parts_def url_parts_ok_def
        del: append_assoc length_append) (simp split: option.split)
qed

theorem parse_URL_render_witness:
  "\<forall>u. parse_URL (render_url (Some ''stomp'') (Some (''me'', ''p@ss'')) ''broker'' (Some 61613) (Some ''a/b'')) u =
   Inr (set_parts (Some ''stomp'') (Some (''me'', ''p@ss'')) ''broker'' (Some 61613) (Some ''a/b'') u)"
  by (rule allI, rule parse_URL_render) (simp add: url_parts_ok_def)

subsection \<open>Every input: errors and guarantees\<close>

lemma decode_hex_byte_error: "decode_hex_byte s = Inl e \<Longrightarrow> \<exists>m. e = Invalid_argument m"
  by (auto simp: decode_hex_byte_spec bad_escape_def dest: decode_spec_error)

lemma parse_login_total:
  assumes "pe \<le> length url"
  shows "case parse_login url pe ret of
      Inl e \<Rightarrow> \<exists>m. e = Invalid_argument m
    | Inr (ret', hp) \<Rightarrow> hp \<le> length url \<and> url_port ret' = url_port ret"
proof (cases "str_find_char (CHR ''@'') url pe")
  case None
  with assms show ?thesis by (simp add: parse_login_def)
next
  case (Some at)
  show ?thesis
  proof (cases "str_find_char (CHR '':'') url pe")
    case None
    with Some show ?thesis by (simp add: parse_login_def)
  next
    case (Some colon)
    note at = \<open>str_find_char (CHR ''@'') url pe = Some at\<close>
    show ?thesis
      using str_find_char_bounds [OF at] str_find_char_bounds [OF Some] assms
      by (cases "decode_hex_byte (take (colon - pe) (drop pe url))";
          cases "decode_hex_byte (take (at - (colon + 1)) (drop (colon + 1) url))")
        (auto simp: parse_login_def at Some dest: decode_hex_byte_error)
  qed
qed

lemma parse_path_total:
  assumes "hp \<le> length url"
  shows "case parse_path url hp ret of
      Inl e \<Rightarrow> \<exists>m. e = Invalid_argument m
    | Inr (ret', slash) \<Rightarrow> hp \<le> slash \<and> slash \<le> length url \<and> url_port ret' = url_port ret"
proof (cases "str_find_char (CHR ''/'') url hp")
  case None
  with assms show ?thesis by (simp add: parse_path_def)
next
  case (Some slash)
  then show ?thesis
    using str_find_char_bounds [OF Some]
    by (cases "decode_hex_byte (drop (slash + 1) url)")
      (auto simp: parse_path_def dest: decode_hex_byte_error)
qed

lemma parse_host_port_total:
  assumes "hp \<le> slash" "slash \<le> length url"
  shows "case parse_host_port url hp slash ret of
      Inl e \<Rightarrow> \<exists>m. e = Invalid_argument m
    | Inr ret' \<Rightarrow> url_port ret' = url_port ret \<or> 1 \<le> unat (url_port ret')"
proof (cases "str_find_char (CHR '':'') url hp")
  case None
  with assms show ?thesis by (simp add: parse_host_port_def)
next
  case (Some colon)
  have "1 \<le> unat (word_of_int p :: 16 word)" if "1 \<le> p" "p \<le> 65535" for p :: int
    using that by (simp add: unat_eq_nat_uint uint_word_of_int_eq take_bit_int_eq_self)
  then show ?thesis
    using str_find_char_bounds [OF Some] assms
    by (auto simp: parse_host_port_def Some Let_def not_less split: if_split)
qed

text \<open>
  C36. On every input \<^verbatim>\<open>parse_URL\<close> either throws \<^verbatim>\<open>invalid_argument\<close>, and no other
  exception (every \<^verbatim>\<open>substr\<close> starts inside the text), or returns a structure with a host
  name and a port that is the caller's default or lies between 1 and 65535.
\<close>

theorem parse_URL_total:
  "case parse_URL url u of
     Inl e \<Rightarrow> \<exists>m. e = Invalid_argument m
   | Inr r \<Rightarrow> url_host r \<noteq> [] \<and> (url_port r = url_port u \<or> 1 \<le> unat (url_port r))"
proof -
  define start where "start = (case str_find ''://'' url 0 of
      Some proto_end \<Rightarrow>
        bind_exn (substr url 0 proto_end) (\<lambda>p. Inr (u\<lparr>url_protocol := p\<rparr>, proto_end + 3))
    | None \<Rightarrow> Inr (u, 0))"
  obtain u1 pe where start: "start = Inr (u1, pe)" "pe \<le> length url" "url_port u1 = url_port u"
    using str_find_bounds [of "''://''" url 0]
    by (cases "str_find ''://'' url 0") (auto simp: start_def)
  show ?thesis
  proof (cases "parse_login url pe u1")
    case (Inl e)
    then show ?thesis
      using parse_login_total [OF start(2), of u1] start
      by (simp add: parse_URL_def flip: start_def)
  next
    case (Inr r1)
    obtain u2 hp where r1: "r1 = (u2, hp)" by (cases r1)
    have hp: "hp \<le> length url" "url_port u2 = url_port u"
      using parse_login_total [OF start(2), of u1] Inr r1 start by auto
    show ?thesis
    proof (cases "parse_path url hp u2")
      case (Inl e)
      then show ?thesis
        using parse_path_total [OF hp(1), of u2] start r1 \<open>parse_login url pe u1 = Inr r1\<close>
        by (simp add: parse_URL_def flip: start_def)
    next
      case (Inr r2)
      obtain u3 sl where r2: "r2 = (u3, sl)" by (cases r2)
      have sl: "hp \<le> sl" "sl \<le> length url" "url_port u3 = url_port u"
        using parse_path_total [OF hp(1), of u2] Inr r2 hp by auto
      show ?thesis
        using parse_host_port_total [OF sl(1,2), of u3] start r1 r2 sl(3) Inr
          \<open>parse_login url pe u1 = Inr r1\<close>
        by (cases "parse_host_port url hp sl u3") (auto simp: parse_URL_def simp flip: start_def)
    qed
  qed
qed

text \<open>
  The search for the \<^verbatim>\<open>@\<close> that ends the login section is not limited to the part
  before the path: a URL without a login and without a port is refused as soon as an
  \<^verbatim>\<open>@\<close> occurs anywhere behind its protocol, for example in its path.
\<close>

theorem parse_URL_at_without_login:
  assumes "CHR '':'' \<notin> set proto" "CHR '':'' \<notin> set r" "CHR ''@'' \<in> set r"
  shows "parse_URL (proto @ ''://'' @ r) u =
    Inl (Invalid_argument ''Cannot parse login information.'')"
proof -
  have "str_find ''://'' (proto @ ''://'' @ r) 0 = Some (length proto)"
    using find_proto [OF assms(1), of r] by (simp add: str_find_def)
  moreover obtain i where "find_pat ''@'' r = Some i"
    using assms(3) by (cases "find_pat ''@'' r") (auto simp: find_pat_char_None)
  then have "parse_login ((proto @ ''://'') @ r) (length (proto @ ''://'')) v =
      Inl (Invalid_argument ''Cannot parse login information.'')" for v
    using assms(2)
    by (simp add: parse_login_def cstr_simps del: append_assoc length_append)
  ultimately show ?thesis by (simp add: parse_URL_def numeral_3_eq_3)
qed

theorem parse_URL_at_without_login_witness:
  "\<forall>u. parse_URL (''stomp'' @ ''://'' @ ''broker/a@b'') u =
     Inl (Invalid_argument ''Cannot parse login information.'')"
  by (rule allI, rule parse_URL_at_without_login) simp_all

end
