(* ===== verification/Tcp_Socket.thy ===== *)
theory Tcp_Socket
  imports Log_Level Cpp_String "HOL-Library.Word"
begin

section \<open>The client socket (tcp_client_socket.h, tcs_private.h, tcp_client_socket.cpp)\<close>

text \<open>
  Connecting to the first address that answers, the SOCKS5 handshake, the SSL session and the
  read, select and write calls, as built with \<^verbatim>\<open>getaddrinfo\<close> and OpenSSL on a Unix system.
  The system calls and OpenSSL are arguments: what each call of a run returns. An operation
  returns its result or exception together with the state it leaves, because the exceptions of
  this class are caught while the object lives on. \<open>tcs_sent\<close> is what the calls that
  succeeded have written to the network, \<open>tcs_log\<close> what has been logged as \<^verbatim>\<open>TCPSocket\<close>.
\<close>

unbundle bit_operations_syntax

record tcs_private =
  tcs_host :: string
  tcs_port :: "16 word"
  tcs_use_socks :: bool
  tcs_socks_host :: string
  tcs_socks_port :: "16 word"
  tcs_socket :: int
  tcs_use_ssl :: bool
  tcs_ssl_active :: bool
  tcs_ssl_self_signed_ok :: bool
  tcs_sent :: "8 word list list"
  tcs_log :: "(log_level \<times> string) list"

type_synonym 'a tcs_result = "(exn + 'a) \<times> tcs_private"

definition tcs_bind :: "'a tcs_result \<Rightarrow> ('a \<Rightarrow> tcs_private \<Rightarrow> 'b tcs_result) \<Rightarrow> 'b tcs_result" where
  "tcs_bind m f = (case m of (Inl e, s) \<Rightarrow> (Inl e, s) | (Inr x, s) \<Rightarrow> f x s)"

lemma tcs_bind_simps [simp]:
  "tcs_bind (Inl e, s) f = (Inl e, s)"
  "tcs_bind (Inr x, s) f = f x s"
  by (simp_all add: tcs_bind_def)

definition tcs_note :: "log_level \<Rightarrow> string \<Rightarrow> tcs_private \<Rightarrow> tcs_private" where
  "tcs_note l msg s = s\<lparr>tcs_log := tcs_log s @ [(l, msg)]\<rparr>"

definition invalid_socket :: int where "invalid_socket = -1"

text \<open>The constructor also ignores \<^verbatim>\<open>SIGPIPE\<close>, a signal for which \<^verbatim>\<open>sigaction\<close> does not fail.\<close>

definition new_tcp_client_socket :: "string \<Rightarrow> 16 word \<Rightarrow> tcs_private" where
  "new_tcp_client_socket host port =
     \<lparr>tcs_host = host, tcs_port = port, tcs_use_socks = False, tcs_socks_host = [], tcs_socks_port = 0,
      tcs_socket = invalid_socket, tcs_use_ssl = False, tcs_ssl_active = False,
      tcs_ssl_self_signed_ok = False, tcs_sent = [], tcs_log = []\<rparr>"

definition use_SOCKS :: "string \<Rightarrow> 16 word \<Rightarrow> tcs_private \<Rightarrow> tcs_private" where
  "use_SOCKS host port s =
     (if host = [] then s\<lparr>tcs_use_socks := False\<rparr>
      else s\<lparr>tcs_use_socks := True, tcs_socks_host := host, tcs_socks_port := port\<rparr>)"

definition use_SSL :: "bool \<Rightarrow> tcs_private \<Rightarrow> tcs_private" where
  "use_SSL self_signed_ok s = s\<lparr>tcs_use_ssl := True, tcs_ssl_self_signed_ok := self_signed_ok\<rparr>"

definition tcs_disconnect :: "tcs_private \<Rightarrow> tcs_private" where
  "tcs_disconnect s = s\<lparr>tcs_socket := invalid_socket\<rparr>"

definition destroy_tcp_client_socket :: "tcs_private \<Rightarrow> tcs_private" where
  "destroy_tcp_client_socket s = tcs_disconnect s"

definition tcs_connected :: "tcs_private \<Rightarrow> bool" where
  "tcs_connected s \<longleftrightarrow> tcs_socket s \<noteq> invalid_socket"

subsection \<open>Reading and writing\<close>

text \<open>\<open>ret\<close> is what \<^verbatim>\<open>SSL_write\<close> or \<^verbatim>\<open>write\<close> returns.\<close>

definition tcs_write :: "int \<Rightarrow> 8 word list \<Rightarrow> tcs_private \<Rightarrow> unit tcs_result" where
  "tcs_write ret dat s =
     (if \<not> tcs_connected s then (Inl (Runtime_error ''Not connected''), s)
      else if ret \<noteq> int (length dat) then (Inl (Runtime_error ''Write failed.''), s)
      else (Inr (), s\<lparr>tcs_sent := tcs_sent s @ [dat]\<rparr>))"

text \<open>\<open>got\<close> is what \<^verbatim>\<open>SSL_read\<close> or \<^verbatim>\<open>read\<close> delivers, \<open>None\<close> for a negative result.\<close>

definition tcs_read :: "8 word list option \<Rightarrow> nat \<Rightarrow> tcs_private \<Rightarrow> 8 word list tcs_result" where
  "tcs_read got len s =
     (if \<not> tcs_connected s then (Inl (Runtime_error ''Not connected.''), s)
      else case got of
          None \<Rightarrow> (Inl (Runtime_error (if tcs_ssl_active s then ''SSL_read failed.'' else ''Read failed.'')), s)
        | Some dat \<Rightarrow> (Inr (take len dat), s))"

text \<open>
  The result of \<^verbatim>\<open>select\<close>: an error, a timeout, one descriptor (in the read set, in the
  exception set, in neither), or more than one.
\<close>

datatype select_result = Sel_error | Sel_timeout | Sel_read | Sel_except | Sel_neither | Sel_many

definition select_read :: "bool \<Rightarrow> select_result \<Rightarrow> tcs_private \<Rightarrow> bool tcs_result" where
  "select_read ssl_pending sel s =
     (if \<not> tcs_connected s then (Inl (Runtime_error ''Not connected.''), s)
      else if tcs_ssl_active s \<and> ssl_pending then (Inr True, s)
      else case sel of
          Sel_error \<Rightarrow> (Inl (Runtime_error ''Select failed.''), s)
        | Sel_timeout \<Rightarrow> (Inr False, s)
        | Sel_read \<Rightarrow> (Inr True, s)
        | Sel_except \<Rightarrow> (Inl (Runtime_error ''Exception on the socket.''), s)
        | Sel_neither \<Rightarrow> (Inl (Runtime_error ''Cannot find what ended select.''), s)
        | Sel_many \<Rightarrow> (Inl (Runtime_error ''Cannot understand the result of select.''), s))"

subsection \<open>The SOCKS handshake\<close>

definition s_SOCKS_messages :: "(8 word, string) std_map" where
  "s_SOCKS_messages =
     [(0x00, ''succeeded''), (0x01, ''general SOCKS server failure''),
      (0x02, ''connection not allowed by ruleset''), (0x03, ''Network unreachable''),
      (0x04, ''Host unreachable''), (0x05, ''Connection refused''), (0x06, ''TTL expired''),
      (0x07, ''Command not supported''), (0x08, ''Address type not supported'')]"

text \<open>What the calls of one handshake return, in their order.\<close>

record socks_env =
  se_write1 :: int
  se_select1 :: "bool \<times> select_result"
  se_read1 :: "8 word list option"
  se_write2 :: int
  se_select2 :: "bool \<times> select_result"
  se_read2 :: "8 word list option"

text \<open>A buffer of \<open>n\<close> zero bytes after data has been read into it.\<close>

definition into_buffer :: "nat \<Rightarrow> 8 word list \<Rightarrow> 8 word list" where
  "into_buffer n dat = take n dat @ replicate (n - length dat) 0"

definition byte_of_char :: "char \<Rightarrow> 8 word" where
  "byte_of_char c = of_nat (char_code c)"

definition socks_request :: "string \<Rightarrow> 16 word \<Rightarrow> 8 word list" where
  "socks_request host port =
     [0x05, 0x01, 0x00, 0x03, of_nat (length host)] @ map byte_of_char host @
     [ucast (drop_bit 8 port), ucast (port AND 0xFF)]"

definition socks_check_version :: "8 word list \<Rightarrow> tcs_private \<Rightarrow> unit tcs_result" where
  "socks_check_version buf s =
     (if buf ! 0 \<noteq> 0x05 \<or> buf ! 1 \<noteq> 0x00
      then (Inl (Runtime_error ''SOCKS handshake failed.''), s) else (Inr (), s))"

definition socks_check_reply :: "8 word list \<Rightarrow> tcs_private \<Rightarrow> unit tcs_result" where
  "socks_check_reply buf s =
     (if buf ! 0 \<noteq> 0x05 \<or> buf ! 2 \<noteq> 0x00
      then (Inl (Runtime_error ''SOCKS handshake failed.''), s)
      else if buf ! 1 \<noteq> 0x00
      then (case map_find (buf ! 2) s_SOCKS_messages of
              Some msg \<Rightarrow> (Inl (Runtime_error msg), s)
            | None \<Rightarrow> (Inl (Runtime_error ''Unknown SOCKS error''), s))
      else (Inr (), tcs_note Finer ''SOCKS connection established.'' s))"

definition start_SOCKS :: "socks_env \<Rightarrow> tcs_private \<Rightarrow> unit tcs_result" where
  "start_SOCKS env s =
     tcs_bind (tcs_write (se_write1 env) [0x05, 0x01, 0x00] s) (\<lambda>_ s.
     tcs_bind (select_read (fst (se_select1 env)) (snd (se_select1 env)) s) (\<lambda>_ s.
     tcs_bind (tcs_read (se_read1 env) 2 s) (\<lambda>dat s.
     tcs_bind (socks_check_version (into_buffer 2 dat) s) (\<lambda>_ s.
       if length (tcs_host s) > 255
       then (Inl (Invalid_argument ''host name too long for SOCKS request.''), s)
       else
         tcs_bind (tcs_write (se_write2 env) (socks_request (tcs_host s) (tcs_port s)) s) (\<lambda>_ s.
         tcs_bind (select_read (fst (se_select2 env)) (snd (se_select2 env)) s) (\<lambda>_ s.
         tcs_bind (tcs_read (se_read2 env) 10 s) (\<lambda>dat s.
           socks_check_reply (into_buffer 10 dat) s)))))))"

subsection \<open>The SSL session\<close>

datatype verify_result = V_ok | V_depth_zero_self_signed | V_self_signed_in_chain | V_error string

text \<open>
  What OpenSSL answers: initialisation, the context, the handshake, the name in the peer's
  certificate (its default ciphers include no anonymous ones, so a server that has passed the
  handshake has presented one) and its verification.
\<close>

record ssl_env =
  ssl_init_ok :: bool
  ssl_ctx_ok :: bool
  ssl_connect_ok :: bool
  ssl_cert :: string
  ssl_verify :: verify_result

definition verify_message :: "verify_result \<Rightarrow> string" where
  "verify_message v = (case v of V_error msg \<Rightarrow> msg | V_ok \<Rightarrow> ''ok''
     | V_depth_zero_self_signed \<Rightarrow> ''self-signed certificate''
     | V_self_signed_in_chain \<Rightarrow> ''self-signed certificate in certificate chain'')"

definition start_SSL :: "ssl_env \<Rightarrow> tcs_private \<Rightarrow> unit tcs_result" where
  "start_SSL env s =
     (if \<not> ssl_init_ok env then (Inl (Runtime_error ''Failed to initialize OpenSSL.''), s)
      else if \<not> ssl_ctx_ok env then (Inl (Runtime_error ''Could not create SSL context.''), s)
      else if \<not> ssl_connect_ok env then (Inl (Runtime_error ''Could not establish SSL session.''), s)
      else
        let s1 = tcs_note Config (''name: '' @ ssl_cert env) s;
            active = (\<lambda>s. (Inr (), tcs_note Finer ''SSL connection established.'' (s\<lparr>tcs_ssl_active := True\<rparr>)))
        in if ssl_verify env = V_ok then active s1
           else if tcs_ssl_self_signed_ok s1 \<and>
             ssl_verify env \<in> {V_depth_zero_self_signed, V_self_signed_in_chain}
           then active (tcs_note Finest ''Accepting self-signed certificate.'' s1)
           else (Inl (Runtime_error (verify_message (ssl_verify env))), s1))"

subsection \<open>Connecting\<close>

text \<open>
  One address of \<^verbatim>\<open>getaddrinfo\<close>: its text form if it has one, the descriptor
  \<^verbatim>\<open>socket\<close> returns for it and, unless \<^verbatim>\<open>connect\<close> succeeds, the error's text.
\<close>

record address =
  ad_ip :: "string option"
  ad_socket :: int
  ad_error :: "string option"

definition connect_to_ip :: "address \<Rightarrow> tcs_private \<Rightarrow> bool \<times> tcs_private" where
  "connect_to_ip a s =
     (let s1 =
        (case ad_ip a of
           None \<Rightarrow> s
         | Some ip \<Rightarrow>
             if tcs_use_socks s
             then tcs_note Info (''Connecting to SOCKS server '' @ tcs_socks_host s @ '' ('' @ ip @ '':'' @
                    show_nat (unat (tcs_socks_port s)) @ '').'') s
             else tcs_note Info (''Connecting to '' @ tcs_host s @ '' ('' @ ip @ '':'' @
                    show_nat (unat (tcs_port s)) @ '').'') s);
          s2 = s1\<lparr>tcs_socket := ad_socket a\<rparr>
      in if tcs_socket s2 < 0 then (False, s2)
         else case ad_error a of
             Some err \<Rightarrow>
               (False, (tcs_note Warning (''Connection failed: '' @ err) s2)\<lparr>tcs_socket := invalid_socket\<rparr>)
           | None \<Rightarrow> (True, tcs_note Finer ''Connected.'' s2))"

fun connect_to_first :: "address list \<Rightarrow> tcs_private \<Rightarrow> tcs_private" where
  "connect_to_first [] s = s"
| "connect_to_first (a # as) s =
     (let (ok, s1) = connect_to_ip a s in if ok then s1 else connect_to_first as s1)"

text \<open>
  \<open>resolve\<close> is \<^verbatim>\<open>getaddrinfo\<close>: the addresses of a host and port, or the text of its error.
\<close>

definition tcs_connect ::
  "(string \<Rightarrow> string \<Rightarrow> string + address list) \<Rightarrow> socks_env \<Rightarrow> ssl_env \<Rightarrow> tcs_private \<Rightarrow> unit tcs_result" where
  "tcs_connect resolve socks ssl s =
     (let host = (if tcs_use_socks s then tcs_socks_host s else tcs_host s);
          port = (if tcs_use_socks s then tcs_socks_port s else tcs_port s)
      in case resolve host (show_nat (unat port)) of
          Inl err \<Rightarrow>
            let msg = ''getaddrinfo('' @ host @ '') failed: '' @ err
            in (Inl (Runtime_error msg), tcs_note Warning msg s)
        | Inr addresses \<Rightarrow>
            let s1 = connect_to_first addresses s
            in if tcs_socket s1 = invalid_socket then (Inl (Runtime_error ''Could not connect.''), s1)
               else
                 tcs_bind (if tcs_use_socks s1 then start_SOCKS socks s1 else (Inr (), s1)) (\<lambda>_ s2.
                   if tcs_use_ssl s2 then start_SSL ssl s2 else (Inr (), s2)))"

subsection \<open>Choosing the address\<close>

definition address_ok :: "address \<Rightarrow> bool" where
  "address_ok a \<longleftrightarrow> 0 \<le> ad_socket a \<and> ad_error a = None"

lemma connect_to_ip_socket:
  assumes "ad_socket a \<ge> -1"
  shows "fst (connect_to_ip a s) = address_ok a"
    and "tcs_socket (snd (connect_to_ip a s)) = (if address_ok a then ad_socket a else invalid_socket)"
    and "tcs_use_socks (snd (connect_to_ip a s)) = tcs_use_socks s"
    and "tcs_use_ssl (snd (connect_to_ip a s)) = tcs_use_ssl s"
  using assms
  by (auto simp: connect_to_ip_def address_ok_def invalid_socket_def tcs_note_def Let_def split: option.splits)

lemma connect_to_first_socket:
  assumes "\<forall>a \<in> set as. ad_socket a \<ge> -1" "tcs_socket s = invalid_socket"
  shows "tcs_socket (connect_to_first as s) =
      (case find address_ok as of None \<Rightarrow> invalid_socket | Some a \<Rightarrow> ad_socket a) \<and>
    tcs_use_socks (connect_to_first as s) = tcs_use_socks s \<and>
    tcs_use_ssl (connect_to_first as s) = tcs_use_ssl s"
  using assms
proof (induction as arbitrary: s)
  case (Cons a as)
  define s1 where "s1 = snd (connect_to_ip a s)"
  have eq: "connect_to_first (a # as) s = (if fst (connect_to_ip a s) then s1 else connect_to_first as s1)"
    by (simp add: s1_def split: prod.splits)
  have "ad_socket a \<ge> -1" using Cons.prems(1) by simp
  note step = connect_to_ip_socket [OF this, of s, folded s1_def]
  show ?case
    using step Cons.IH [of s1] Cons.prems by (auto simp: eq simp del: connect_to_first.simps)
qed simp

lemma connect_to_first_sent: "tcs_sent (connect_to_first as s) = tcs_sent s"
proof (induction as arbitrary: s)
  case (Cons a as)
  have "tcs_sent (snd (connect_to_ip a s)) = tcs_sent s"
    by (simp add: connect_to_ip_def tcs_note_def Let_def split: option.split)
  then show ?case using Cons.IH by (cases "connect_to_ip a s") simp
qed simp

lemma tcs_connect_direct:
  assumes "\<not> tcs_connected s" "\<not> tcs_use_socks s" "\<not> tcs_use_ssl s"
    and "resolve (tcs_host s) (show_nat (unat (tcs_port s))) = Inr addresses"
    and "\<forall>a \<in> set addresses. ad_socket a \<ge> -1" "find address_ok addresses \<noteq> None"
  shows "\<exists>s'. tcs_connect resolve socks ssl s = (Inr (), s') \<and> tcs_connected s' \<and> tcs_sent s' = tcs_sent s"
proof -
  have inv: "tcs_socket s = invalid_socket" using assms(1) by (simp add: tcs_connected_def)
  obtain a where a: "find address_ok addresses = Some a" using assms(6) by blast
  then have "ad_socket a \<noteq> invalid_socket" by (auto simp: find_Some_iff address_ok_def invalid_socket_def)
  then show ?thesis
    using assms(2-4) connect_to_first_socket [OF assms(5) inv] a
    by (simp add: tcs_connect_def tcs_connected_def connect_to_first_sent Let_def)
qed

text \<open>
  A direct connection goes to the first address that can be connected: from an
  unconnected socket \<^verbatim>\<open>connect\<close> succeeds exactly when some address of the host answers, and
  then holds the descriptor of the first such address; otherwise it throws and stays
  unconnected. (A failing \<^verbatim>\<open>socket\<close> call returns -1.)
\<close>

theorem tcs_connect_first_address:
  assumes "\<not> tcs_connected s" "\<not> tcs_use_socks s" "\<not> tcs_use_ssl s"
    and "resolve (tcs_host s) (show_nat (unat (tcs_port s))) = Inr addresses"
    and "\<forall>a \<in> set addresses. ad_socket a \<ge> -1"
  shows "case find address_ok addresses of
      Some a \<Rightarrow> \<exists>s'. tcs_connect resolve socks ssl s = (Inr (), s') \<and> tcs_socket s' = ad_socket a
    | None \<Rightarrow> \<exists>s'. tcs_connect resolve socks ssl s = (Inl (Runtime_error ''Could not connect.''), s') \<and>
        \<not> tcs_connected s'"
proof -
  have inv: "tcs_socket s = invalid_socket" using assms(1) by (simp add: tcs_connected_def)
  note first = connect_to_first_socket [OF assms(5) inv]
  have "ad_socket a \<noteq> invalid_socket" if "find address_ok addresses = Some a" for a
    using that by (auto simp: find_Some_iff address_ok_def invalid_socket_def)
  then show ?thesis
    using assms(2-4) first
    by (auto simp: tcs_connect_def tcs_connected_def Let_def split: option.splits)
qed

definition sample_addresses :: "address list" where
  "sample_addresses =
     [\<lparr>ad_ip = Some ''::1'', ad_socket = 3, ad_error = Some ''refused''\<rparr>,
      \<lparr>ad_ip = Some ''127.0.0.1'', ad_socket = 4, ad_error = None\<rparr>]"

theorem tcs_connect_first_address_witness:
  "\<forall>socks ssl. \<exists>s'. tcs_connect (\<lambda>_ _. Inr sample_addresses) socks ssl
      (new_tcp_client_socket ''localhost'' 61613) = (Inr (), s') \<and> tcs_socket s' = 4"
proof (intro allI)
  fix socks ssl
  let ?s = "new_tcp_client_socket ''localhost'' 61613"
  have "\<not> tcs_connected ?s" "\<not> tcs_use_socks ?s" "\<not> tcs_use_ssl ?s" "\<forall>a \<in> set sample_addresses. ad_socket a \<ge> -1"
    by (simp_all add: new_tcp_client_socket_def tcs_connected_def sample_addresses_def)
  moreover have "find address_ok sample_addresses = Some \<lparr>ad_ip = Some ''127.0.0.1'', ad_socket = 4, ad_error = None\<rparr>"
    by (simp add: sample_addresses_def address_ok_def)
  ultimately show "\<exists>s'. tcs_connect (\<lambda>_ _. Inr sample_addresses) socks ssl ?s = (Inr (), s') \<and> tcs_socket s' = 4"
    using tcs_connect_first_address [of ?s "\<lambda>_ _. Inr sample_addresses" sample_addresses socks ssl] by simp
qed

subsection \<open>What the SOCKS server is asked\<close>

text \<open>How a SOCKS5 server reads a connection request by domain name.\<close>

definition socks_decode :: "8 word list \<Rightarrow> (string \<times> 16 word) option" where
  "socks_decode req =
     (case req of
        v # cmd # rsv # atyp # n # rest \<Rightarrow>
          if v = 5 \<and> cmd = 1 \<and> rsv = 0 \<and> atyp = 3 \<and> length rest = unat n + 2
          then Some (map (\<lambda>b. char_of (unat b)) (take (unat n) rest),
                 push_bit 8 (ucast (rest ! unat n)) OR ucast (rest ! (unat n + 1)))
          else None
      | _ \<Rightarrow> None)"

lemma char_of_byte: "char_of (unat (byte_of_char c)) = c"
  by (simp add: byte_of_char_def char_code_def unat_of_nat)

lemma port_bytes:
  fixes port :: "16 word"
  shows "push_bit 8 (ucast (ucast (drop_bit 8 port) :: 8 word)) OR ucast (ucast (port AND 0xFF) :: 8 word) = port"
proof (rule bit_word_eqI)
  fix n
  assume n: "n < LENGTH(16)"
  have mask: "(0xFF :: 16 word) = mask 8" by (simp add: mask_eq_exp_minus_1)
  show "bit (push_bit 8 (ucast (ucast (drop_bit 8 port) :: 8 word)) OR ucast (ucast (port AND 0xFF) :: 8 word) :: 16 word) n =
      bit port n"
    using n unfolding mask by (auto simp: bit_simps)
qed

text \<open>
  The request sent to the SOCKS server is read by it as a request for exactly the
  configured host and port, for every host name of at most 255 bytes and every port.
\<close>

theorem socks_request_decodes:
  assumes "length host \<le> 255"
  shows "socks_decode (socks_request host port) = Some (host, port)"
proof -
  have len: "unat (of_nat (length host) :: 8 word) = length host"
    using assms by (simp add: unat_of_nat)
  have "map (\<lambda>b. char_of (unat b)) (map byte_of_char host) = host"
    by (simp add: char_of_byte comp_def)
  then show ?thesis
    using port_bytes [of port] by (simp add: socks_decode_def socks_request_def len nth_append)
qed

theorem socks_request_decodes_witness:
  "socks_decode (socks_request ''broker'' 61613) = Some (''broker'', 61613)"
  by (rule socks_request_decodes) simp

subsection \<open>What the SOCKS server answers\<close>

text \<open>
  C37. The outcome of a SOCKS handshake with a server that follows the protocol up to its reply
  code: code 0 establishes the connection; with any other code \<^verbatim>\<open>start_SOCKS\<close> throws, but
  always with the message ''succeeded'', because the message is looked up with the reserved
  byte, and leaves the socket connected to the SOCKS server.
\<close>

theorem start_SOCKS_reply:
  assumes "tcs_connected s" "length (tcs_host s) \<le> 255"
    and "se_write1 env = 3" "snd (se_select1 env) = Sel_read" "se_read1 env = Some [0x05, 0x00]"
    and "se_write2 env = int (length (tcs_host s)) + 7" "snd (se_select2 env) = Sel_read"
    and "se_read2 env = Some (0x05 # code # 0x00 # rest)"
  shows "\<exists>s'. start_SOCKS env s = (if code = 0 then Inr () else Inl (Runtime_error ''succeeded''), s') \<and>
    tcs_connected s' \<and> tcs_sent s' = tcs_sent s @ [[0x05, 0x01, 0x00], socks_request (tcs_host s) (tcs_port s)]"
  using assms
  by (simp add: start_SOCKS_def tcs_write_def tcs_read_def select_read_def tcs_connected_def
      socks_check_version_def socks_check_reply_def into_buffer_def socks_request_def
      s_SOCKS_messages_def map_find_def tcs_note_def)

theorem start_SOCKS_reply_witness:
  "\<exists>s'. start_SOCKS
      \<lparr>se_write1 = 3, se_select1 = (False, Sel_read), se_read1 = Some [0x05, 0x00],
       se_write2 = 13, se_select2 = (False, Sel_read), se_read2 = Some [0x05, 0x04, 0x00]\<rparr>
      ((new_tcp_client_socket ''broker'' 61613)\<lparr>tcs_socket := 3\<rparr>) =
    (Inl (Runtime_error ''succeeded''), s') \<and> tcs_connected s'"
  using start_SOCKS_reply [of "(new_tcp_client_socket ''broker'' 61613)\<lparr>tcs_socket := 3\<rparr>"
      "\<lparr>se_write1 = 3, se_select1 = (False, Sel_read), se_read1 = Some [0x05, 0x00],
       se_write2 = 13, se_select2 = (False, Sel_read), se_read2 = Some [0x05, 0x04, 0x00]\<rparr>" "0x04" "[]"]
  by (auto simp: new_tcp_client_socket_def tcs_connected_def invalid_socket_def)

subsection \<open>A session that outlives its connection\<close>

lemma ssl_active_kept:
  "tcs_ssl_active s \<Longrightarrow> tcs_ssl_active (snd (tcs_write r d s))"
  "tcs_ssl_active s \<Longrightarrow> tcs_ssl_active (snd (tcs_read g n s))"
  "tcs_ssl_active s \<Longrightarrow> tcs_ssl_active (snd (select_read b sel s))"
  "tcs_ssl_active s \<Longrightarrow> tcs_ssl_active (snd (socks_check_version buf s))"
  "tcs_ssl_active s \<Longrightarrow> tcs_ssl_active (snd (socks_check_reply buf s))"
  "tcs_ssl_active s \<Longrightarrow> tcs_ssl_active (snd (start_SSL ssl s))"
  "tcs_ssl_active s \<Longrightarrow> tcs_ssl_active (snd (connect_to_ip a s))"
  by (auto simp: tcs_write_def tcs_read_def select_read_def socks_check_version_def
      socks_check_reply_def start_SSL_def connect_to_ip_def tcs_note_def Let_def
      split: option.splits select_result.splits)

lemma ssl_active_bind:
  assumes "tcs_ssl_active (snd m)" "\<And>x s. m = (Inr x, s) \<Longrightarrow> tcs_ssl_active s \<Longrightarrow> tcs_ssl_active (snd (f x s))"
  shows "tcs_ssl_active (snd (tcs_bind m f))"
  using assms by (cases m; cases "fst m") auto

lemma ssl_active_first: "tcs_ssl_active s \<Longrightarrow> tcs_ssl_active (connect_to_first as s)"
proof (induction as arbitrary: s)
  case (Cons a as)
  have "connect_to_first (a # as) s =
      (if fst (connect_to_ip a s) then snd (connect_to_ip a s) else connect_to_first as (snd (connect_to_ip a s)))"
    by (simp split: prod.splits)
  then show ?case using Cons ssl_active_kept(7) by simp
qed simp

lemma ssl_active_SOCKS: "tcs_ssl_active s \<Longrightarrow> tcs_ssl_active (snd (start_SOCKS env s))"
  unfolding start_SOCKS_def
  by (intro ssl_active_bind ssl_active_kept; (assumption | simp split: if_splits | intro ssl_active_bind ssl_active_kept impI conjI)+)

text \<open>
  The mark of an SSL session is never taken back: once \<^verbatim>\<open>m_ssl_active\<close> is set, it is
  still set after disconnecting and any attempt to connect again, successful or not, with or
  without a new SSL handshake. Until such a handshake replaces it, \<^verbatim>\<open>read\<close>,
  \<^verbatim>\<open>write\<close> and \<^verbatim>\<open>select_read\<close> work on the session of the old connection (so the SOCKS
  handshake of a second connection is sent through it).
\<close>

theorem ssl_active_survives_reconnect:
  assumes "tcs_ssl_active s"
  shows "tcs_ssl_active (snd (tcs_connect resolve socks ssl (tcs_disconnect s)))"
proof -
  have "tcs_ssl_active (tcs_disconnect s)" using assms by (simp add: tcs_disconnect_def)
  moreover have "tcs_ssl_active (snd (tcs_bind (if b then start_SOCKS socks s1 else (Inr (), s1))
      (\<lambda>_ s2. if tcs_use_ssl s2 then start_SSL ssl s2 else (Inr (), s2))))" if "tcs_ssl_active s1" for b s1
    by (rule ssl_active_bind) (use that ssl_active_SOCKS ssl_active_kept(6) in auto)
  ultimately show ?thesis
    using ssl_active_first
    by (auto simp: tcs_connect_def tcs_note_def Let_def simp del: tcs_bind_simps split: sum.splits)
qed

theorem ssl_active_survives_reconnect_witness:
  "\<forall>resolve socks ssl. tcs_ssl_active (snd (tcs_connect resolve socks ssl (tcs_disconnect
     ((new_tcp_client_socket ''broker'' 61613)\<lparr>tcs_socket := 3, tcs_ssl_active := True\<rparr>))))"
  by (intro allI ssl_active_survives_reconnect) simp

end
