(* ===== verification/Stomp_Frame.thy ===== *)
theory Stomp_Frame
  imports Stomp_Text Line_Splitter Parse_Url Tcp_Socket
begin

section \<open>Frames of the message server (output_stream_stomp.h, output_stream_stomp.cpp)\<close>

text \<open>
  The state of the STOMP sink, the parser of the server's frames (\<^verbatim>\<open>handle_reply\<close>), the
  two checks of the \<^verbatim>\<open>CONNECTED\<close> frame and the thread that cuts the incoming bytes into
  frames. \<open>sp_log\<close> is what the sink logs under its own subsystem \<^verbatim>\<open>stomp\<close>.
\<close>

record stomp_reply =
  sr_command :: string
  sr_headers :: "(string, string) std_map"
  sr_body :: string

text \<open>\<open>sp_connect_thread\<close>: \<^verbatim>\<open>m_connect_thread\<close> is joinable.\<close>

record stomp_stream =
  sp_app_name :: string
  sp_host :: string
  sp_URL :: URL_info
  sp_user :: string
  sp_heartbeat_interval :: int
  sp_level_strings :: "(log_level, string) std_map"
  sp_receipt :: "32 word"
  sp_last_was_data :: bool
  sp_partial_reply :: string
  sp_reply_queue :: "stomp_reply list"
  sp_socket :: tcs_private
  sp_connected :: bool
  sp_connecting :: bool
  sp_connect_thread :: bool
  sp_connect_thread_done :: bool
  sp_log :: "(log_level \<times> string) list"

definition stomp_note :: "log_level \<Rightarrow> string \<Rightarrow> stomp_stream \<Rightarrow> stomp_stream" where
  "stomp_note l msg sp = sp\<lparr>sp_log := sp_log sp @ [(l, msg)]\<rparr>"

definition stomp_disconnect :: "stomp_stream \<Rightarrow> stomp_stream" where
  "stomp_disconnect sp = sp\<lparr>sp_socket := tcs_disconnect (sp_socket sp), sp_connected := False\<rparr>"

subsection \<open>Parsing a frame\<close>

text \<open>The headers after the line feed at \<open>i\<close>: the map and the index of the empty line's end.\<close>

function header_loop ::
  "string \<Rightarrow> nat \<Rightarrow> (string, string) std_map \<Rightarrow> ((string, string) std_map \<times> nat) option" where
  "header_loop frame i headers =
     (if length frame < i + 1 then None
      else case str_find_char newline frame (i + 1) of
          None \<Rightarrow> None
        | Some j \<Rightarrow>
            if j = i + 1 then Some (headers, j)
            else
              let line = take (j - (i + 1)) (drop (i + 1) frame)
              in case str_find_char (CHR '':'') line 0 of
                  None \<Rightarrow> None
                | Some colon \<Rightarrow>
                    let key = take colon line; val = drop (colon + 1) line
                    in if map_find key headers \<noteq> None then header_loop frame j headers
                       else header_loop frame j (map_emplace key val headers))"
  by pat_completeness auto
termination
  by (relation "measure (\<lambda>(frame, i, headers). length frame - i)") (auto dest!: str_find_char_bounds)

declare header_loop.simps [simp del]

definition parse_frame :: "string \<Rightarrow> stomp_reply option" where
  "parse_frame frame =
     (case str_find_char newline frame 0 of
        None \<Rightarrow> None
      | Some i \<Rightarrow>
          (case header_loop frame i [] of
             None \<Rightarrow> None
           | Some (headers, j) \<Rightarrow>
               if length frame < j + 1 then None
               else Some \<lparr>sr_command = take i frame, sr_headers = headers, sr_body = drop (j + 1) frame\<rparr>))"

text \<open>An \<^verbatim>\<open>ERROR\<close> frame is logged: its message, then its body line by line.\<close>

definition error_notes :: "stomp_reply \<Rightarrow> (log_level \<times> string) list" where
  "error_notes reply =
     (let err_text = ''ERROR from server'' @
            (case map_find ''message'' (sr_headers reply) of None \<Rightarrow> [] | Some msg \<Rightarrow> '': '' @ msg)
      in (Warning, err_text) #
         map (Pair Fine) (destroy_line_splitter (read_and_forward new_line_splitter (sr_body reply))))"

definition handle_reply :: "string \<Rightarrow> stomp_stream \<Rightarrow> bool \<times> stomp_stream" where
  "handle_reply frame sp =
     (case parse_frame frame of
        None \<Rightarrow> (False, sp)
      | Some reply \<Rightarrow>
          let sp1 = (if sr_command reply = ''ERROR'' then sp\<lparr>sp_log := sp_log sp @ error_notes reply\<rparr> else sp)
          in (True, sp1\<lparr>sp_reply_queue := sp_reply_queue sp1 @ [reply]\<rparr>))"

definition check_server_version :: "stomp_reply \<Rightarrow> stomp_stream \<Rightarrow> bool \<times> stomp_stream" where
  "check_server_version reply sp =
     (case map_find ''version'' (sr_headers reply) of
        None \<Rightarrow> (False, stomp_note Warning ''No version header in CONNECTED frame.'' sp)
      | Some ver \<Rightarrow>
          if ver \<noteq> ''1.1''
          then (False, stomp_note Warning
                 (''STOMP server requests version '' @ ver @ '', that we don'' @ [squote] @ ''t speak.'') sp)
          else (True, sp))"

definition parse_heartbeat :: "stomp_reply \<Rightarrow> stomp_stream \<Rightarrow> bool \<times> stomp_stream" where
  "parse_heartbeat reply sp =
     (case map_find ''heart-beat'' (sr_headers reply) of
        None \<Rightarrow> (True, (stomp_note Info ''No heart-beat header in CONNECTED frame.'' sp)\<lparr>sp_heartbeat_interval := 0\<rparr>)
      | Some hb \<Rightarrow>
          (case str_find_char (CHR '','') hb 0 of
             None \<Rightarrow> (False, stomp_note Warning
               (''Cannot parse heart-beat header '' @ [squote] @ hb @ [squote] @ '': no comma.'') sp)
           | Some comma \<Rightarrow>
               if drop (comma + 1) hb \<noteq> ''0''
               then (False, stomp_note Warning
                 (''Cannot accept heart-beat header '' @ [squote] @ hb @ [squote] @ '': sy != 0.'') sp)
               else
                 let sx = take comma hb;
                     (n, endptr) = strtol 10 sx;
                     sp1 = sp\<lparr>sp_heartbeat_interval := n\<rparr>
                 in if endptr \<noteq> []
                    then (False, stomp_note Warning
                      (''Cannot parse heart-beat header '' @ [squote] @ hb @ [squote] @ '': sx no integer.'') sp1)
                    else if n \<noteq> 0
                    then (True, stomp_note Finer (''Heartbeat interval = '' @ show_int n @ ''ms.'') sp1)
                    else (True, stomp_note Config ''No heartbeat.'' sp1)))"

subsection \<open>The reader thread\<close>

text \<open>
  The loop over the bytes of one buffer, from \<^verbatim>\<open>sod\<close> on. The \<^verbatim>\<open>break\<close> after a bad frame
  leaves this loop and drops the rest of the buffer.
\<close>

function buffer_loop :: "string \<Rightarrow> stomp_stream \<Rightarrow> stomp_stream" where
  "buffer_loop sod0 sp =
     (let sod = (if sp_partial_reply sp = [] then dropWhile (\<lambda>c. c = newline) sod0 else sod0)
      in if sod = [] then sp
         else
           let sp1 = sp\<lparr>sp_last_was_data := True,
                        sp_partial_reply := sp_partial_reply sp @ takeWhile (\<lambda>c. c \<noteq> nul) sod\<rparr>;
               rest = dropWhile (\<lambda>c. c \<noteq> nul) sod
           in if rest = [] then sp1
              else
                let (ret, sp2) = handle_reply (sp_partial_reply sp1) sp1;
                    sp3 = sp2\<lparr>sp_partial_reply := []\<rparr>
                in if \<not> ret then stomp_disconnect sp3 else buffer_loop (tl rest) sp3)"
  by pat_completeness auto
termination
proof (relation "measure (\<lambda>(sod, sp). length sod)", goal_cases)
  case (2 sod0 sp sod sp1 rest x ret sp2 sp3)
  have "length rest \<le> length sod"
    using 2(4) length_dropWhile_le by metis
  moreover have "length sod \<le> length sod0"
    using 2(1) length_dropWhile_le by (metis order_refl)
  ultimately show ?case using 2(5) by (cases rest) auto
qed simp

declare buffer_loop.simps [simp del]

text \<open>
  What \<^verbatim>\<open>select_read\<close> and \<^verbatim>\<open>read\<close> do for \<^verbatim>\<open>read_with_timeout\<close>: one of them throws, a
  timeout, or the bytes read (none when the server has closed the connection). On a socket that
  has been disconnected they throw by themselves. After data a first timeout is forgiven (the
  workaround for AMQ-4710). The results are taken from a list; when it is empty the call is
  still waiting.
\<close>

datatype read_event = Read_throws | Read_timeout | Read_data string

datatype read_result = Still_waiting | Failed | Got string

fun read_with_timeout :: "read_event list \<Rightarrow> stomp_stream \<Rightarrow> read_result \<times> stomp_stream \<times> read_event list" where
  "read_with_timeout [] sp =
     (if \<not> tcs_connected (sp_socket sp)
      then (Failed, sp\<lparr>sp_socket := tcs_disconnect (sp_socket sp)\<rparr>, [])
      else (Still_waiting, sp, []))"
| "read_with_timeout (ev # es) sp =
     (if \<not> tcs_connected (sp_socket sp)
      then (Failed, sp\<lparr>sp_socket := tcs_disconnect (sp_socket sp)\<rparr>, ev # es)
      else case ev of
          Read_throws \<Rightarrow> (Failed, sp\<lparr>sp_socket := tcs_disconnect (sp_socket sp)\<rparr>, es)
        | Read_data dat \<Rightarrow> (Got dat, sp, es)
        | Read_timeout \<Rightarrow>
            if sp_last_was_data sp then read_with_timeout es (sp\<lparr>sp_last_was_data := False\<rparr>)
            else (Failed, sp, es))"

lemma read_with_timeout_shorter:
  "read_with_timeout es sp = (Got dat, sp', es') \<Longrightarrow> length es' < length es"
  by (induction es sp rule: read_with_timeout.induct)
    (auto split: if_splits read_event.splits dest: less_SucI)

text \<open>The thread, over the results of its reads; true when it has ended.\<close>

function reader_thread :: "read_event list \<Rightarrow> stomp_stream \<Rightarrow> bool \<times> stomp_stream" where
  "reader_thread es sp =
     (let (got, sp1, es1) = read_with_timeout es sp
      in case got of
          Still_waiting \<Rightarrow> (False, sp1)
        | Failed \<Rightarrow> (True, stomp_disconnect (stomp_note Warning ''read_with_timeout failed'' sp1))
        | Got dat \<Rightarrow>
            if dat = [] then (True, stomp_disconnect (stomp_note Warning ''read_with_timeout failed'' sp1))
            else reader_thread es1 (buffer_loop dat sp1))"
  by pat_completeness auto
termination
  by (relation "measure (\<lambda>(es, sp). length es)") (auto dest: read_with_timeout_shorter [OF sym])

declare reader_thread.simps [simp del]

subsection \<open>The reader byte by byte\<close>

text \<open>
  A buffer as the reader takes it (once it has disconnected, its reads fail), and the same for
  a single byte.
\<close>

definition reader_feed :: "stomp_stream \<Rightarrow> string \<Rightarrow> stomp_stream" where
  "reader_feed sp buf = (if tcs_connected (sp_socket sp) then buffer_loop buf sp else sp)"

definition reader_step :: "stomp_stream \<Rightarrow> char \<Rightarrow> stomp_stream" where
  "reader_step sp c =
     (if \<not> tcs_connected (sp_socket sp) \<or> (sp_partial_reply sp = [] \<and> c = newline) then sp
      else
        let sp1 = sp\<lparr>sp_last_was_data := True\<rparr>
        in if c \<noteq> nul then sp1\<lparr>sp_partial_reply := sp_partial_reply sp1 @ [c]\<rparr>
           else
             let (ret, sp2) = handle_reply (sp_partial_reply sp1) sp1;
                 sp3 = sp2\<lparr>sp_partial_reply := []\<rparr>
             in if ret then sp3 else stomp_disconnect sp3)"

lemma handle_reply_fields:
  "handle_reply frame sp = (ret, sp') \<Longrightarrow>
     sp_socket sp' = sp_socket sp \<and> sp_partial_reply sp' = sp_partial_reply sp"
  by (auto simp: handle_reply_def Let_def split: option.splits if_splits)

lemma disconnect_not_connected [simp]: "\<not> tcs_connected (sp_socket (stomp_disconnect sp))"
  by (simp add: stomp_disconnect_def tcs_disconnect_def tcs_connected_def)

lemma steps_disconnected: "\<not> tcs_connected (sp_socket sp) \<Longrightarrow> foldl reader_step sp s = sp"
  by (induction s) (simp_all add: reader_step_def)

lemma steps_heartbeats:
  "sp_partial_reply sp = [] \<Longrightarrow> set s \<subseteq> {newline} \<Longrightarrow> foldl reader_step sp s = sp"
  by (induction s) (auto simp: reader_step_def)

lemma steps_segment:
  assumes "tcs_connected (sp_socket sp)" "s \<noteq> []" "nul \<notin> set s" "sp_partial_reply sp \<noteq> [] \<or> hd s \<noteq> newline"
  shows "foldl reader_step sp s = sp\<lparr>sp_last_was_data := True, sp_partial_reply := sp_partial_reply sp @ s\<rparr>"
  using assms
proof (induction s arbitrary: sp)
  case (Cons c s)
  let ?sp1 = "sp\<lparr>sp_last_was_data := True, sp_partial_reply := sp_partial_reply sp @ [c]\<rparr>"
  have "reader_step sp c = ?sp1"
    using Cons.prems by (auto simp: reader_step_def)
  moreover have "foldl reader_step ?sp1 s =
      ?sp1\<lparr>sp_last_was_data := True, sp_partial_reply := sp_partial_reply ?sp1 @ s\<rparr>"
    using Cons.IH [of ?sp1] Cons.prems by (cases "s = []") auto
  ultimately show ?case by simp
qed simp

text \<open>What the loop does at once: the heartbeats before a frame, and the bytes up to the next zero.\<close>

lemma steps_skip:
  "foldl reader_step sp (if sp_partial_reply sp = [] then dropWhile (\<lambda>c. c = newline) s else s) = foldl reader_step sp s"
proof (cases "sp_partial_reply sp = []")
  case True
  let ?h = "takeWhile (\<lambda>c. c = newline) s" and ?t = "dropWhile (\<lambda>c. c = newline) s"
  have "foldl reader_step sp s = foldl reader_step (foldl reader_step sp ?h) ?t"
    by (simp flip: foldl_append)
  moreover have "set ?h \<subseteq> {newline}" by (auto dest: set_takeWhileD)
  ultimately show ?thesis using steps_heartbeats [OF True, of ?h] True by simp
qed simp

lemma steps_to_zero:
  assumes "tcs_connected (sp_socket sp)" "s = (if sp_partial_reply sp = [] then dropWhile (\<lambda>c. c = newline) s0 else s0)"
  shows "foldl reader_step sp (takeWhile (\<lambda>c. c \<noteq> nul) s) =
    (if takeWhile (\<lambda>c. c \<noteq> nul) s = [] then sp
     else sp\<lparr>sp_last_was_data := True, sp_partial_reply := sp_partial_reply sp @ takeWhile (\<lambda>c. c \<noteq> nul) s\<rparr>)"
proof (cases "takeWhile (\<lambda>c. c \<noteq> nul) s = []")
  case False
  then have "s \<noteq> []" "hd (takeWhile (\<lambda>c. c \<noteq> nul) s) = hd s" by (cases s; simp split: if_splits)+
  moreover have "hd s \<noteq> newline" if "sp_partial_reply sp = []"
    using hd_dropWhile [of "\<lambda>c. c = newline" s0] assms(2) that \<open>s \<noteq> []\<close> by simp
  ultimately have "sp_partial_reply sp \<noteq> [] \<or> hd (takeWhile (\<lambda>c. c \<noteq> nul) s) \<noteq> newline" by auto
  then show ?thesis
    using steps_segment [OF assms(1) False] False by (auto dest: set_takeWhileD)
qed simp

lemma buffer_loop_steps:
  "tcs_connected (sp_socket sp) \<Longrightarrow> buffer_loop s sp = foldl reader_step sp s"
proof (induction s sp rule: buffer_loop.induct)
  case (1 sod0 sp)
  define sod where "sod = (if sp_partial_reply sp = [] then dropWhile (\<lambda>c. c = newline) sod0 else sod0)"
  define seg where "seg = takeWhile (\<lambda>c. c \<noteq> nul) sod"
  define rest where "rest = dropWhile (\<lambda>c. c \<noteq> nul) sod"
  define sp1 where "sp1 = sp\<lparr>sp_last_was_data := True, sp_partial_reply := sp_partial_reply sp @ seg\<rparr>"
  have skip: "foldl reader_step sp sod0 = foldl reader_step sp sod"
    unfolding sod_def by (rule steps_skip [symmetric])
  show ?case
  proof (cases "sod = []")
    case True
    then show ?thesis using skip by (simp add: buffer_loop.simps [of sod0] Let_def flip: sod_def)
  next
    case False
    have split: "sod = seg @ rest" by (simp add: seg_def rest_def)
    have segment: "foldl reader_step sp seg = (if seg = [] then sp else sp1)"
      using steps_to_zero [OF "1.prems" sod_def] by (simp add: seg_def sp1_def)
    have loop: "buffer_loop sod0 sp = (if rest = [] then sp1 else
        let (ret, sp2) = handle_reply (sp_partial_reply sp1) sp1;
            sp3 = sp2\<lparr>sp_partial_reply := []\<rparr>
        in if \<not> ret then stomp_disconnect sp3 else buffer_loop (tl rest) sp3)"
      using False by (simp add: buffer_loop.simps [of sod0 sp] Let_def sp1_def
          flip: sod_def seg_def rest_def)
    show ?thesis
    proof (cases "rest = []")
      case True
      then show ?thesis using loop segment skip split False by simp
    next
      case rest: False
      then obtain r where r: "rest = nul # r"
        using hd_dropWhile [of "\<lambda>c. c \<noteq> nul" sod] by (cases rest) (auto simp: rest_def)
      obtain ret sp2 where handled: "handle_reply (sp_partial_reply sp1) sp1 = (ret, sp2)" by fastforce
      define sp3 where "sp3 = sp2\<lparr>sp_partial_reply := []\<rparr>"
      have conn: "tcs_connected (sp_socket sp1)" "tcs_connected (sp_socket sp3)"
        using "1.prems" handle_reply_fields [OF handled] by (simp_all add: sp1_def sp3_def)
      have "reader_step (if seg = [] then sp else sp1) nul = (if ret then sp3 else stomp_disconnect sp3)"
      proof -
        let ?x = "if seg = [] then sp else sp1"
        have x: "?x\<lparr>sp_last_was_data := True\<rparr> = sp1" by (simp add: sp1_def)
        have "tcs_connected (sp_socket ?x)" using conn "1.prems" by simp
        then show ?thesis
          unfolding reader_step_def x Let_def using handled by (simp add: sp3_def)
      qed
      then have steps: "foldl reader_step sp sod = foldl reader_step (if ret then sp3 else stomp_disconnect sp3) r"
        using split r segment by simp
      show ?thesis
      proof (cases ret)
        case True
        have "buffer_loop r sp3 = foldl reader_step sp3 r"
          using "1.IH" [OF sod_def False sp1_def [unfolded seg_def] rest_def rest handled [symmetric] refl sp3_def]
            True r conn(2) by simp
        then show ?thesis using loop rest r handled True steps skip by (simp add: sp3_def)
      next
        case False
        then show ?thesis using loop rest r handled steps skip steps_disconnected by (simp add: sp3_def)
      qed
    qed
  qed
qed

interpretation reader: chunk_consumer reader_feed reader_step
  by unfold_locales (simp add: reader_feed_def buffer_loop_steps steps_disconnected)

text \<open>
  How the network cuts the server's bytes does not matter: reading any sequence of buffers
  leaves the sink as reading all bytes at once does, also when a frame, a heartbeat or a run of
  frames is split over buffers, and when a bad frame disconnects it.
\<close>

theorem reader_chunks: "foldl reader_feed sp bufs = reader_feed sp (concat bufs)"
  by (rule reader.feed_chunks)

subsection \<open>Frames survive the way through the reader\<close>

text \<open>A frame as a server writes it: command, header lines, empty line, body.\<close>

definition render_headers :: "(string \<times> string) list \<Rightarrow> string" where
  "render_headers hs = concat (map (\<lambda>(k, v). k @ CHR '':'' # v @ [newline]) hs)"

definition render_frame :: "string \<Rightarrow> (string \<times> string) list \<Rightarrow> string \<Rightarrow> string" where
  "render_frame cmd hs body = cmd @ newline # render_headers hs @ newline # body"

text \<open>Of repeated headers the first counts.\<close>

definition first_headers :: "(string \<times> string) list \<Rightarrow> (string, string) std_map" where
  "first_headers hs = foldl (\<lambda>m (k, v). map_emplace k v m) [] hs"

definition headers_ok :: "(string \<times> string) list \<Rightarrow> bool" where
  "headers_ok hs \<longleftrightarrow> (\<forall>(k, v) \<in> set hs. set k \<inter> {newline, CHR '':''} = {} \<and> newline \<notin> set v)"

lemma header_loop_render:
  assumes "headers_ok hs" "map_wf m"
  shows "header_loop (pre @ newline # render_headers hs @ newline # body) (length pre) m =
    Some (foldl (\<lambda>m (k, v). map_emplace k v m) m hs, length pre + length (render_headers hs) + 1)"
  using assms
proof (induction hs arbitrary: pre m)
  case Nil
  then show ?case
    by (simp add: header_loop.simps [of _ _ m] render_headers_def str_find_char_def str_find_def)
next
  case (Cons h hs)
  obtain k v where h: "h = (k, v)" by fastforce
  have kv: "newline \<notin> set k" "CHR '':'' \<notin> set k" "newline \<notin> set v" and ok: "headers_ok hs"
    using Cons.prems(1) h by (auto simp: headers_ok_def)
  let ?line = "k @ CHR '':'' # v" and ?rest = "render_headers hs @ newline # body"
  let ?frame = "pre @ newline # render_headers (h # hs) @ newline # body"
  have frame: "?frame = (pre @ newline # ?line) @ newline # ?rest"
    by (simp add: h render_headers_def)
  have nl: "newline \<notin> set ?line" using kv by simp
  have find: "str_find_char newline ?frame (length pre + 1) = Some (length (pre @ newline # ?line))"
    using nl unfolding frame by (simp add: str_find_char_def str_find_def find_pat_char_append find_pat_char_append2)
  have line: "take (length (pre @ newline # ?line) - (length pre + 1)) (drop (length pre + 1) ?frame) = ?line"
    unfolding frame by simp
  have colon: "str_find_char (CHR '':'') ?line 0 = Some (length k)"
    using kv by (simp add: str_find_char_0 find_pat_char_append)
  have next_loop: "header_loop ?frame (length (pre @ newline # ?line)) m' =
      Some (foldl (\<lambda>m (k, v). map_emplace k v m) m' hs, length (pre @ newline # ?line) + length (render_headers hs) + 1)"
    if "map_wf m'" for m'
    unfolding frame using Cons.IH [OF ok that, of "pre @ newline # ?line"] by simp
  have step: "header_loop ?frame (length pre) m = header_loop ?frame (length (pre @ newline # ?line)) (map_emplace k v m)"
  proof -
    have "length pre + 1 \<le> length ?frame" by simp
    then show ?thesis
      using find line colon cmap.emplace_existing [OF Cons.prems(2), of k _ v]
      by (auto simp: header_loop.simps [of ?frame "length pre"] Let_def not_less)
  qed
  show ?case
    unfolding step next_loop [OF cmap.wf_emplace [OF Cons.prems(2)]]
    by (simp add: h render_headers_def)
qed

lemma parse_render_frame:
  assumes "newline \<notin> set cmd" "headers_ok hs"
  shows "parse_frame (render_frame cmd hs body) =
    Some \<lparr>sr_command = cmd, sr_headers = first_headers hs, sr_body = body\<rparr>"
  using header_loop_render [OF assms(2), of "[]" cmd body] assms(1)
  by (simp add: parse_frame_def render_frame_def first_headers_def str_find_char_0 find_pat_char_append)

text \<open>A frame a server may send: no null bytes, and a command of one line that is not empty.\<close>

definition frame_ok :: "string \<times> (string \<times> string) list \<times> string \<Rightarrow> bool" where
  "frame_ok f = (case f of (cmd, hs, body) \<Rightarrow>
     cmd \<noteq> [] \<and> newline \<notin> set cmd \<and> headers_ok hs \<and> nul \<notin> set (render_frame cmd hs body))"

definition frame_reply :: "string \<times> (string \<times> string) list \<times> string \<Rightarrow> stomp_reply" where
  "frame_reply f = (case f of (cmd, hs, body) \<Rightarrow>
     \<lparr>sr_command = cmd, sr_headers = first_headers hs, sr_body = body\<rparr>)"

text \<open>A stream of frames, each after any number of heartbeats.\<close>

definition frame_stream :: "(nat \<times> string \<times> (string \<times> string) list \<times> string) list \<Rightarrow> string" where
  "frame_stream fs = concat (map (\<lambda>(n, cmd, hs, body). replicate n newline @ render_frame cmd hs body @ [nul]) fs)"

lemma steps_frame:
  assumes "tcs_connected (sp_socket sp)" "sp_partial_reply sp = []" "frame_ok (cmd, hs, body)"
  shows "\<exists>sp'. foldl reader_step sp (replicate n newline @ render_frame cmd hs body @ [nul]) = sp' \<and>
    tcs_connected (sp_socket sp') \<and> sp_partial_reply sp' = [] \<and>
    sp_reply_queue sp' = sp_reply_queue sp @ [frame_reply (cmd, hs, body)] \<and>
    sp_socket sp' = sp_socket sp \<and> sp_receipt sp' = sp_receipt sp \<and> sp_connected sp' = sp_connected sp \<and>
    (cmd \<noteq> ''ERROR'' \<longrightarrow> sp_log sp' = sp_log sp)"
proof -
  let ?f = "render_frame cmd hs body"
  have f: "?f \<noteq> []" "hd ?f \<noteq> newline" "nul \<notin> set ?f" "newline \<notin> set cmd" "headers_ok hs"
    using assms(3) by (cases cmd; auto simp: frame_ok_def render_frame_def)+
  have "foldl reader_step sp (replicate n newline) = sp"
    using steps_heartbeats [OF assms(2)] by (simp add: set_replicate_conv_if)
  moreover define sp1 where "sp1 = sp\<lparr>sp_last_was_data := True, sp_partial_reply := ?f\<rparr>"
  moreover have "foldl reader_step sp ?f = sp1"
    using steps_segment [OF assms(1) f(1,3)] f(2) assms(2) by (simp add: sp1_def)
  moreover obtain sp2 where sp2: "handle_reply ?f sp1 = (True, sp2)"
    "sp_reply_queue sp2 = sp_reply_queue sp1 @ [frame_reply (cmd, hs, body)]" "sp_socket sp2 = sp_socket sp1"
    "sp_receipt sp2 = sp_receipt sp1" "sp_connected sp2 = sp_connected sp1"
    "cmd \<noteq> ''ERROR'' \<longrightarrow> sp_log sp2 = sp_log sp1"
    using parse_render_frame [OF f(4,5)] by (simp add: handle_reply_def frame_reply_def Let_def)
  moreover have "reader_step sp1 nul = sp2\<lparr>sp_partial_reply := []\<rparr>"
  proof -
    have same: "sp1\<lparr>sp_last_was_data := True\<rparr> = sp1" "sp_partial_reply sp1 = ?f"
      "tcs_connected (sp_socket sp1)"
      using assms(1) by (simp_all add: sp1_def)
    show ?thesis unfolding reader_step_def Let_def same using sp2(1) f(1) same(3) by simp
  qed
  ultimately show ?thesis using assms(1) by (simp add: sp1_def)
qed

lemma steps_frames:
  assumes "tcs_connected (sp_socket sp)" "sp_partial_reply sp = []" "\<forall>(n, f) \<in> set fs. frame_ok f"
  shows "sp_partial_reply (foldl reader_step sp (frame_stream fs)) = [] \<and>
    tcs_connected (sp_socket (foldl reader_step sp (frame_stream fs))) \<and>
    sp_reply_queue (foldl reader_step sp (frame_stream fs)) = sp_reply_queue sp @ map (frame_reply \<circ> snd) fs \<and>
    sp_socket (foldl reader_step sp (frame_stream fs)) = sp_socket sp \<and>
    sp_receipt (foldl reader_step sp (frame_stream fs)) = sp_receipt sp \<and>
    sp_connected (foldl reader_step sp (frame_stream fs)) = sp_connected sp \<and>
    ((\<forall>(n, cmd, f) \<in> set fs. cmd \<noteq> ''ERROR'') \<longrightarrow> sp_log (foldl reader_step sp (frame_stream fs)) = sp_log sp)"
  using assms
proof (induction fs arbitrary: sp)
  case (Cons x fs)
  obtain n cmd hs body where x: "x = (n, cmd, hs, body)" by (metis prod.exhaust)
  obtain sp1 where sp1: "foldl reader_step sp (replicate n newline @ render_frame cmd hs body @ [nul]) = sp1"
    "tcs_connected (sp_socket sp1)" "sp_partial_reply sp1 = []"
    "sp_reply_queue sp1 = sp_reply_queue sp @ [frame_reply (cmd, hs, body)]" "sp_socket sp1 = sp_socket sp"
    "sp_receipt sp1 = sp_receipt sp" "sp_connected sp1 = sp_connected sp"
    "cmd \<noteq> ''ERROR'' \<longrightarrow> sp_log sp1 = sp_log sp"
    using steps_frame [OF Cons.prems(1,2), of cmd hs body n] Cons.prems(3) x by auto
  have "frame_stream (x # fs) = (replicate n newline @ render_frame cmd hs body @ [nul]) @ frame_stream fs"
    by (simp add: frame_stream_def x)
  then have "foldl reader_step sp (frame_stream (x # fs)) = foldl reader_step sp1 (frame_stream fs)"
    using sp1(1) by (metis foldl_append)
  then show ?case
    using Cons.IH [OF sp1(2,3)] Cons.prems(1,3) sp1(4-8) x by simp
qed (simp add: frame_stream_def)

text \<open>
  C31. The server's frames arrive: for any frames (without null bytes, with one-line headers
  whose keys have no colon), each after any number of heartbeats, and any way to cut their
  bytes into buffers, the reader queues exactly these frames in order, with their command,
  body and headers (the first of repeated ones), stays connected and keeps no rest.
\<close>

theorem reader_queues_frames:
  assumes "tcs_connected (sp_socket sp)" "sp_partial_reply sp = []" "\<forall>(n, f) \<in> set fs. frame_ok f"
    and "concat bufs = frame_stream fs"
  shows "let sp' = foldl reader_feed sp bufs in
    sp_reply_queue sp' = sp_reply_queue sp @ map (frame_reply \<circ> snd) fs \<and>
    sp_partial_reply sp' = [] \<and> tcs_connected (sp_socket sp')"
  using steps_frames [OF assms(1-3)] assms(1,4)
  by (simp add: reader.feed_chunks reader.feed_steps Let_def)

definition sample_stomp :: stomp_stream where
  "sample_stomp = \<lparr>sp_app_name = ''app'', sp_host = ''me'',
     sp_URL = \<lparr>url_protocol = ''stomp'', url_login = [], url_password = [], url_host = ''broker'', url_port = 61613, url_path = ''LOG''\<rparr>,
     sp_user = ''u'', sp_heartbeat_interval = 0, sp_level_strings = level_strings, sp_receipt = 0,
     sp_last_was_data = False, sp_partial_reply = [], sp_reply_queue = [],
     sp_socket = (new_tcp_client_socket ''broker'' 61613)\<lparr>tcs_socket := 3\<rparr>, sp_connected = True,
     sp_connecting = True, sp_connect_thread = True, sp_connect_thread_done = True, sp_log = []\<rparr>"

theorem reader_queues_frames_witness:
  "\<exists>bufs sp'. bufs = [[newline], ''RECEIPT'' @ [newline] @ ''receipt-'', ''id:1'' @ [newline, newline, nul]] \<and>
     sp' = foldl reader_feed sample_stomp bufs \<and>
     sp_reply_queue sp' = [\<lparr>sr_command = ''RECEIPT'', sr_headers = [(''receipt-id'', ''1'')], sr_body = []\<rparr>]"
proof -
  have "\<forall>(n, f) \<in> set [(1 :: nat, ''RECEIPT'', [(''receipt-id'', ''1'')], [])]. frame_ok f"
    by (simp add: frame_ok_def headers_ok_def render_frame_def render_headers_def)
  moreover have "tcs_connected (sp_socket sample_stomp)" "sp_partial_reply sample_stomp = []"
    "sp_reply_queue sample_stomp = []"
    by (simp_all add: sample_stomp_def tcs_connected_def invalid_socket_def)
  moreover define bufs where "bufs = [[newline], ''RECEIPT'' @ [newline] @ ''receipt-'', ''id:1'' @ [newline, newline, nul]]"
  moreover from this have "concat bufs = frame_stream [(1, ''RECEIPT'', [(''receipt-id'', ''1'')], [])]"
    by (simp add: frame_stream_def render_frame_def render_headers_def)
  ultimately have "sp_reply_queue (foldl reader_feed sample_stomp bufs) =
      [\<lparr>sr_command = ''RECEIPT'', sr_headers = [(''receipt-id'', ''1'')], sr_body = []\<rparr>]"
    using reader_queues_frames [of sample_stomp "[(1, ''RECEIPT'', [(''receipt-id'', ''1'')], [])]" bufs]
    by (simp add: Let_def frame_reply_def first_headers_def)
  then show ?thesis using bufs_def by blast
qed

subsection \<open>The heartbeat header\<close>

lemma scan_int_sign:
  "scan_int 10 (CHR ''-'' # show_nat n) = Some (- int n, [])"
proof -
  have "\<forall>c \<in> set (show_nat n). is_digit 10 c" using show_nat_digits by blast
  then have all: "takeWhile (is_digit 10) (show_nat n) = show_nat n" "dropWhile (is_digit 10) (show_nat n) = []"
    by (simp_all add: takeWhile_eq_all_conv dropWhile_eq_Nil_conv)
  moreover have "\<not> is_space (CHR ''-'')" by (simp add: is_space_def)
  ultimately show ?thesis
    by (simp add: scan_int_def split_sign_def Let_def all)
qed

text \<open>
  Which heartbeat offers are accepted: an offer ''sx,0'' with a decimal number sx within
  the range of \<^verbatim>\<open>long\<close> sets the interval to that number; but an empty sx is accepted as 0,
  and so is a negative one, which sets a negative interval (converted to an unsigned time-out
  by the reader); any offer whose sy is not ''0'' is refused.
\<close>

theorem parse_heartbeat_offers:
  assumes "int n \<le> long_max" "map_find ''heart-beat'' (sr_headers reply) = Some (sx @ CHR '','' # sy)"
    and "sx \<in> {show_nat n, CHR ''-'' # show_nat n, []}"
  shows "\<exists>sp'. parse_heartbeat reply sp = (sy = ''0'', sp') \<and>
    (sy = ''0'' \<longrightarrow> sp_heartbeat_interval sp' =
       (if sx = show_nat n then int n else if sx = [] then 0 else - int n))"
proof -
  have "\<not> is_digit 10 (CHR '','')" by (simp add: is_digit_def digit_value_def char_code_def)
  then have "CHR '','' \<notin> set sx" using assms(3) not_digit_in_show_nat by auto
  then have comma: "str_find_char (CHR '','') (sx @ CHR '','' # sy) 0 = Some (length sx)"
    by (simp add: str_find_char_0 find_pat_char_append)
  have digits: "\<forall>c \<in> set (show_nat n). is_digit 10 c" using show_nat_digits by blast
  have minus: "show_nat n \<noteq> CHR ''-'' # show_nat n" by (metis not_Cons_self2)
  have "strtol 10 (show_nat n) = (int n, [])"
    using assms(1) scan_int_digits [OF show_nat_nonempty digits, of "[]"]
    by (simp add: strtol_def long_min_def)
  moreover have "strtol 10 (CHR ''-'' # show_nat n) = (- int n, [])"
    using assms(1) by (simp add: strtol_def scan_int_sign long_min_def long_max_def)
  moreover have "strtol 10 [] = (0, [])"
    by (simp add: strtol_def scan_int_def split_sign_def)
  ultimately have "strtol 10 sx = (if sx = show_nat n then int n else if sx = [] then 0 else - int n, [])"
    using assms(3) minus show_nat_nonempty [THEN not_sym, of n] by (elim insertE emptyE) simp_all
  then show ?thesis
    using assms(2) comma by (auto simp: parse_heartbeat_def stomp_note_def Let_def)
qed

theorem parse_heartbeat_offers_witness:
  "\<exists>sp'. parse_heartbeat \<lparr>sr_command = ''CONNECTED'', sr_headers = [(''heart-beat'', ''-5,0'')], sr_body = []\<rparr>
      sample_stomp = (True, sp') \<and> sp_heartbeat_interval sp' = - 5"
proof -
  have five: "show_nat 5 = ''5''" by code_simp
  show ?thesis
    using parse_heartbeat_offers [of 5 "\<lparr>sr_command = ''CONNECTED'', sr_headers = [(''heart-beat'', ''-5,0'')],
        sr_body = []\<rparr>" "CHR ''-'' # show_nat 5" "''0''" sample_stomp]
    by (simp add: five map_find_def long_max_def del: show_nat.simps)
qed

end
