(* ===== verification/Stomp_Stream.thy ===== *)
theory Stomp_Stream
  imports Stomp_Frame Output_Stream
begin

section \<open>The message server sink (output_stream_stomp.h, output_stream_stomp.cpp)\<close>

text \<open>
  Construction, the connection made by a thread of its own, and \<^verbatim>\<open>do_write\<close>. What the
  environment does in a call (the system calls of the socket, what the server sends until the
  code stops waiting) is an argument of the call. The connect thread runs between two calls, or
  finishes between the two tests of \<^verbatim>\<open>connect\<close>. Waiting for a reply ends with a reply in
  the queue or with the timeout; wake-ups without a reason are not modelled.
\<close>

text \<open>The text of an exception, for the log.\<close>

fun exn_what :: "exn \<Rightarrow> string" where
  "exn_what (Invalid_argument msg) = msg"
| "exn_what (Runtime_error msg) = msg"
| "exn_what _ = []"

text \<open>\<^verbatim>\<open>sanitize_string\<close> always returns, so its result is used directly.\<close>

definition sanitize :: "(string \<times> string) list \<Rightarrow> string \<Rightarrow> string" where
  "sanitize order s = (case sanitize_string order s of Some t \<Rightarrow> t | None \<Rightarrow> [])"

definition default_URL :: URL_info where
  "default_URL = \<lparr>url_protocol = ''stomp'', url_login = [], url_password = [], url_host = [],
     url_port = 61613, url_path = ''LOG''\<rparr>"

text \<open>
  The members as the constructor sets them before it calls \<^verbatim>\<open>connect\<close>: \<open>hostname\<close> and
  \<open>user\<close> are what \<^verbatim>\<open>gethostname\<close> and \<^verbatim>\<open>getpwuid_r\<close> return.
\<close>

definition init_stomp_stream ::
  "(string \<times> string) list \<Rightarrow> string \<Rightarrow> string \<Rightarrow> string option \<Rightarrow> string option \<Rightarrow> stomp_stream throws" where
  "init_stomp_stream order app_name URL hostname user =
     bind_exn (parse_URL URL default_URL) (\<lambda>u.
       let socket = new_tcp_client_socket (url_host u) (url_port u)
       in bind_exn
            (if url_protocol u = ''stomp'' then Inr socket
             else if url_protocol u = ''stomp+ssl'' then Inr (use_SSL True socket)
             else Inl (Invalid_argument ''Only stomp and stomp+ssl protocols are supported.''))
            (\<lambda>socket. Inr
              \<lparr>sp_app_name = sanitize order app_name,
               sp_host = (case hostname of Some h \<Rightarrow> sanitize order h | None \<Rightarrow> ''/UNKNOWN/''),
               sp_URL = u,
               sp_user = (case user of Some n \<Rightarrow> sanitize order n | None \<Rightarrow> ''/UNKNOWN/''),
               sp_heartbeat_interval = 0, sp_level_strings = level_strings, sp_receipt = 0,
               sp_last_was_data = False, sp_partial_reply = [], sp_reply_queue = [],
               sp_socket = socket, sp_connected = False, sp_connecting = False,
               sp_connect_thread = False, sp_connect_thread_done = False, sp_log = []\<rparr>))"

definition stomp_name :: "stomp_stream \<Rightarrow> string" where
  "stomp_name sp = ''stomp: '' @ url_host (sp_URL sp)"

definition stomp_retry_time :: "stomp_stream \<Rightarrow> nat" where
  "stomp_retry_time sp = (if sp_connecting sp then 2 else 30)"

subsection \<open>The connect thread\<close>

record connect_env =
  ce_resolve :: "string \<Rightarrow> string \<Rightarrow> string + address list"
  ce_socks :: socks_env
  ce_ssl :: ssl_env
  ce_write :: int
  ce_reads :: "read_event list"

definition to_bytes :: "string \<Rightarrow> 8 word list" where
  "to_bytes s = map byte_of_char s"

definition connect_frame :: "URL_info \<Rightarrow> string" where
  "connect_frame u =
     ''CONNECT'' @ [newline] @ ''accept-version:1.1'' @ [newline] @ ''heart-beat:0,5000'' @ [newline] @
     ''host:'' @ url_host u @ [newline] @
     (if url_login u \<noteq> []
      then ''login:'' @ url_login u @ [newline] @ ''passcode:'' @ url_password u @ [newline] else []) @
     [newline]"

definition connect_done :: "stomp_stream \<Rightarrow> stomp_stream" where
  "connect_done sp = sp\<lparr>sp_connect_thread_done := True\<rparr>"

definition connect_thread :: "connect_env \<Rightarrow> stomp_stream \<Rightarrow> stomp_stream" where
  "connect_thread env sp =
     (case tcs_connect (ce_resolve env) (ce_socks env) (ce_ssl env) (sp_socket sp) of
        (Inl e, sock) \<Rightarrow>
          connect_done (stomp_note Warning (''Connection failed: '' @ exn_what e) (sp\<lparr>sp_socket := sock\<rparr>))
      | (Inr _, sock) \<Rightarrow>
          (case tcs_write (ce_write env) (to_bytes (connect_frame (sp_URL sp) @ [nul])) sock of
             (Inl _, sock1) \<Rightarrow> connect_done (stomp_disconnect (sp\<lparr>sp_socket := sock1\<rparr>))
           | (Inr _, sock1) \<Rightarrow>
               let sp1 = snd (reader_thread (ce_reads env) (sp\<lparr>sp_socket := sock1\<rparr>))
               in case sp_reply_queue sp1 of
                   [] \<Rightarrow> connect_done (stomp_disconnect (stomp_note Warning ''STOMP timeout'' sp1))
                 | reply # queue \<Rightarrow>
                     let sp2 = sp1\<lparr>sp_reply_queue := queue\<rparr>
                     in if sr_command reply \<noteq> ''CONNECTED'' then connect_done (stomp_disconnect sp2)
                        else
                          let (version_ok, sp3) = check_server_version reply sp2
                          in if \<not> version_ok then connect_done (stomp_disconnect sp3)
                             else
                               let (heartbeat_ok, sp4) = parse_heartbeat reply sp3
                               in if \<not> heartbeat_ok then connect_done (stomp_disconnect sp4)
                                  else connect_done (sp4\<lparr>sp_connected := True\<rparr>)))"

text \<open>
  \<^verbatim>\<open>connect\<close>. \<open>meanwhile\<close> is what the connect thread does between the test of
  \<^verbatim>\<open>m_connected\<close> and that of \<^verbatim>\<open>m_connect_thread_done\<close>. Assigning to a joinable thread ends
  the program, joining one that is not joinable throws a \<^verbatim>\<open>system_error\<close>.
\<close>

definition stomp_connect :: "connect_env option \<Rightarrow> stomp_stream \<Rightarrow> (bool \<times> stomp_stream) throws" where
  "stomp_connect meanwhile sp =
     (if sp_connected sp then Inr (True, sp)
      else if sp_connecting sp
      then
        let sp1 = (case meanwhile of
            Some env \<Rightarrow> if sp_connect_thread sp \<and> \<not> sp_connect_thread_done sp then connect_thread env sp else sp
          | None \<Rightarrow> sp)
        in if sp_connect_thread_done sp1
           then
             let sp2 = sp1\<lparr>sp_connecting := False\<rparr>
             in if \<not> sp_connect_thread sp2 then Inl (Runtime_error ''Invalid argument'')
                else Inr (sp_connected sp2, sp2\<lparr>sp_connect_thread := False\<rparr>)
           else Inr (False, sp1)
      else
        let sp1 = (stomp_note Finest ''Starting connect thread.'' sp)
              \<lparr>sp_connecting := True, sp_connect_thread_done := False\<rparr>
        in if sp_connect_thread sp1 then Inl Std_terminate
           else Inr (False, sp1\<lparr>sp_connect_thread := True\<rparr>))"

definition new_stomp_stream ::
  "(string \<times> string) list \<Rightarrow> string \<Rightarrow> string \<Rightarrow> string option \<Rightarrow> string option \<Rightarrow> stomp_stream throws" where
  "new_stomp_stream order app_name URL hostname user =
     bind_exn (init_stomp_stream order app_name URL hostname user) (\<lambda>sp.
     bind_exn (stomp_connect None sp) (\<lambda>(_, sp'). Inr sp'))"

text \<open>
  The destructor destroys the members, too: a joinable \<^verbatim>\<open>std::thread\<close> ends the program, the
  socket closes its connection.
\<close>

definition destroy_stomp_stream :: "stomp_stream \<Rightarrow> stomp_stream throws" where
  "destroy_stomp_stream sp =
     (if sp_connect_thread sp then Inl Std_terminate
      else Inr (sp\<lparr>sp_socket := destroy_tcp_client_socket (sp_socket sp)\<rparr>))"

subsection \<open>Writing\<close>

definition map_entry :: "string \<Rightarrow> string \<Rightarrow> string" where
  "map_entry key val =
     ''<entry><string>'' @ key @ ''</string><string>'' @ val @ ''</string></entry>'' @ [newline]"

definition stomp_level_string :: "stomp_stream \<Rightarrow> log_level \<Rightarrow> string" where
  "stomp_level_string sp l = (case map_find l (sp_level_strings sp) of Some s \<Rightarrow> s | None \<Rightarrow> [])"

definition send_body :: "(string \<times> string) list \<Rightarrow> stomp_stream \<Rightarrow> log_event \<Rightarrow> string" where
  "send_body order sp le =
     ''<map>'' @ [newline] @
     map_entry ''APPLICATION-ID'' (sp_app_name sp) @ map_entry ''CREATETIME'' (le_time_string le) @
     map_entry ''HOST'' (sp_host sp) @ map_entry ''NAME'' (sanitize order (le_function le)) @
     map_entry ''SEVERITY'' (stomp_level_string sp (le_level le)) @
     map_entry ''TEXT'' (sanitize order (le_message le)) @ map_entry ''TYPE'' ''log'' @
     map_entry ''USER'' (sp_user sp) @ map_entry ''CLASS'' (sanitize order (le_subsystem_string le)) @
     ''</map>'' @ [newline]"

definition send_header :: "stomp_stream \<Rightarrow> string" where
  "send_header sp =
     ''SEND'' @ [newline] @ ''destination:/topic/'' @ url_path (sp_URL sp) @ [newline] @
     ''transformation:jms-map-xml'' @ [newline] @
     ''receipt:'' @ show_nat (unat (sp_receipt sp)) @ [newline, newline]"

text \<open>What a call meets: the connect thread in \<^verbatim>\<open>connect\<close>, the write, the reads of the reader.\<close>

record write_env =
  we_meanwhile :: "connect_env option"
  we_write :: int
  we_reads :: "read_event list"

definition stomp_do_write ::
  "(string \<times> string) list \<Rightarrow> write_env \<Rightarrow> log_event \<Rightarrow> stomp_stream \<Rightarrow> (bool \<times> stomp_stream) throws" where
  "stomp_do_write order env le sp0 =
     bind_exn (stomp_connect (we_meanwhile env) sp0) (\<lambda>(ready, sp).
       if \<not> ready then Inr (False, sp)
       else
         let sp1 = sp\<lparr>sp_receipt := sp_receipt sp + 1\<rparr>;
             packet = send_header sp1 @ send_body order sp1 le @ [nul]
         in case tcs_write (we_write env) (to_bytes packet) (sp_socket sp1) of
             (Inl _, sock) \<Rightarrow> Inr (False, stomp_disconnect (sp1\<lparr>sp_socket := sock\<rparr>))
           | (Inr _, sock) \<Rightarrow>
               let sp2 = snd (reader_thread (we_reads env) (sp1\<lparr>sp_socket := sock\<rparr>))
               in case sp_reply_queue sp2 of
                   [] \<Rightarrow> Inr (False, stomp_disconnect (stomp_note Warning ''Timeout.'' sp2))
                 | reply # queue \<Rightarrow>
                     let sp3 = sp2\<lparr>sp_reply_queue := queue\<rparr>
                     in if sr_command reply \<noteq> ''RECEIPT'' then Inr (False, stomp_disconnect sp3)
                        else case map_find ''receipt-id'' (sr_headers reply) of
                            None \<Rightarrow> Inr (False, stomp_disconnect (stomp_note Warning ''no receipt-id'' sp3))
                          | Some rid \<Rightarrow> Inr (show_nat (unat (sp_receipt sp3)) = rid, sp3))"

subsection \<open>The thread object\<close>

text \<open>
  The fields the reader, the connect thread and \<^verbatim>\<open>do_write\<close> after its \<^verbatim>\<open>connect\<close> leave alone:
  the two that only \<^verbatim>\<open>connect\<close> changes, and what the constructor has set.
\<close>

definition steady ::
  "stomp_stream \<Rightarrow> bool \<times> bool \<times> string \<times> string \<times> URL_info \<times> string \<times> (log_level, string) std_map" where
  "steady sp = (sp_connecting sp, sp_connect_thread sp, sp_app_name sp, sp_host sp, sp_URL sp,
     sp_user sp, sp_level_strings sp)"

lemma steady_simps [simp]:
  "steady (stomp_note l msg sp) = steady sp"
  "steady (stomp_disconnect sp) = steady sp"
  "steady (connect_done sp) = steady sp"
  "steady (sp\<lparr>sp_socket := x\<rparr>) = steady sp"
  "steady (sp\<lparr>sp_reply_queue := q\<rparr>) = steady sp"
  "steady (sp\<lparr>sp_connected := b\<rparr>) = steady sp"
  "steady (sp\<lparr>sp_receipt := n\<rparr>) = steady sp"
  "steady (sp\<lparr>sp_last_was_data := b\<rparr>) = steady sp"
  "steady (sp\<lparr>sp_partial_reply := s\<rparr>) = steady sp"
  "steady (sp\<lparr>sp_heartbeat_interval := i\<rparr>) = steady sp"
  "steady (sp\<lparr>sp_log := l'\<rparr>) = steady sp"
  by (simp_all add: steady_def stomp_note_def stomp_disconnect_def connect_done_def)

lemma steady_reply:
  "steady (snd (handle_reply frame sp)) = steady sp"
  "steady (snd (check_server_version reply sp)) = steady sp"
  "steady (snd (parse_heartbeat reply sp)) = steady sp"
  by (auto simp: handle_reply_def check_server_version_def parse_heartbeat_def Let_def
      split: option.splits prod.splits)

lemma steady_buffer: "steady (buffer_loop buf sp) = steady sp"
proof (induction buf sp rule: buffer_loop.induct)
  case (1 sod0 sp)
  define sod where "sod = (if sp_partial_reply sp = [] then dropWhile (\<lambda>c. c = newline) sod0 else sod0)"
  define rest where "rest = dropWhile (\<lambda>c. c \<noteq> nul) sod"
  define sp1 where "sp1 = sp\<lparr>sp_last_was_data := True,
    sp_partial_reply := sp_partial_reply sp @ takeWhile (\<lambda>c. c \<noteq> nul) sod\<rparr>"
  obtain ret sp2 where h: "handle_reply (sp_partial_reply sp1) sp1 = (ret, sp2)" by fastforce
  have sp2: "steady (sp2\<lparr>sp_partial_reply := []\<rparr>) = steady sp"
    using steady_reply(1) [of "sp_partial_reply sp1" sp1] h by (simp add: sp1_def)
  have loop: "buffer_loop sod0 sp = (if sod = [] then sp else if rest = [] then sp1
      else if \<not> ret then stomp_disconnect (sp2\<lparr>sp_partial_reply := []\<rparr>)
      else buffer_loop (tl rest) (sp2\<lparr>sp_partial_reply := []\<rparr>))"
    using h by (auto simp: buffer_loop.simps [of sod0 sp] Let_def sp1_def rest_def simp flip: sod_def)
  have "steady (buffer_loop (tl rest) (sp2\<lparr>sp_partial_reply := []\<rparr>)) = steady sp"
    if "sod \<noteq> []" "rest \<noteq> []" ret
    using "1.IH" [OF sod_def that(1) sp1_def rest_def that(2) h [symmetric] refl refl] that(3) sp2 by simp
  then show ?case unfolding loop using sp2 by (simp add: sp1_def)
qed

lemma steady_read: "read_with_timeout es sp = (r, sp', es') \<Longrightarrow> steady sp' = steady sp"
  by (induction es sp rule: read_with_timeout.induct) (auto split: if_splits read_event.splits)

lemma steady_reader: "steady (snd (reader_thread es sp)) = steady sp"
proof (induction es sp rule: reader_thread.induct)
  case (1 es sp)
  obtain got sp1 es1 where r: "read_with_timeout es sp = (got, sp1, es1)" by (metis prod.exhaust)
  show ?case
    using "1.IH" [of "(got, sp1, es1)" got "(sp1, es1)" sp1 es1] r steady_read [OF r]
    by (auto simp: reader_thread.simps [of es sp] Let_def steady_buffer split: read_result.splits)
qed

lemma steady_connect: "steady (connect_thread env sp) = steady sp"
  using steady_reply(2,3) [THEN trans] steady_reader
  by (auto simp: connect_thread_def Let_def split: prod.splits sum.splits list.splits) (metis snd_conv steady_reply steady_simps)+

lemma stomp_connect_threads:
  assumes "sp_connect_thread sp = sp_connecting sp"
  shows "\<exists>b sp'. stomp_connect m sp = Inr (b, sp') \<and> sp_connect_thread sp' = sp_connecting sp'"
  using assms steady_connect
  by (auto simp: stomp_connect_def stomp_note_def steady_def Let_def split: option.splits)

lemma stomp_do_write_state:
  assumes "stomp_connect (we_meanwhile env) sp = Inr (b, sp1)"
  shows "\<exists>r sp'. stomp_do_write order env le sp = Inr (r, sp') \<and> steady sp' = steady sp1"
  using assms steady_reader
  by (auto simp: stomp_do_write_def Let_def split: prod.splits sum.splits list.splits option.splits)

lemma stomp_do_write_threads:
  assumes "sp_connect_thread sp = sp_connecting sp"
  shows "\<exists>b sp'. stomp_do_write order env le sp = Inr (b, sp') \<and> sp_connect_thread sp' = sp_connecting sp'"
proof -
  obtain b sp1 where c: "stomp_connect (we_meanwhile env) sp = Inr (b, sp1)"
    and inv: "sp_connect_thread sp1 = sp_connecting sp1"
    using stomp_connect_threads [OF assms] by blast
  have "\<exists>r sp'. stomp_do_write order env le sp = Inr (r, sp') \<and> steady sp' = steady sp1"
    using stomp_do_write_state [OF c] .
  then show ?thesis using inv by (auto simp: steady_def)
qed

text \<open>
  What happens to a sink: events are written, its connect thread (if it is running) finishes,
  its reader thread receives something.
\<close>

datatype stomp_action = Act_write write_env log_event | Act_finish connect_env | Act_read "read_event list"

definition stomp_act ::
  "(string \<times> string) list \<Rightarrow> stomp_action \<Rightarrow> stomp_stream \<Rightarrow> stomp_stream throws" where
  "stomp_act order a sp =
     (case a of
        Act_write env le \<Rightarrow> bind_exn (stomp_do_write order env le sp) (\<lambda>(_, sp'). Inr sp')
      | Act_finish env \<Rightarrow>
          Inr (if sp_connect_thread sp \<and> \<not> sp_connect_thread_done sp then connect_thread env sp else sp)
      | Act_read es \<Rightarrow> Inr (snd (reader_thread es sp)))"

fun stomp_run ::
  "(string \<times> string) list \<Rightarrow> stomp_action list \<Rightarrow> stomp_stream \<Rightarrow> stomp_stream throws" where
  "stomp_run order [] sp = Inr sp"
| "stomp_run order (a # as) sp = bind_exn (stomp_act order a sp) (stomp_run order as)"

lemma stomp_act_threads:
  assumes "sp_connect_thread sp = sp_connecting sp"
  shows "\<exists>sp'. stomp_act order a sp = Inr sp' \<and> sp_connect_thread sp' = sp_connecting sp'"
proof (cases a)
  case (Act_write env le)
  then show ?thesis using stomp_do_write_threads [OF assms, of order env le] by (auto simp: stomp_act_def)
next
  case (Act_finish env)
  then show ?thesis
    using assms steady_connect [of env sp] by (auto simp: stomp_act_def steady_def)
next
  case (Act_read es)
  then show ?thesis
    using assms steady_reader [of es sp] by (auto simp: stomp_act_def steady_def)
qed

lemma stomp_run_threads:
  "sp_connect_thread sp = sp_connecting sp \<Longrightarrow>
     \<exists>sp'. stomp_run order as sp = Inr sp' \<and> sp_connect_thread sp' = sp_connecting sp'"
proof (induction as arbitrary: sp)
  case (Cons a as)
  then show ?case using stomp_act_threads [OF Cons.prems, of order a] by fastforce
qed simp

text \<open>
  C29. The connect thread is handled safely: for a sink made by the constructor, no sequence of
  writes, finishing connect threads and incoming data makes \<^verbatim>\<open>connect\<close> join a thread that is
  not joinable or overwrite one that is; at every moment the thread is joinable exactly when
  \<^verbatim>\<open>m_connecting\<close> is set.
\<close>

theorem stomp_threads_safe:
  assumes "new_stomp_stream order app_name URL hostname user = Inr sp"
  shows "\<exists>sp'. stomp_run order actions sp = Inr sp' \<and> sp_connect_thread sp' = sp_connecting sp'"
proof (rule stomp_run_threads)
  show "sp_connect_thread sp = sp_connecting sp"
  proof -
    obtain sp0 b where sp0: "init_stomp_stream order app_name URL hostname user = Inr sp0"
      "stomp_connect None sp0 = Inr (b, sp)"
      using assms by (auto simp: new_stomp_stream_def)
    then have "sp_connect_thread sp0 = sp_connecting sp0"
      by (auto simp: init_stomp_stream_def Let_def split: if_splits)
    from stomp_connect_threads [OF this, of None] show ?thesis using sp0(2) by auto
  qed
qed

lemma sample_new_stomp:
  "\<exists>sp. new_stomp_stream replacements ''app'' ''stomp://broker'' (Some ''me'') None = Inr sp"
proof -
  have "parse_URL ''stomp://broker'' default_URL = Inr (default_URL\<lparr>url_host := ''broker''\<rparr>)"
    by code_simp
  then show ?thesis
    by (simp add: new_stomp_stream_def init_stomp_stream_def stomp_connect_def stomp_note_def
        default_URL_def Let_def)
qed

theorem stomp_threads_safe_witness:
  "\<exists>sp sp'. new_stomp_stream replacements ''app'' ''stomp://broker'' (Some ''me'') None = Inr sp \<and>
     stomp_run replacements [Act_write \<lparr>we_meanwhile = None, we_write = 0, we_reads = []\<rparr> (sample_event Info ''a'' 0)] sp =
       Inr sp' \<and> sp_connect_thread sp' = sp_connecting sp'"
  using sample_new_stomp stomp_threads_safe by blast

text \<open>
  But nothing joins the thread of a connection that works: as long as the writes succeed,
  the connect thread stays joinable, so destroying the sink then ends the program with
  \<^verbatim>\<open>std::terminate\<close>; and the retry time stays at the 2 seconds meant for connecting.
\<close>

theorem stomp_connected_not_joined:
  assumes "sp_connected sp" "sp_connect_thread sp" "sp_connecting sp"
    and "stomp_do_write order env le sp = Inr (True, sp')"
  shows "sp_connect_thread sp' \<and> sp_connecting sp' \<and> destroy_stomp_stream sp' = Inl Std_terminate \<and>
    stomp_retry_time sp' = 2"
proof -
  have "steady sp' = steady sp"
    using stomp_do_write_state [of env sp True sp order le] assms(1,4) by (auto simp: stomp_connect_def)
  then show ?thesis
    using assms(2,3) by (simp add: steady_def destroy_stomp_stream_def stomp_retry_time_def)
qed

subsection \<open>A write that works\<close>

definition send_packet :: "(string \<times> string) list \<Rightarrow> stomp_stream \<Rightarrow> log_event \<Rightarrow> string" where
  "send_packet order sp le =
     (let sp1 = sp\<lparr>sp_receipt := sp_receipt sp + 1\<rparr> in send_header sp1 @ send_body order sp1 le @ [nul])"

text \<open>The server's acknowledgement of receipt \<open>n\<close>, after \<open>k\<close> heartbeats.\<close>

definition receipt_stream :: "nat \<Rightarrow> 32 word \<Rightarrow> string" where
  "receipt_stream k n = frame_stream [(k, ''RECEIPT'', [(''receipt-id'', show_nat (unat n))], [])]"

lemma digit_not_special: "newline \<notin> set (show_nat n)" "nul \<notin> set (show_nat n)"
  by (rule not_digit_in_show_nat, simp add: is_digit_def digit_value_def char_code_def)+

lemma receipt_frame_ok: "frame_ok (''RECEIPT'', [(''receipt-id'', show_nat n)], [])"
  by (simp add: frame_ok_def headers_ok_def render_frame_def render_headers_def digit_not_special)

lemma reader_feed_disconnected: "\<not> tcs_connected (sp_socket sp) \<Longrightarrow> foldl reader_feed sp bufs = sp"
  by (induction bufs) (simp_all add: reader_feed_def)

text \<open>The reader over any buffers after which it is still connected.\<close>

lemma reader_thread_buffers:
  assumes "tcs_connected (sp_socket (foldl reader_feed sp bufs))" "[] \<notin> set bufs"
  shows "reader_thread (map Read_data bufs) sp = (False, foldl reader_feed sp bufs)"
  using assms
proof (induction bufs arbitrary: sp)
  case Nil
  then show ?case by (simp add: reader_thread.simps [of "[]"])
next
  case (Cons buf bufs)
  have conn: "tcs_connected (sp_socket sp)" "buf \<noteq> []"
    using Cons.prems reader_feed_disconnected [of sp "buf # bufs"] by (metis, auto)
  then show ?case
    using Cons.IH [of "buffer_loop buf sp"] Cons.prems
    by (simp add: reader_thread.simps [of "Read_data buf # map Read_data bufs"] reader_feed_def)
qed

text \<open>What the sink and its socket have logged so far.\<close>

definition stomp_notes :: "stomp_stream \<Rightarrow> (log_level \<times> string) list \<times> (log_level \<times> string) list" where
  "stomp_notes sp = (sp_log sp, tcs_log (sp_socket sp))"

lemma stomp_do_write_acknowledged:
  assumes "sp_connected sp" "tcs_connected (sp_socket sp)" "sp_reply_queue sp = []" "sp_partial_reply sp = []"
    and "we_write env = int (length (send_packet order sp le))"
    and "we_reads env = map Read_data bufs" "concat bufs = receipt_stream k (sp_receipt sp + 1)" "[] \<notin> set bufs"
  shows "\<exists>sp'. stomp_do_write order env le sp = Inr (True, sp') \<and>
    tcs_sent (sp_socket sp') = tcs_sent (sp_socket sp) @ [to_bytes (send_packet order sp le)] \<and>
    sp_receipt sp' = sp_receipt sp + 1 \<and> sp_connected sp' \<and> tcs_connected (sp_socket sp') \<and>
    sp_reply_queue sp' = [] \<and> sp_partial_reply sp' = [] \<and> steady sp' = steady sp \<and> stomp_notes sp' = stomp_notes sp"
proof -
  let ?fs = "[(k, ''RECEIPT'', [(''receipt-id'', show_nat (unat (sp_receipt sp + 1)))], [])]"
  define sock where "sock = (sp_socket sp)\<lparr>tcs_sent := tcs_sent (sp_socket sp) @ [to_bytes (send_packet order sp le)]\<rparr>"
  define sp1 where "sp1 = sp\<lparr>sp_receipt := sp_receipt sp + 1, sp_socket := sock\<rparr>"
  have sent: "tcs_write (we_write env) (to_bytes (send_packet order sp le)) (sp_socket sp) = (Inr (), sock)"
    using assms(2,5) by (simp add: tcs_write_def to_bytes_def sock_def)
  have conn: "tcs_connected (sp_socket sp1)" using assms(2) by (simp add: sp1_def sock_def tcs_connected_def)
  have partial: "sp_partial_reply sp1 = []" using assms(4) by (simp add: sp1_def)
  have fed: "foldl reader_feed sp1 bufs = foldl reader_step sp1 (frame_stream ?fs)"
    using assms(7) by (simp add: receipt_stream_def reader.feed_chunks reader.feed_steps)
  have "\<forall>(n, f) \<in> set ?fs. frame_ok f" using receipt_frame_ok by simp
  note frames = steps_frames [OF conn partial this]
  then have "tcs_connected (sp_socket (foldl reader_feed sp1 bufs))" using fed conn by simp
  then have "snd (reader_thread (we_reads env) sp1) = foldl reader_step sp1 (frame_stream ?fs)"
    using reader_thread_buffers [OF _ assms(8)] fed assms(6) by simp
  then have read: "sp_reply_queue (snd (reader_thread (we_reads env) sp1)) = map (frame_reply \<circ> snd) ?fs"
      "sp_partial_reply (snd (reader_thread (we_reads env) sp1)) = []"
      "sp_socket (snd (reader_thread (we_reads env) sp1)) = sock"
      "sp_receipt (snd (reader_thread (we_reads env) sp1)) = sp_receipt sp + 1"
      "sp_connected (snd (reader_thread (we_reads env) sp1))"
      "sp_log (snd (reader_thread (we_reads env) sp1)) = sp_log sp"
    using assms(1,3) frames by (simp_all add: sp1_def)
  have "stomp_do_write order env le sp =
      Inr (True, (snd (reader_thread (we_reads env) sp1))\<lparr>sp_reply_queue := []\<rparr>)"
    using assms(1) sent read
    by (simp add: stomp_do_write_def stomp_connect_def Let_def send_packet_def frame_reply_def
        first_headers_def map_find_def flip: sp1_def)
  then show ?thesis
    using read conn steady_reader [of "we_reads env" sp1] by (simp add: sock_def sp1_def stomp_notes_def)
qed

text \<open>A call in which the server acknowledges the event at once.\<close>

definition sample_ack :: "log_event \<Rightarrow> write_env" where
  "sample_ack le = \<lparr>we_meanwhile = None, we_write = int (length (send_packet replacements sample_stomp le)),
     we_reads = [Read_data (receipt_stream 1 (sp_receipt sample_stomp + 1))]\<rparr>"

lemma sample_stomp_state:
  "sp_connected sample_stomp" "sp_connect_thread sample_stomp" "sp_connecting sample_stomp"
  "tcs_connected (sp_socket sample_stomp)" "sp_reply_queue sample_stomp = []"
  "sp_partial_reply sample_stomp = []"
  by (simp_all add: sample_stomp_def tcs_connected_def invalid_socket_def)

theorem stomp_connected_not_joined_witness:
  "\<exists>sp'. stomp_do_write replacements (sample_ack (sample_event Info ''a'' 0)) (sample_event Info ''a'' 0)
      sample_stomp = Inr (True, sp') \<and> destroy_stomp_stream sp' = Inl Std_terminate"
proof -
  obtain sp' where sp': "stomp_do_write replacements (sample_ack (sample_event Info ''a'' 0)) (sample_event Info ''a'' 0)
      sample_stomp = Inr (True, sp')"
    using stomp_do_write_acknowledged [OF sample_stomp_state(1,4,5,6),
        of "sample_ack (sample_event Info ''a'' 0)" replacements "sample_event Info ''a'' 0" "[receipt_stream 1 (sp_receipt sample_stomp + 1)]" 1]
    by (auto simp: sample_ack_def receipt_stream_def frame_stream_def)
  then show ?thesis using stomp_connected_not_joined [OF sample_stomp_state(1,2,3) sp'] by blast
qed

text \<open>
  A write that works: on a connected sink with nothing left over from earlier calls, if the
  whole packet can be written and the server answers with the receipt of this message, after
  any number of heartbeats and in any number of pieces, then \<^verbatim>\<open>do_write\<close> returns true, has sent exactly one packet, and
  leaves the sink connected with nothing left over, so that the next write can work the same way.
\<close>

theorem stomp_write_acknowledged:
  assumes "sp_connected sp" "tcs_connected (sp_socket sp)" "sp_reply_queue sp = []" "sp_partial_reply sp = []"
    and "we_write env = int (length (send_packet order sp le))"
    and "we_reads env = map Read_data bufs" "concat bufs = receipt_stream k (sp_receipt sp + 1)" "[] \<notin> set bufs"
  shows "\<exists>sp'. stomp_do_write order env le sp = Inr (True, sp') \<and>
    tcs_sent (sp_socket sp') = tcs_sent (sp_socket sp) @ [to_bytes (send_packet order sp le)] \<and>
    sp_receipt sp' = sp_receipt sp + 1 \<and> sp_connected sp' \<and> tcs_connected (sp_socket sp') \<and>
    sp_reply_queue sp' = [] \<and> sp_partial_reply sp' = []"
  using stomp_do_write_acknowledged [OF assms] by blast

theorem stomp_write_acknowledged_witness:
  "\<exists>sp'. stomp_do_write replacements (sample_ack (sample_event Info ''a<b'' 0)) (sample_event Info ''a<b'' 0)
      sample_stomp = Inr (True, sp') \<and>
    tcs_sent (sp_socket sp') = tcs_sent (sp_socket sample_stomp) @
      [to_bytes (send_packet replacements sample_stomp (sample_event Info ''a<b'' 0))]"
  using stomp_write_acknowledged [OF sample_stomp_state(1,4,5,6),
      of "sample_ack (sample_event Info ''a<b'' 0)" replacements "sample_event Info ''a<b'' 0" "[receipt_stream 1 (sp_receipt sample_stomp + 1)]" 1]
  by (auto simp: sample_ack_def receipt_stream_def frame_stream_def)

subsection \<open>Replies that come too late\<close>

lemma handle_reply_queue:
  "\<exists>q. sp_reply_queue (snd (handle_reply frame sp)) = sp_reply_queue sp @ q \<and>
     sp_connected (snd (handle_reply frame sp)) = sp_connected sp"
  by (auto simp: handle_reply_def Let_def split: option.splits)

text \<open>What reading never does: remove a reply, or set \<^verbatim>\<open>m_connected\<close>.\<close>

definition reads_from :: "stomp_stream \<Rightarrow> stomp_stream \<Rightarrow> bool" where
  "reads_from sp sp' \<longleftrightarrow> prefix (sp_reply_queue sp) (sp_reply_queue sp') \<and> (sp_connected sp' \<longrightarrow> sp_connected sp)"

lemma reads_from_refl [simp]: "reads_from sp sp"
  by (simp add: reads_from_def)

lemma reads_from_trans: "reads_from a b \<Longrightarrow> reads_from b c \<Longrightarrow> reads_from a c"
  unfolding reads_from_def by (meson prefix_order.trans)

lemma reads_from_simps [simp]:
  "reads_from sp (stomp_note l msg sp') \<longleftrightarrow> reads_from sp sp'"
  "reads_from sp sp' \<Longrightarrow> reads_from sp (stomp_disconnect sp')"
  "reads_from sp (sp'\<lparr>sp_partial_reply := s\<rparr>) \<longleftrightarrow> reads_from sp sp'"
  "reads_from sp (sp'\<lparr>sp_last_was_data := b\<rparr>) \<longleftrightarrow> reads_from sp sp'"
  "reads_from sp (sp'\<lparr>sp_socket := x\<rparr>) \<longleftrightarrow> reads_from sp sp'"
  by (simp_all add: reads_from_def stomp_note_def stomp_disconnect_def)

lemma reads_from_buffer: "reads_from sp (buffer_loop buf sp)"
proof (induction buf sp rule: buffer_loop.induct)
  case (1 sod0 sp)
  define sod where "sod = (if sp_partial_reply sp = [] then dropWhile (\<lambda>c. c = newline) sod0 else sod0)"
  define rest where "rest = dropWhile (\<lambda>c. c \<noteq> nul) sod"
  define sp1 where "sp1 = sp\<lparr>sp_last_was_data := True,
    sp_partial_reply := sp_partial_reply sp @ takeWhile (\<lambda>c. c \<noteq> nul) sod\<rparr>"
  obtain ret sp2 where h: "handle_reply (sp_partial_reply sp1) sp1 = (ret, sp2)" by fastforce
  have sp2: "reads_from sp (sp2\<lparr>sp_partial_reply := []\<rparr>)"
    using handle_reply_queue [of "sp_partial_reply sp1" sp1] h by (auto simp: sp1_def reads_from_def)
  have loop: "buffer_loop sod0 sp = (if sod = [] then sp else if rest = [] then sp1
      else if \<not> ret then stomp_disconnect (sp2\<lparr>sp_partial_reply := []\<rparr>)
      else buffer_loop (tl rest) (sp2\<lparr>sp_partial_reply := []\<rparr>))"
    using h by (auto simp: buffer_loop.simps [of sod0 sp] Let_def sp1_def rest_def simp flip: sod_def)
  have "reads_from sp (buffer_loop (tl rest) (sp2\<lparr>sp_partial_reply := []\<rparr>))"
    if "sod \<noteq> []" "rest \<noteq> []" ret
    using "1.IH" [OF sod_def that(1) sp1_def rest_def that(2) h [symmetric] refl refl] that(3) sp2
      reads_from_trans by blast
  then show ?case unfolding loop using sp2 by (simp add: sp1_def)
qed

lemma reads_from_read: "read_with_timeout es sp = (r, sp', es') \<Longrightarrow> reads_from sp sp'"
proof (induction es sp rule: read_with_timeout.induct)
  case (2 ev es sp)
  then show ?case
    by (cases ev) (auto simp: reads_from_def split: if_splits)
qed (auto simp: reads_from_def split: if_splits)

lemma reads_from_reader: "reads_from sp (snd (reader_thread es sp))"
proof (induction es sp rule: reader_thread.induct)
  case (1 es sp)
  obtain got sp1 es1 where r: "read_with_timeout es sp = (got, sp1, es1)" by (metis prod.exhaust)
  note step = reads_from_read [OF r]
  have "reads_from sp (snd (reader_thread es1 (buffer_loop dat sp1)))" if "got = Got dat" "dat \<noteq> []" for dat
    using "1.IH" [of "(got, sp1, es1)" got "(sp1, es1)" sp1 es1 dat] that r step reads_from_buffer [of sp1 dat]
      reads_from_trans by (metis prod.collapse)
  then show ?case
    using r step by (auto simp: reader_thread.simps [of es sp] split: read_result.splits)
qed

text \<open>
  A late reply spoils the next connection: when the queue still holds a reply other than
  \<^verbatim>\<open>CONNECTED\<close> at its front (the receipt that came after a write had given up waiting, say),
  the next connect thread takes it for the server's answer and disconnects, whatever the
  server does. Nothing ever clears the queue.
\<close>

theorem stale_reply_breaks_connect:
  assumes "sp_reply_queue sp = reply # queue" "sr_command reply \<noteq> ''CONNECTED''" "\<not> sp_connected sp"
  shows "\<not> sp_connected (connect_thread env sp)"
proof -
  have "\<exists>queue'. sp_reply_queue (snd (reader_thread es (sp\<lparr>sp_socket := x\<rparr>))) = reply # queue'" for es x
    using reads_from_reader [of "sp\<lparr>sp_socket := x\<rparr>" es] assms(1) by (auto simp: reads_from_def prefix_def)
  then show ?thesis
    using assms(2,3)
    by (auto simp: connect_thread_def connect_done_def stomp_disconnect_def stomp_note_def Let_def
        split: prod.splits sum.splits list.splits) (metis list.inject)+
qed

theorem stale_reply_breaks_connect_witness:
  "\<forall>env. \<not> sp_connected (connect_thread env (sample_stomp\<lparr>sp_connected := False,
     sp_reply_queue := [\<lparr>sr_command = ''RECEIPT'', sr_headers = [(''receipt-id'', ''1'')], sr_body = []\<rparr>]\<rparr>))"
  by (intro allI stale_reply_breaks_connect [where queue = "[]" and
      reply = "\<lparr>sr_command = ''RECEIPT'', sr_headers = [(''receipt-id'', ''1'')], sr_body = []\<rparr>"]) simp_all

subsection \<open>What the server reads\<close>

lemma sanitize_chars: "set order = set replacements \<Longrightarrow> sanitize order s = concat (map xml_char s)"
  by (simp add: sanitize_def sanitize_string_chars)

lemma sanitize_no_nul: "set order = set replacements \<Longrightarrow> nul \<notin> set (sanitize order s)"
  using xml_char_plain [of nul] by (auto simp: sanitize_chars)

lemma send_body_no_nul:
  assumes "set order = set replacements" "nul \<notin> set (le_time_string le)" "nul \<notin> set (sp_app_name sp)"
    "nul \<notin> set (sp_host sp)" "nul \<notin> set (sp_user sp)" "nul \<notin> set (stomp_level_string sp (le_level le))"
  shows "nul \<notin> set (send_body order sp le)"
  using assms sanitize_no_nul [OF assms(1)] by (simp add: send_body_def map_entry_def)

lemma send_header_frame:
  "send_header sp @ body =
     render_frame ''SEND'' [(''destination'', ''/topic/'' @ url_path (sp_URL sp)),
       (''transformation'', ''jms-map-xml''), (''receipt'', show_nat (unat (sp_receipt sp)))] body"
  by (simp add: send_header_def render_frame_def render_headers_def)

text \<open>
  C30. The packet of an event is one well-formed frame: as long as the path of the URL, which is
  put into a header as it is, has no line feed or null byte, and the texts that are not quoted
  have no null byte, the server sees the null byte only at the end and reads a \<^verbatim>\<open>SEND\<close> to the
  configured topic with the next receipt number and the event's XML map as body; the event's
  message, function and subsystem may hold any bytes.
\<close>

theorem send_packet_one_frame:
  assumes "set order = set replacements" "nul \<notin> set (le_time_string le)" "nul \<notin> set (sp_app_name sp)"
    "nul \<notin> set (sp_host sp)" "nul \<notin> set (sp_user sp)" "nul \<notin> set (stomp_level_string sp (le_level le))"
    and "nul \<notin> set (url_path (sp_URL sp))" "newline \<notin> set (url_path (sp_URL sp))"
  shows "\<exists>frame. send_packet order sp le = frame @ [nul] \<and> nul \<notin> set frame \<and>
    parse_frame frame = Some \<lparr>sr_command = ''SEND'',
      sr_headers = [(''destination'', ''/topic/'' @ url_path (sp_URL sp)),
        (''receipt'', show_nat (unat (sp_receipt sp + 1))), (''transformation'', ''jms-map-xml'')],
      sr_body = send_body order sp le\<rparr>"
proof -
  let ?sp = "sp\<lparr>sp_receipt := sp_receipt sp + 1\<rparr>"
  let ?hs = "[(''destination'', ''/topic/'' @ url_path (sp_URL ?sp)),
       (''transformation'', ''jms-map-xml''), (''receipt'', show_nat (unat (sp_receipt ?sp)))]"
  have body: "send_body order ?sp le = send_body order sp le"
    by (simp add: send_body_def stomp_level_string_def)
  have "nul \<notin> set (send_body order sp le)" using send_body_no_nul [OF assms(1-6)] .
  then have "nul \<notin> set (send_header ?sp @ send_body order sp le)"
    using assms(7) by (simp add: send_header_def digit_not_special)
  moreover have "headers_ok ?hs"
    using assms(8) by (simp add: headers_ok_def digit_not_special)
  from parse_render_frame [OF _ this, of "''SEND''" "send_body order sp le"]
  have "parse_frame (send_header ?sp @ send_body order sp le) =
      Some \<lparr>sr_command = ''SEND'', sr_headers = first_headers ?hs, sr_body = send_body order sp le\<rparr>"
    unfolding send_header_frame by simp
  moreover have "first_headers ?hs = [(''destination'', ''/topic/'' @ url_path (sp_URL sp)),
        (''receipt'', show_nat (unat (sp_receipt sp + 1))), (''transformation'', ''jms-map-xml'')]"
    by (simp add: first_headers_def less_char_def)
  ultimately show ?thesis
    by (intro exI [of _ "send_header ?sp @ send_body order sp le"]) (simp add: send_packet_def body Let_def)
qed

theorem send_packet_one_frame_witness:
  "\<exists>frame. send_packet replacements sample_stomp (sample_event Severe [CHR ''a'', nul] 0) = frame @ [nul] \<and>
     nul \<notin> set frame"
proof -
  have "stomp_level_string sample_stomp Severe = ''SEVERE''"
    by (simp add: stomp_level_string_def sample_stomp_def level_strings_table map_find_def)
  then show ?thesis
    using send_packet_one_frame [of replacements "sample_event Severe [CHR ''a'', nul] 0" sample_stomp]
    by (auto simp: sample_stomp_def sample_event_def)
qed

end
