(* ===== verification/Delivery.thy ===== *)
theory Delivery
  imports Retry_Thread
begin

section \<open>Delivery to one sink, step by step (log_thread.cpp, retry_thread.cpp)\<close>

text \<open>
  The threads that share one sink and its retry queue, with every step between two accesses
  to shared data a step of its own: the application that enqueues, the log thread in
  \<^verbatim>\<open>log_thread::log\<close> and the retry thread in \<^verbatim>\<open>retry_thread::run\<close>. A sink may accept
  or refuse any write. This is where the lock-free decisions of the code show: the log thread
  asks \<^verbatim>\<open>active()\<close> and enqueues later, the retry thread finds its queue empty and returns
  later.
\<close>

text \<open>
  The log thread, for the sink at hand: between two events; \<^verbatim>\<open>active()\<close> was false and it
  joins the retry thread; \<^verbatim>\<open>active()\<close> was true and it is about to enqueue; about to write
  directly; the new retry thread runs and the first event is about to be enqueued.
\<close>

datatype log_pc = L_idle | L_join | L_enqueue | L_write | L_first

text \<open>
  The retry thread: none; sleeping; at the head of the write loop; the front event written
  and not yet popped; about to expire; about to ask \<^verbatim>\<open>active()\<close>; returned.
\<close>

datatype retry_pc = R_none | R_sleep | R_loop | R_pop | R_expire | R_check | R_done

record delivery =
  dl_events :: "log_event list"
  dl_local :: "log_event list"
  dl_log :: log_pc
  dl_queue :: "log_event list"
  dl_retry :: retry_pc
  dl_enqueued :: "log_event list"
  dl_delivered :: "log_event list"

text \<open>The last two fields are histories: what the application enqueued, what the sink accepted.\<close>

definition delivery_start :: delivery where
  "delivery_start = \<lparr>dl_events = [], dl_local = [], dl_log = L_idle, dl_queue = [], dl_retry = R_none,
     dl_enqueued = [], dl_delivered = []\<rparr>"

datatype action =
    A_enqueue log_event | A_swap | A_check | A_join | A_put | A_write bool | A_spawn_failed | A_first
  | A_wake | A_retry_empty | A_retry_write bool | A_pop | A_expire time_point | A_stop | A_again

inductive dstep :: "delivery \<Rightarrow> action \<Rightarrow> delivery \<Rightarrow> bool" where
  enqueue: "dstep d (A_enqueue e)
     (d\<lparr>dl_events := dl_events d @ [e], dl_enqueued := dl_enqueued d @ [e]\<rparr>)"
| swap: "dl_log d = L_idle \<Longrightarrow> dl_local d = [] \<Longrightarrow>
     dstep d A_swap (d\<lparr>dl_local := dl_events d, dl_events := []\<rparr>)"
| check_none: "dl_log d = L_idle \<Longrightarrow> dl_local d \<noteq> [] \<Longrightarrow> dl_retry d = R_none \<Longrightarrow>
     dstep d A_check (d\<lparr>dl_log := L_write\<rparr>)"
| check_inactive: "dl_log d = L_idle \<Longrightarrow> dl_local d \<noteq> [] \<Longrightarrow> dl_retry d \<noteq> R_none \<Longrightarrow> dl_queue d = [] \<Longrightarrow>
     dstep d A_check (d\<lparr>dl_log := L_join\<rparr>)"
| check_active: "dl_log d = L_idle \<Longrightarrow> dl_local d \<noteq> [] \<Longrightarrow> dl_retry d \<noteq> R_none \<Longrightarrow> dl_queue d \<noteq> [] \<Longrightarrow>
     dstep d A_check (d\<lparr>dl_log := L_enqueue\<rparr>)"
| join: "dl_log d = L_join \<Longrightarrow> dl_retry d = R_done \<Longrightarrow>
     dstep d A_join (d\<lparr>dl_log := L_write, dl_retry := R_none\<rparr>)"
| put: "dl_log d = L_enqueue \<Longrightarrow> dl_local d = e # es \<Longrightarrow>
     dstep d A_put (d\<lparr>dl_log := L_idle, dl_local := es, dl_queue := dl_queue d @ [e]\<rparr>)"
| write_ok: "dl_log d = L_write \<Longrightarrow> dl_local d = e # es \<Longrightarrow>
     dstep d (A_write True) (d\<lparr>dl_log := L_idle, dl_local := es, dl_delivered := dl_delivered d @ [e]\<rparr>)"
| write_spawn: "dl_log d = L_write \<Longrightarrow> dstep d (A_write False) (d\<lparr>dl_log := L_first, dl_retry := R_sleep\<rparr>)"
| write_lost: "dl_log d = L_write \<Longrightarrow> dl_local d = e # es \<Longrightarrow>
     dstep d A_spawn_failed (d\<lparr>dl_log := L_idle, dl_local := es\<rparr>)"
| first: "dl_log d = L_first \<Longrightarrow> dl_local d = e # es \<Longrightarrow>
     dstep d A_first (d\<lparr>dl_log := L_idle, dl_local := es, dl_queue := dl_queue d @ [e]\<rparr>)"
| wake: "dl_retry d = R_sleep \<Longrightarrow> dstep d A_wake (d\<lparr>dl_retry := R_loop\<rparr>)"
| retry_empty: "dl_retry d = R_loop \<Longrightarrow> dl_queue d = [] \<Longrightarrow> dstep d A_retry_empty (d\<lparr>dl_retry := R_expire\<rparr>)"
| retry_ok: "dl_retry d = R_loop \<Longrightarrow> dl_queue d = e # q \<Longrightarrow>
     dstep d (A_retry_write True) (d\<lparr>dl_retry := R_pop, dl_delivered := dl_delivered d @ [e]\<rparr>)"
| retry_failed: "dl_retry d = R_loop \<Longrightarrow> dl_queue d \<noteq> [] \<Longrightarrow>
     dstep d (A_retry_write False) (d\<lparr>dl_retry := R_expire\<rparr>)"
| pop: "dl_retry d = R_pop \<Longrightarrow> dl_queue d = e # q \<Longrightarrow> dstep d A_pop (d\<lparr>dl_retry := R_loop, dl_queue := q\<rparr>)"
| expire: "dl_retry d = R_expire \<Longrightarrow>
     dstep d (A_expire tpnow)
       (d\<lparr>dl_retry := R_check, dl_queue := fst (expire_loop tpnow (dl_queue d) 0)\<rparr>)"
| stop: "dl_retry d = R_check \<Longrightarrow> dl_queue d = [] \<Longrightarrow> dstep d A_stop (d\<lparr>dl_retry := R_done\<rparr>)"
| again: "dl_retry d = R_check \<Longrightarrow> dl_queue d \<noteq> [] \<Longrightarrow> dstep d A_again (d\<lparr>dl_retry := R_sleep\<rparr>)"

code_pred (modes: i \<Rightarrow> i \<Rightarrow> o \<Rightarrow> bool as dstep_out) dstep .

inductive_cases dstepE: "dstep d a d'"

inductive run_from :: "delivery \<Rightarrow> action list \<Rightarrow> delivery \<Rightarrow> bool" where
  run_Nil: "run_from d [] d"
| run_Cons: "dstep d a d1 \<Longrightarrow> run_from d1 as d' \<Longrightarrow> run_from d (a # as) d'"

inductive_cases run_NilE: "run_from d [] d'"
inductive_cases run_ConsE: "run_from d (a # as) d'"

lemma run_Cons_eq: "run_from d (a # as) d' \<longleftrightarrow> (\<exists>d1. dstep d a d1 \<and> run_from d1 as d')"
  by (auto intro: run_from.intros elim: run_ConsE)

lemma run_Nil_eq: "run_from d [] d' \<longleftrightarrow> d' = d"
  by (auto intro: run_from.intros elim: run_NilE)

inductive_simps dstep_simps:
  "dstep d (A_enqueue e) d'" "dstep d A_swap d'" "dstep d A_check d'" "dstep d A_join d'"
  "dstep d A_put d'" "dstep d (A_write b) d'" "dstep d A_spawn_failed d'" "dstep d A_first d'"
  "dstep d A_wake d'" "dstep d A_retry_empty d'" "dstep d (A_retry_write b) d'" "dstep d A_pop d'"
  "dstep d (A_expire t) d'" "dstep d A_stop d'" "dstep d A_again d'"

subsection \<open>Who may touch the sink\<close>

definition delivery_inv :: "delivery \<Rightarrow> bool" where
  "delivery_inv d \<longleftrightarrow>
     (dl_retry d = R_none \<longrightarrow> dl_queue d = []) \<and>
     (dl_retry d = R_pop \<longrightarrow> dl_queue d \<noteq> []) \<and>
     (dl_log d = L_write \<longrightarrow> dl_retry d = R_none) \<and>
     (dl_log d = L_join \<longrightarrow> dl_retry d \<noteq> R_none \<and> dl_queue d = []) \<and>
     (dl_log d = L_enqueue \<longrightarrow> dl_retry d \<noteq> R_none) \<and>
     (dl_log d = L_first \<longrightarrow> dl_retry d \<noteq> R_none \<and> dl_queue d = []) \<and>
     (dl_log d \<noteq> L_idle \<longrightarrow> dl_local d \<noteq> [])"

lemma delivery_inv_start: "delivery_inv delivery_start"
  by (simp add: delivery_inv_def delivery_start_def)

lemma delivery_inv_step: "dstep d a d' \<Longrightarrow> delivery_inv d \<Longrightarrow> delivery_inv d'"
  by (elim dstepE) (auto simp: delivery_inv_def expire_loop_filter)

lemma delivery_inv_run: "run_from d as d' \<Longrightarrow> delivery_inv d \<Longrightarrow> delivery_inv d'"
  by (induction rule: run_from.induct) (auto dest: delivery_inv_step)

text \<open>
  C14. One writer at a time, without any lock around \<^verbatim>\<open>write\<close>: whenever the log thread is
  about to write to the sink itself, the sink has no retry thread (the last one has been
  joined), and nothing is waiting for it. So the two threads never write to a sink at once, and
  a direct write never overtakes a queued event.
\<close>

theorem direct_write_exclusive:
  assumes "run_from delivery_start as d" "dl_log d = L_write"
  shows "dl_retry d = R_none \<and> dl_queue d = []"
  using delivery_inv_run [OF assms(1) delivery_inv_start] assms(2) by (simp add: delivery_inv_def)

theorem direct_write_exclusive_witness:
  "\<exists>d. run_from delivery_start [A_enqueue (sample_event Info ''a'' 0), A_swap, A_check] d \<and>
     dl_log d = L_write \<and> dl_retry d = R_none \<and> dl_queue d = []"
proof -
  have "\<exists>d. run_from delivery_start [A_enqueue (sample_event Info ''a'' 0), A_swap, A_check] d \<and> dl_log d = L_write"
    by (simp add: run_Cons_eq run_Nil_eq dstep_simps delivery_start_def)
  then show ?thesis using direct_write_exclusive by blast
qed

subsection \<open>Order and completeness\<close>

text \<open>The events on their way to the sink, in the order in which it will see them.\<close>

definition in_flight :: "delivery \<Rightarrow> log_event list" where
  "in_flight d =
     (if dl_retry d = R_pop then tl (dl_queue d) else dl_queue d) @ dl_local d @ dl_events d"

lemma dstep_chain:
  assumes "dstep d a d'" "delivery_inv d"
  obtains (same) "dl_delivered d' @ in_flight d' = dl_delivered d @ in_flight d" "dl_enqueued d' = dl_enqueued d"
    | (new) e where "dl_delivered d' @ in_flight d' = dl_delivered d @ in_flight d @ [e]"
      "dl_enqueued d' = dl_enqueued d @ [e]"
    | (lost) e es where "a = A_spawn_failed" "in_flight d = e # es" "in_flight d' = es"
      "dl_delivered d' = dl_delivered d" "dl_enqueued d' = dl_enqueued d"
    | (expired) q tpnow where "a = A_expire tpnow"
      "in_flight d = dl_queue d @ q" "in_flight d' = filter (\<lambda>i. \<not> expired tpnow i) (dl_queue d) @ q"
      "dl_delivered d' = dl_delivered d" "dl_enqueued d' = dl_enqueued d"
  using assms(1)
proof cases
  case (write_lost e es)
  then show thesis
    using assms(2) by (intro lost [of e "es @ dl_events d"]) (simp_all add: in_flight_def delivery_inv_def)
next
  case (expire tpnow)
  then show thesis
    by (intro expired [of tpnow "dl_local d @ dl_events d"]) (simp_all add: in_flight_def expire_loop_filter)
next
  case (enqueue e)
  then show thesis by (intro new [of e]) (simp_all add: in_flight_def)
qed (use assms(2) in \<open>auto intro!: same simp: in_flight_def delivery_inv_def\<close>)

lemma run_subseq:
  assumes "run_from d as d'" "delivery_inv d" "subseq (dl_delivered d @ in_flight d) (dl_enqueued d)"
  shows "subseq (dl_delivered d' @ in_flight d') (dl_enqueued d')"
  using assms
proof (induction rule: run_from.induct)
  case (run_Cons d a d1 as d')
  have "subseq (dl_delivered d1 @ in_flight d1) (dl_enqueued d1)"
    using run_Cons.hyps(1) run_Cons.prems(1)
  proof (cases rule: dstep_chain)
    case (new e)
    then show ?thesis
      using run_Cons.prems(2) list_emb_append_mono [of "(=)" "dl_delivered d @ in_flight d" "dl_enqueued d" "[e]" "[e]"]
      by simp
  next
    case (lost e es)
    then have "subseq (dl_delivered d1 @ in_flight d1) (dl_delivered d @ in_flight d)"
      by (simp add: subseq_append' list_emb_Cons)
    then show ?thesis using run_Cons.prems(2) lost(5) by (metis subseq_order.trans)
  next
    case (expired q tpnow)
    then have "subseq (dl_delivered d1 @ in_flight d1) (dl_delivered d @ in_flight d)"
      by (simp add: subseq_append')
    then show ?thesis using run_Cons.prems(2) expired(5) by (metis subseq_order.trans)
  qed (use run_Cons.prems(2) in simp)
  then show ?case
    using run_Cons delivery_inv_step by blast
qed simp

text \<open>
  C11. In every interleaving of the application, the log thread and the retry thread: what the
  sink has accepted, followed by what is on its way to it, is an in-order part of what the
  application enqueued. No event is delivered twice and none overtakes another.
\<close>

theorem delivered_in_order:
  assumes "run_from delivery_start as d"
  shows "subseq (dl_delivered d @ in_flight d) (dl_enqueued d)"
  by (rule run_subseq [OF assms delivery_inv_start])
    (simp add: delivery_start_def in_flight_def)

lemma run_severe:
  assumes "run_from d as d'" "delivery_inv d"
    and "A_spawn_failed \<notin> set as" "\<forall>t. A_expire t \<in> set as \<longrightarrow> time_ok t"
    and "\<forall>e. A_enqueue e \<in> set as \<longrightarrow> time_ok (le_time e)" "\<forall>e \<in> set (dl_enqueued d). time_ok (le_time e)"
    and "subseq (dl_delivered d @ in_flight d) (dl_enqueued d)"
    and "filter (\<lambda>e. le_level e = Severe) (dl_delivered d @ in_flight d) =
      filter (\<lambda>e. le_level e = Severe) (dl_enqueued d)"
  shows "filter (\<lambda>e. le_level e = Severe) (dl_delivered d' @ in_flight d') =
      filter (\<lambda>e. le_level e = Severe) (dl_enqueued d')"
  using assms
proof (induction rule: run_from.induct)
  case (run_Cons d a d1 as d')
  have times: "\<forall>e \<in> set (dl_enqueued d1). time_ok (le_time e)"
    using run_Cons.hyps(1) run_Cons.prems(4,5) by (cases rule: dstep.cases) auto
  have sub: "subseq (dl_delivered d1 @ in_flight d1) (dl_enqueued d1)"
    using run_subseq [of d "[a]" d1] run_Cons.hyps(1) run_Cons.prems(1,6) run_from.intros by metis
  have "filter (\<lambda>e. le_level e = Severe) (dl_delivered d1 @ in_flight d1) =
      filter (\<lambda>e. le_level e = Severe) (dl_enqueued d1)"
    using run_Cons.hyps(1) run_Cons.prems(1)
  proof (cases rule: dstep_chain)
    case (expired q tpnow)
    have "set (dl_queue d) \<subseteq> set (dl_enqueued d)"
      using expired(2) list_emb_set [OF run_Cons.prems(6)] by force
    then have "\<not> expired tpnow e" if "e \<in> set (dl_queue d)" "le_level e = Severe" for e
      using severe_never_expires that run_Cons.prems(3,5) expired(1) by auto
    then have "filter (\<lambda>e. \<not> expired tpnow e \<and> le_level e = Severe) (dl_queue d) =
        filter (\<lambda>e. le_level e = Severe) (dl_queue d)"
      by (intro filter_cong) auto
    then show ?thesis using expired(2-5) run_Cons.prems(7) by (simp add: conj_commute)
  qed (use run_Cons.prems(2,7) in auto)
  then show ?case
    using run_Cons delivery_inv_step times sub by auto
qed simp

text \<open>
  C12. As long as the retry threads can be started, no interleaving loses a severe event: the
  severe events the sink has accepted and those on their way to it are, together and in order,
  all severe events that were enqueued (for times within the range of the clock).
\<close>

theorem severe_never_lost:
  assumes "run_from delivery_start as d" "A_spawn_failed \<notin> set as"
    and "\<forall>t. A_expire t \<in> set as \<longrightarrow> time_ok t" "\<forall>e. A_enqueue e \<in> set as \<longrightarrow> time_ok (le_time e)"
  shows "filter (\<lambda>e. le_level e = Severe) (dl_delivered d @ in_flight d) =
    filter (\<lambda>e. le_level e = Severe) (dl_enqueued d)"
  by (rule run_severe [OF assms(1) delivery_inv_start assms(2-4)])
    (simp_all add: delivery_start_def in_flight_def)

text \<open>A run in which the sink refuses the first event and accepts it from its retry thread.\<close>

definition sample_trace :: "action list" where
  "sample_trace = [A_enqueue (sample_event Severe ''a'' 0), A_swap, A_check, A_write False, A_first,
     A_wake, A_retry_write True]"

lemma sample_run_exists:
  "\<exists>d. run_from delivery_start sample_trace d \<and> dl_delivered d = [sample_event Severe ''a'' 0]"
  by (simp add: sample_trace_def run_Cons_eq run_Nil_eq dstep_simps delivery_start_def)

theorem delivered_in_order_witness:
  "\<exists>d. run_from delivery_start sample_trace d \<and> subseq (dl_delivered d @ in_flight d) (dl_enqueued d)"
  using sample_run_exists delivered_in_order by blast

theorem severe_never_lost_witness:
  "\<exists>d. run_from delivery_start sample_trace d \<and>
     filter (\<lambda>e. le_level e = Severe) (dl_delivered d @ in_flight d) =
     filter (\<lambda>e. le_level e = Severe) (dl_enqueued d)"
proof -
  obtain d where d: "run_from delivery_start sample_trace d" using sample_run_exists by blast
  show ?thesis
    by (intro exI [of _ d] conjI d severe_never_lost [OF d])
      (auto simp: sample_trace_def sample_event_def time_ok_def)
qed

subsection \<open>The gap between active and enqueue\<close>

text \<open>The retry thread has returned, and events wait in its queue.\<close>

definition stranded :: "delivery \<Rightarrow> bool" where
  "stranded d \<longleftrightarrow> delivery_inv d \<and> dl_retry d = R_done \<and> dl_queue d \<noteq> []"

lemma stranded_step:
  assumes "dstep d a d'" "stranded d"
  shows "stranded d' \<and> prefix (dl_queue d) (dl_queue d') \<and> dl_delivered d' = dl_delivered d"
  using assms(1) delivery_inv_step [OF assms(1)] assms(2)
  by (cases rule: dstep.cases) (auto simp: stranded_def delivery_inv_def)

lemma stranded_run:
  "run_from d as d' \<Longrightarrow> stranded d \<Longrightarrow>
     stranded d' \<and> prefix (dl_queue d) (dl_queue d') \<and> dl_delivered d' = dl_delivered d"
proof (induction rule: run_from.induct)
  case (run_Cons d a d1 as d')
  then show ?case using stranded_step [OF run_Cons.hyps(1)] prefix_order.trans by metis
qed simp

text \<open>
  A schedule: the log thread sees its retry thread active, the retry thread then writes its
  last event and returns, and only now the log thread enqueues.
\<close>

definition lost_wakeup :: "log_event \<Rightarrow> log_event \<Rightarrow> action list" where
  "lost_wakeup e1 e2 =
     [A_enqueue e1, A_swap, A_check, A_write False, A_first, A_enqueue e2, A_swap, A_check,
      A_wake, A_retry_write True, A_pop, A_retry_empty, A_expire 0, A_stop, A_put]"

lemma lost_wakeup_strands:
  "\<exists>d. run_from delivery_start (lost_wakeup e1 e2) d \<and> stranded d \<and> dl_queue d = [e2] \<and> dl_delivered d = [e1]"
  by (simp add: lost_wakeup_def run_Cons_eq run_Nil_eq dstep_simps delivery_start_def stranded_def
      delivery_inv_def)

text \<open>
  C15. The gap between \<^verbatim>\<open>active()\<close> and \<^verbatim>\<open>enqueue()\<close> in \<^verbatim>\<open>log_thread::log\<close> can cut a
  sink off: for any two events there is a schedule, with a single refused write, after which
  the second event waits in the queue of a thread that has returned, and then no continuation
  whatsoever delivers it or any later event, although the sink would accept them; the queue is
  never empty again, so \<^verbatim>\<open>active()\<close> stays true and shutdown waits for ever.
\<close>

theorem lost_wakeup_cuts_off_sink:
  "\<exists>d. run_from delivery_start (lost_wakeup e1 e2) d \<and> dl_queue d = [e2] \<and>
     (\<forall>as d'. run_from d as d' \<longrightarrow>
        dl_retry d' = R_done \<and> prefix [e2] (dl_queue d') \<and> dl_delivered d' = dl_delivered d)"
proof -
  obtain d where d: "run_from delivery_start (lost_wakeup e1 e2) d" "stranded d" "dl_queue d = [e2]"
    using lost_wakeup_strands by blast
  have "dl_retry d' = R_done \<and> prefix [e2] (dl_queue d') \<and> dl_delivered d' = dl_delivered d"
    if "run_from d as d'" for as d'
    using stranded_run [OF that d(2)] d(3) by (simp add: stranded_def)
  then show ?thesis using d by blast
qed

theorem lost_wakeup_cuts_off_sink_witness:
  "\<exists>d. run_from delivery_start (lost_wakeup (sample_event Info ''a'' 0) (sample_event Severe ''b'' 1)) d \<and>
     dl_queue d = [sample_event Severe ''b'' 1]"
  using lost_wakeup_cuts_off_sink [of "sample_event Info ''a'' 0" "sample_event Severe ''b'' 1"] by blast


subsection \<open>Progress\<close>

text \<open>
  The steps of a system at work: no new event, no refused write, no failed thread start and no
  wake-up of the log thread for nothing.
\<close>

definition working :: "delivery \<Rightarrow> action \<Rightarrow> bool" where
  "working d a \<longleftrightarrow> (case a of A_enqueue _ \<Rightarrow> False | A_write ok \<Rightarrow> ok | A_retry_write ok \<Rightarrow> ok
     | A_spawn_failed \<Rightarrow> False | A_swap \<Rightarrow> dl_events d \<noteq> [] | _ \<Rightarrow> True)"

inductive working_run :: "delivery \<Rightarrow> action list \<Rightarrow> delivery \<Rightarrow> bool" where
  working_Nil: "working_run d [] d"
| working_Cons: "dstep d a d1 \<Longrightarrow> working d a \<Longrightarrow> working_run d1 as d' \<Longrightarrow> working_run d (a # as) d'"

fun log_rank :: "log_pc \<Rightarrow> nat" where
  "log_rank L_idle = 4"
| "log_rank L_join = 3"
| "log_rank L_enqueue = 3"
| "log_rank L_write = 2"
| "log_rank L_first = 2"

fun retry_rank :: "bool \<Rightarrow> retry_pc \<Rightarrow> nat" where
  "retry_rank waiting R_expire = (if waiting then 6 else 3)"
| "retry_rank waiting R_check = (if waiting then 5 else 2)"
| "retry_rank waiting R_sleep = (if waiting then 4 else 5)"
| "retry_rank waiting R_loop = (if waiting then 3 else 4)"
| "retry_rank waiting R_pop = 2"
| "retry_rank waiting R_done = 1"
| "retry_rank waiting R_none = 0"

definition work_left :: "delivery \<Rightarrow> nat" where
  "work_left d = 40 * length (dl_events d) + 30 * length (dl_local d) + 10 * length (dl_queue d) +
     log_rank (dl_log d) + retry_rank (dl_queue d \<noteq> []) (dl_retry d)"

lemma retry_rank_le: "retry_rank w r \<le> 6"
  by (cases r) simp_all

lemma working_step_decreases:
  assumes "dstep d a d'" "working d a"
  shows "work_left d' < work_left d"
  using assms
proof cases
  case swap
  then show ?thesis using assms(2) by (cases "dl_events d") (simp_all add: work_left_def working_def)
next
  case (put e es)
  then show ?thesis
    using retry_rank_le [of True "dl_retry d"] retry_rank_le [of False "dl_retry d"]
    by (cases "dl_queue d = []") (simp_all add: work_left_def)
next
  case (first e es)
  then show ?thesis
    using retry_rank_le [of True "dl_retry d"] retry_rank_le [of False "dl_retry d"]
    by (cases "dl_queue d = []") (simp_all add: work_left_def)
next
  case (pop e q)
  then show ?thesis by (cases q) (simp_all add: work_left_def)
next
  case (expire tpnow)
  let ?kept = "filter (\<lambda>i. \<not> expired tpnow i) (dl_queue d)"
  have "length ?kept < Suc (length (dl_queue d))" by (simp add: less_Suc_eq_le)
  then have "10 * length ?kept < Suc (10 * length (dl_queue d))" by arith
  then show ?thesis
    using expire by (cases "dl_queue d = []"; cases "?kept = []") (simp_all add: work_left_def expire_loop_filter)
qed (use assms(2) in \<open>auto simp: work_left_def working_def\<close>)

lemma working_run_run: "working_run d as d' \<Longrightarrow> run_from d as d'"
  by (induction rule: working_run.induct) (auto intro: run_from.intros)

lemma working_run_bound: "working_run d as d' \<Longrightarrow> length as + work_left d' \<le> work_left d"
  by (induction rule: working_run.induct) (auto dest: working_step_decreases)

lemma working_simps [simp]:
  "working d A_swap \<longleftrightarrow> dl_events d \<noteq> []" "working d A_check" "working d A_join" "working d A_put"
  "working d (A_write ok) \<longleftrightarrow> ok" "working d A_first" "working d A_wake" "working d A_retry_empty"
  "working d (A_retry_write ok) \<longleftrightarrow> ok" "working d A_pop" "working d (A_expire t)" "working d A_stop"
  "working d A_again"
  by (simp_all add: working_def)

definition can_work :: "delivery \<Rightarrow> bool" where
  "can_work d \<longleftrightarrow> (\<exists>a d'. dstep d a d' \<and> working d a)"

lemma can_workI: "dstep d a d' \<Longrightarrow> working d a \<Longrightarrow> can_work d"
  by (auto simp: can_work_def)

lemma retry_can_work:
  assumes "delivery_inv d" "dl_retry d \<notin> {R_none, R_done}"
  shows "can_work d"
proof (cases "dl_retry d")
  case R_loop
  then show ?thesis
    using can_workI [OF dstep.retry_empty] can_workI [OF dstep.retry_ok]
    by (cases "dl_queue d") simp_all
next
  case R_pop
  then obtain e q where "dl_queue d = e # q" using assms(1) by (cases "dl_queue d") (auto simp: delivery_inv_def)
  then show ?thesis using can_workI [OF dstep.pop [OF R_pop]] by simp
next
  case R_check
  then show ?thesis
    using can_workI [OF dstep.stop [OF R_check]] can_workI [OF dstep.again [OF R_check]]
    by (cases "dl_queue d = []") simp_all
next
  case R_sleep
  then show ?thesis using can_workI [OF dstep.wake] by simp
next
  case R_expire
  then show ?thesis using can_workI [OF dstep.expire] by simp
qed (use assms(2) in simp_all)

lemma log_can_work:
  assumes "delivery_inv d" "dl_log d \<noteq> L_idle" "dl_log d = L_join \<Longrightarrow> dl_retry d = R_done"
  shows "can_work d"
proof -
  obtain e es where es: "dl_local d = e # es" using assms(1,2) by (cases "dl_local d") (auto simp: delivery_inv_def)
  show ?thesis
  proof (cases "dl_log d")
    case L_join
    then show ?thesis using can_workI [OF dstep.join [OF L_join]] assms(3) by simp
  next
    case L_enqueue
    then show ?thesis using can_workI [OF dstep.put [OF L_enqueue es]] by simp
  next
    case L_write
    then show ?thesis using can_workI [OF dstep.write_ok [OF L_write es]] by simp
  next
    case L_first
    then show ?thesis using can_workI [OF dstep.first [OF L_first es]] by simp
  qed (use assms(2) in simp)
qed

lemma working_enabled:
  assumes "delivery_inv d" "in_flight d \<noteq> []" "\<not> stranded d"
  shows "can_work d"
proof (cases "dl_retry d \<in> {R_none, R_done} \<and> dl_log d = L_idle")
  case True
  then have idle: "dl_log d = L_idle" by simp
  have empty: "dl_queue d = []" using True assms(1,3) by (auto simp: stranded_def delivery_inv_def)
  show ?thesis
  proof (cases "dl_local d = []")
    case local: True
    then have "dl_events d \<noteq> []" using assms(2) empty by (simp add: in_flight_def split: if_splits)
    then show ?thesis using can_workI [OF dstep.swap [OF idle local]] by simp
  next
    case False
    then show ?thesis
      using can_workI [OF dstep.check_none [OF idle False]] can_workI [OF dstep.check_inactive [OF idle False _ empty]]
      by (cases "dl_retry d = R_none") simp_all
  qed
next
  case False
  then show ?thesis
    using retry_can_work [OF assms(1)] log_can_work [OF assms(1)] assms(1)
    by (cases "dl_retry d \<in> {R_none, R_done}") (auto simp: delivery_inv_def)
qed

text \<open>
  C13. Delivery makes progress, and the gap above is the only obstacle. From every reachable
  state, once the sink accepts, the threads can be started and no event arrives, every
  schedule is finite, of a length bounded in advance; and wherever a schedule ends because no
  step is left, either nothing is on its way to the sink any more or the sink is cut off with
  events waiting for a retry thread that has returned.
\<close>

theorem delivery_progress:
  assumes "run_from delivery_start as d" "working_run d work d'"
  shows "length work \<le> work_left d \<and>
    (in_flight d' = [] \<or> stranded d' \<or> can_work d')"
proof -
  have "delivery_inv d'"
    using delivery_inv_run assms delivery_inv_start working_run_run by blast
  then show ?thesis
    using working_enabled [of d'] working_run_bound [OF assms(2)] by auto
qed

theorem delivery_progress_witness:
  "\<exists>d. run_from delivery_start [A_enqueue (sample_event Severe ''a'' 0), A_swap, A_check, A_write False, A_first] d \<and>
     can_work d"
proof -
  obtain d where d: "run_from delivery_start
      [A_enqueue (sample_event Severe ''a'' 0), A_swap, A_check, A_write False, A_first] d"
      "in_flight d \<noteq> []" "\<not> stranded d"
    by (auto simp: run_Cons_eq run_Nil_eq dstep_simps delivery_start_def in_flight_def stranded_def)
  then show ?thesis using delivery_progress [OF d(1) working_Nil] by blast
qed

end
