(* ===== verification/Delivery_Refinement.thy ===== *)
theory Delivery_Refinement
  imports Delivery Log_Thread
begin

section \<open>The log thread's own runs are runs of the step relation\<close>

text \<open>
  The theory \<open>Log_Thread\<close> delivers a whole event at a time, on sinks that have a state; the
  theory \<open>Delivery\<close> interleaves single steps, with a sink that answers as it likes. Here the
  first is shown to be a part of the second: any history of \<^verbatim>\<open>log_thread::log\<close> calls and
  retry cycles is, for each sink, a run of the step relation in which the sink's answers are
  those of its \<^verbatim>\<open>write\<close>. What holds in every interleaving therefore holds of it.
\<close>

subsection \<open>A run with a concrete sink\<close>

text \<open>The write a step makes: the answer it is given and the event it offers.\<close>

definition offer :: "delivery \<Rightarrow> action \<Rightarrow> (bool \<times> log_event) option" where
  "offer d a = (case a of
      A_write ok \<Rightarrow> Some (ok, hd (dl_local d))
    | A_spawn_failed \<Rightarrow> Some (False, hd (dl_local d))
    | A_retry_write ok \<Rightarrow> Some (ok, hd (dl_queue d))
    | _ \<Rightarrow> None)"

definition answers :: "('t \<Rightarrow> log_event \<Rightarrow> bool \<times> 't) \<Rightarrow> 't \<Rightarrow> (bool \<times> log_event) option \<Rightarrow> 't \<Rightarrow> bool" where
  "answers w s x s' = (case x of None \<Rightarrow> s' = s | Some (ok, e) \<Rightarrow> w s e = (ok, s'))"

inductive driven ::
  "('t \<Rightarrow> log_event \<Rightarrow> bool \<times> 't) \<Rightarrow> 't \<Rightarrow> delivery \<Rightarrow> action list \<Rightarrow> 't \<Rightarrow> delivery \<Rightarrow> bool"
  for w where
  driven_Nil: "driven w s d [] s d"
| driven_Cons: "dstep d a d1 \<Longrightarrow> answers w s (offer d a) s1 \<Longrightarrow> driven w s1 d1 as s' d' \<Longrightarrow>
     driven w s d (a # as) s' d'"

inductive_cases driven_ConsE: "driven w s d (a # as) s' d'"
inductive_simps driven_Nil_eq: "driven w s d [] s' d'"
inductive_simps driven_Cons_eq: "driven w s d (a # as) s' d'"

lemma offer_simps [simp]:
  "offer d (A_write ok) = Some (ok, hd (dl_local d))"
  "offer d A_spawn_failed = Some (False, hd (dl_local d))"
  "offer d (A_retry_write ok) = Some (ok, hd (dl_queue d))"
  "offer d (A_enqueue e) = None" "offer d A_swap = None" "offer d A_check = None" "offer d A_join = None"
  "offer d A_put = None" "offer d A_first = None" "offer d A_wake = None" "offer d A_retry_empty = None"
  "offer d A_pop = None" "offer d (A_expire t) = None" "offer d A_stop = None" "offer d A_again = None"
  by (simp_all add: offer_def)

lemma answers_simps [simp]:
  "answers w s None s' \<longleftrightarrow> s' = s" "answers w s (Some (ok, e)) s' \<longleftrightarrow> w s e = (ok, s')"
  by (simp_all add: answers_def)

lemma driven_run: "driven w s d as s' d' \<Longrightarrow> run_from d as d'"
  by (induction rule: driven.induct) (auto intro: run_from.intros)

lemma driven_append:
  "driven w s d as s1 d1 \<Longrightarrow> driven w s1 d1 bs s' d' \<Longrightarrow> driven w s d (as @ bs) s' d'"
  by (induction rule: driven.induct) (auto intro: driven.intros)

subsection \<open>One operation on one sink\<close>

text \<open>Between two operations: the queue is \<open>q\<close>, and a retry thread sleeps exactly if it is not empty.\<close>

definition at_rest :: "log_event list \<Rightarrow> delivery \<Rightarrow> bool" where
  "at_rest q d \<longleftrightarrow> dl_events d = [] \<and> dl_local d = [] \<and> dl_log d = L_idle \<and> dl_queue d = q \<and>
     (if q = [] then dl_retry d = R_none \<or> dl_retry d = R_done else dl_retry d = R_sleep)"

lemma at_rest_start: "at_rest [] delivery_start"
  by (simp add: at_rest_def delivery_start_def)

lemma at_rest_in_flight: "at_rest q d \<Longrightarrow> in_flight d = q"
  by (auto simp: at_rest_def in_flight_def split: if_splits)

text \<open>The steps of \<^verbatim>\<open>log_thread::log\<close> for one event, from the \<^verbatim>\<open>enqueue\<close> on.\<close>

definition log_actions :: "bool \<Rightarrow> bool \<Rightarrow> log_event \<Rightarrow> delivery \<Rightarrow> action list" where
  "log_actions ok can_spawn e d = [A_enqueue e, A_swap, A_check] @
     (if dl_queue d \<noteq> [] then [A_put]
      else (if dl_retry d = R_none then [] else [A_join]) @
        (if ok then [A_write True] else if can_spawn then [A_write False, A_first] else [A_spawn_failed]))"

lemma log_driven:
  assumes "at_rest q d" "sink_log w can_spawn e (s, q) = (s', q')"
  shows "\<exists>d'. driven w s d (log_actions (fst (w s e)) can_spawn e d) s' d' \<and> at_rest q' d' \<and>
    dl_enqueued d' = dl_enqueued d @ [e]"
  using assms
  by (cases "w s e")
    (auto simp: log_actions_def at_rest_def sink_log_def driven_Cons_eq driven_Nil_eq dstep_simps Let_def
      split: if_splits)

text \<open>The steps of a retry cycle: the writes that succeed, the one that does not, expiry.\<close>

definition sink_cycle ::
  "('t \<Rightarrow> log_event \<Rightarrow> bool \<times> 't) \<Rightarrow> time_point \<Rightarrow> 't \<times> log_event list \<Rightarrow> 't \<times> log_event list" where
  "sink_cycle w tpnow = (\<lambda>(s, q).
     let (d, s1, q1) = write_loop w s q in (s1, fst (expire_loop tpnow q1 0)))"

definition cycle_actions :: "nat \<Rightarrow> bool \<Rightarrow> time_point \<Rightarrow> bool \<Rightarrow> action list" where
  "cycle_actions n emptied tpnow stops =
     A_wake # concat (replicate n [A_retry_write True, A_pop]) @
     [if emptied then A_retry_empty else A_retry_write False, A_expire tpnow,
      if stops then A_stop else A_again]"

lemma write_loop_driven:
  assumes "write_loop w s q = (done1, s', q')" "dl_retry d = R_loop" "dl_queue d = q"
  shows "driven w s d (concat (replicate (length done1) [A_retry_write True, A_pop]) @
      [if q' = [] then A_retry_empty else A_retry_write False]) s'
    (d\<lparr>dl_retry := R_expire, dl_queue := q', dl_delivered := dl_delivered d @ done1\<rparr>)"
  using assms
proof (induction w s q arbitrary: d done1 rule: write_loop.induct)
  case (1 w s)
  then show ?case by (simp add: driven_Cons_eq driven_Nil_eq dstep_simps)
next
  case (2 w s e q)
  obtain ok s1 where w: "w s e = (ok, s1)" by fastforce
  show ?case
  proof (cases ok)
    case True
    obtain done2 where d2: "write_loop w s1 q = (done2, s', q')" "done1 = e # done2"
      using "2.prems"(1) w True by (auto split: prod.splits)
    show ?thesis
      using "2.IH" [OF w [symmetric] refl True d2(1),
          of "d\<lparr>dl_delivered := dl_delivered d @ [e], dl_retry := R_loop, dl_queue := q\<rparr>"] "2.prems" w True d2(2)
      by (simp add: driven_Cons_eq dstep_simps)
  next
    case False
    then have "done1 = []" "s' = s1" "q' = e # q" using "2.prems"(1) w by auto
    then show ?thesis using "2.prems"(2,3) w False by (simp add: driven_Cons_eq driven_Nil_eq dstep_simps)
  qed
qed

lemma cycle_driven:
  assumes "at_rest q d" "q \<noteq> []" "sink_cycle w tpnow (s, q) = (s', q')"
  shows "\<exists>n emptied d'. driven w s d (cycle_actions n emptied tpnow (q' = [])) s' d' \<and> at_rest q' d' \<and>
    dl_enqueued d' = dl_enqueued d"
proof -
  obtain done1 s1 q1 where w: "write_loop w s q = (done1, s1, q1)" by (metis prod.exhaust)
  have q': "s' = s1" "q' = fst (expire_loop tpnow q1 0)"
    using assms(3) w by (simp_all add: sink_cycle_def)
  let ?d1 = "d\<lparr>dl_retry := R_loop\<rparr>"
  let ?d2 = "d\<lparr>dl_retry := R_expire, dl_queue := q1, dl_delivered := dl_delivered d @ done1\<rparr>"
  let ?d3 = "?d2\<lparr>dl_retry := if q' = [] then R_done else R_sleep, dl_queue := q'\<rparr>"
  let ?ws = "concat (replicate (length done1) [A_retry_write True, A_pop]) @
      [if q1 = [] then A_retry_empty else A_retry_write False]"
  have rest: "dl_retry d = R_sleep" "dl_queue d = q" using assms(1,2) by (simp_all add: at_rest_def)
  have "driven w s ?d1 ?ws s1 ?d2"
    using write_loop_driven [OF w, of ?d1] rest by simp
  moreover have "driven w s1 ?d2 [A_expire tpnow, if q' = [] then A_stop else A_again] s' ?d3"
    using q' by (simp add: driven_Cons_eq driven_Nil_eq dstep_simps)
  ultimately have "driven w s ?d1 (?ws @ [A_expire tpnow, if q' = [] then A_stop else A_again]) s' ?d3"
    by (rule driven_append)
  then have "driven w s d (A_wake # ?ws @ [A_expire tpnow, if q' = [] then A_stop else A_again]) s' ?d3"
    using rest by (auto intro!: driven_Cons simp: dstep_simps)
  then have "driven w s d (cycle_actions (length done1) (q1 = []) tpnow (q' = [])) s' ?d3"
    by (simp add: cycle_actions_def)
  moreover have "at_rest q' ?d3" using assms(1) by (simp add: at_rest_def)
  ultimately show ?thesis by fastforce
qed

subsection \<open>Histories of the log thread\<close>

text \<open>
  What happens between two rounds of the main loop and inside one: the log thread logs an
  event (with the operating system's answers to its requests for threads), or the retry thread
  of the sink at an address runs a cycle.
\<close>

datatype lt_op =
    Op_log "log_event \<Rightarrow> nat \<Rightarrow> (string \<times> string) option" log_event
  | Op_cycle nat time_point

fun lt_run_op ::
  "(time_point \<Rightarrow> string option) \<Rightarrow> 's stream_class \<Rightarrow> lt_op \<Rightarrow> 's log_thread \<Rightarrow> 's log_thread throws" where
  "lt_run_op fmt c (Op_log spawn e) t = lt_log fmt c spawn e t"
| "lt_run_op fmt c (Op_cycle p tpnow) t = retry_thread_cycle c p tpnow t"

fun lt_run_ops ::
  "(time_point \<Rightarrow> string option) \<Rightarrow> 's stream_class \<Rightarrow> lt_op list \<Rightarrow> 's log_thread \<Rightarrow> 's log_thread throws" where
  "lt_run_ops fmt c [] t = Inr t"
| "lt_run_ops fmt c (x # xs) t = bind_exn (lt_run_op fmt c x t) (lt_run_ops fmt c xs)"

text \<open>The events a history logs, and whether it only asks for what the model answers for.\<close>

definition logged :: "(time_point \<Rightarrow> string option) \<Rightarrow> lt_op list \<Rightarrow> log_event list" where
  "logged fmt xs = concat (map (\<lambda>x. case x of Op_log _ e \<Rightarrow> [stamp fmt e] | Op_cycle _ _ \<Rightarrow> []) xs)"

text \<open>
  The retry map between two operations, before any shutdown: its entries are thread objects of
  registered sinks, and a thread with events to write has not returned.
\<close>

definition threads_live :: "'s log_thread \<Rightarrow> bool" where
  "threads_live t \<longleftrightarrow> (\<forall>p x. map_find p (lt_retry_map t) = Some x \<longrightarrow>
     p \<in> set (map snd (lt_streams t)) \<and> (\<exists>r. x = Some r \<and> (rt_queue r \<noteq> [] \<longrightarrow> rt_running r)))"

lemma threads_live_empty: "lt_retry_map t = [] \<Longrightarrow> threads_live t"
  by (simp add: threads_live_def)

lemma threads_live_map:
  assumes "threads_live t" "map_find p (lt_retry_map t) = Some x"
  obtains r where "x = Some r" "rt_queue r \<noteq> [] \<Longrightarrow> rt_running r" "p \<in> set (map snd (lt_streams t))"
  using assms unfolding threads_live_def by blast

text \<open>Both invariants of the retry map, and the sinks, for the operations below.\<close>

definition threads_ok :: "'s log_thread \<Rightarrow> (string \<times> nat) list \<Rightarrow> bool" where
  "threads_ok t xs \<longleftrightarrow> map_wf (lt_retry_map t) \<and> threads_live t \<and> lt_streams t = xs"

lemma threads_ok_erase: "threads_ok t xs \<Longrightarrow> threads_ok (t\<lparr>lt_retry_map := map_erase p (lt_retry_map t)\<rparr>) xs"
  by (auto simp: threads_ok_def threads_live_def cmap.find_erase intro: map_wf_intros split: if_splits)

lemma write_direct_live:
  "write_direct c spawn e p t = Inr t' \<Longrightarrow> threads_ok t xs \<Longrightarrow> p \<in> set (map snd xs) \<Longrightarrow> threads_ok t' xs"
  by (auto simp: write_direct_def threads_ok_def threads_live_def cmap.find_emplace rt_enqueue_def
      new_retry_thread_def Let_def intro: map_wf_intros split: option.splits prod.splits if_splits) force

lemma log_stream_live:
  assumes "log_stream c spawn e p t = Inr t'" "threads_ok t xs" "p \<in> set (map snd xs)"
  shows "threads_ok t' xs"
proof (cases "\<exists>r. map_find p (lt_retry_map t) = Some (Some r) \<and> rt_active r")
  case True
  then obtain r where r: "map_find p (lt_retry_map t) = Some (Some r)" "rt_active r" by blast
  then have "rt_running r" using assms(2) by (auto simp: threads_ok_def threads_live_def rt_active_def)
  then show ?thesis
    using assms r
    by (auto simp: log_stream_def threads_ok_def threads_live_def cmap.find_assign rt_enqueue_def
        intro: map_wf_intros split: if_splits)
next
  case False
  then have "write_direct c spawn e p t = Inr t' \<or>
      write_direct c spawn e p (t\<lparr>lt_retry_map := map_erase p (lt_retry_map t)\<rparr>) = Inr t'"
    using assms(1) by (auto simp: log_stream_def split: option.splits if_splits)
  then show ?thesis
    using write_direct_live [OF _ _ assms(3)] threads_ok_erase assms(2) by blast
qed

lemma log_streams_live:
  "log_streams c spawn e ys t = Inr t' \<Longrightarrow> threads_ok t xs \<Longrightarrow> set ys \<subseteq> set xs \<Longrightarrow> threads_ok t' xs"
proof (induction c spawn e ys t rule: log_streams.induct)
  case (2 c spawn e name p ys t)
  then obtain t1 where t1: "log_stream c spawn e p t = Inr t1" "log_streams c spawn e ys t1 = Inr t'" by auto
  have "p \<in> set (map snd xs)" using "2.prems"(3) by force
  then show ?case
    using "2.IH" [OF t1] log_stream_live [OF t1(1) "2.prems"(2)] "2.prems"(3) by simp
qed simp

lemma lt_log_live: "lt_log fmt c spawn e t = Inr t' \<Longrightarrow> lt_wf t \<Longrightarrow> threads_live t \<Longrightarrow> threads_live t'"
  using log_streams_live [of c spawn _ "lt_streams t" t t' "lt_streams t"]
  by (auto simp: lt_log_def lt_wf_def threads_ok_def split: option.splits)

lemma sink_cycle_Nil [simp]: "sink_cycle w tpnow (s, []) = (s, [])"
  by (simp add: sink_cycle_def)

lemma rt_run_one:
  assumes "sink_cycle (os_write (vt_do_write c)) tpnow (run_stream r, rt_queue (run_thread r)) = (s', q')"
  shows "run_stream (rt_run c [([], tpnow)] r) = s'" "rt_queue (run_thread (rt_run c [([], tpnow)] r)) = q'"
    and "rt_running (run_thread (rt_run c [([], tpnow)] r)) \<longleftrightarrow> q' \<noteq> [] \<and> rt_running (run_thread r)"
proof -
  obtain d rest s1 where cycle:
    "write_loop (os_write (vt_do_write c)) (run_stream r) (rt_queue (run_thread r)) = (d, s1, rest)"
    "run_stream (retry_cycle c tpnow r) = s1"
    "run_thread (retry_cycle c tpnow r) = (run_thread r)\<lparr>rt_queue := filter (\<lambda>i. \<not> expired tpnow i) rest\<rparr>"
    by (rule retry_cycle_split [of c r tpnow])
  moreover from this assms have "s' = s1" "q' = filter (\<lambda>i. \<not> expired tpnow i) rest"
    by (simp_all add: sink_cycle_def expire_loop_filter)
  ultimately show "run_stream (rt_run c [([], tpnow)] r) = s'" "rt_queue (run_thread (rt_run c [([], tpnow)] r)) = q'"
    "rt_running (run_thread (rt_run c [([], tpnow)] r)) \<longleftrightarrow> q' \<noteq> [] \<and> rt_running (run_thread r)"
    by (simp_all add: rt_active_def Let_def)
qed

lemma retry_cycle_view:
  assumes "lt_wf t" "threads_live t" "p \<in> set (map snd (lt_streams t))"
  shows "\<exists>t'. retry_thread_cycle c p tpnow t = Inr t' \<and> lt_wf t' \<and> threads_live t' \<and> lt_streams t' = lt_streams t \<and>
    (\<forall>q. sink_view t' q = (if q = p then map_option (sink_cycle (os_write (vt_do_write c)) tpnow) (sink_view t q)
       else sink_view t q))"
proof (cases "\<exists>r. map_find p (lt_retry_map t) = Some (Some r) \<and> rt_running r")
  case False
  then have "retry_thread_cycle c p tpnow t = Inr t"
    by (auto simp: retry_thread_cycle_def split: option.splits)
  moreover have "retry_queue t p = []"
    using False assms(2) by (auto simp: retry_queue_def threads_live_def split: option.splits)
  ultimately show ?thesis using assms(1,2) by (cases "lt_heap t p") (auto simp: sink_view_def)
next
  case True
  then obtain r where r: "map_find p (lt_retry_map t) = Some (Some r)" "rt_running r" by blast
  obtain s where s: "lt_heap t p = Some s" using assms(1,3) by (auto simp: lt_wf_def)
  obtain s' q' where cycle: "sink_cycle (os_write (vt_do_write c)) tpnow (s, rt_queue r) = (s', q')" by fastforce
  define run1 where "run1 = rt_run c [([], tpnow)] \<lparr>run_stream = s, run_thread = r, run_done = [],
    run_cout = lt_cout t, run_cerr = lt_cerr t\<rparr>"
  have run1: "run_stream run1 = s'" "rt_queue (run_thread run1) = q'" "rt_running (run_thread run1) \<longleftrightarrow> q' \<noteq> []"
    using rt_run_one [of c tpnow "\<lparr>run_stream = s, run_thread = r, run_done = [], run_cout = lt_cout t,
      run_cerr = lt_cerr t\<rparr>" s' q'] cycle r(2) by (simp_all add: run1_def del: rt_run.simps)
  let ?t = "t\<lparr>lt_heap := (lt_heap t)(p \<mapsto> s'), lt_retry_map := map_assign p (Some (run_thread run1)) (lt_retry_map t),
    lt_cout := run_cout run1, lt_cerr := run_cerr run1\<rparr>"
  have "retry_thread_cycle c p tpnow t = Inr ?t"
    using r s run1(1) by (simp add: retry_thread_cycle_def run1_def [symmetric] Let_def del: rt_run.simps)
  moreover have "lt_wf ?t"
    using assms(1) by (auto simp: lt_wf_def intro: map_wf_intros)
  moreover have "threads_live ?t"
    using assms(2) r run1 by (auto simp: threads_live_def cmap.find_assign split: if_splits)
  moreover have "sink_view ?t q = (if q = p then map_option (sink_cycle (os_write (vt_do_write c)) tpnow) (sink_view t q)
       else sink_view t q)" for q
    using r s run1(2) cycle by (auto simp: sink_view_def retry_queue_def cmap.find_assign)
  ultimately show ?thesis by fastforce
qed

text \<open>
  The actions a history may use: thread starts fail only where the system refuses them, and
  expiry uses the clock of the cycles.
\<close>

definition allowed :: "lt_op list \<Rightarrow> action \<Rightarrow> bool" where
  "allowed xs a = (case a of
      A_spawn_failed \<Rightarrow> \<exists>spawn e. Op_log spawn e \<in> set xs \<and> (\<exists>e' p. spawn e' p \<noteq> None)
    | A_expire tpnow \<Rightarrow> \<exists>p. Op_cycle p tpnow \<in> set xs
    | _ \<Rightarrow> True)"

lemma allowed_simps [simp]:
  "allowed xs (A_write ok)" "allowed xs (A_retry_write ok)" "allowed xs (A_enqueue e)" "allowed xs A_swap"
  "allowed xs A_check" "allowed xs A_join" "allowed xs A_put" "allowed xs A_first" "allowed xs A_wake"
  "allowed xs A_retry_empty" "allowed xs A_pop" "allowed xs A_stop" "allowed xs A_again"
  by (simp_all add: allowed_def)

lemma allowed_mono: "allowed xs a \<Longrightarrow> set xs \<subseteq> set ys \<Longrightarrow> allowed ys a"
  by (cases a) (simp_all add: allowed_def, blast+)

subsection \<open>One sink's part of a history\<close>

fun sink_op ::
  "(time_point \<Rightarrow> string option) \<Rightarrow> ('t \<Rightarrow> log_event \<Rightarrow> bool \<times> 't) \<Rightarrow> nat \<Rightarrow> lt_op \<Rightarrow>
     't \<times> log_event list \<Rightarrow> 't \<times> log_event list" where
  "sink_op fmt w p (Op_log spawn e) = sink_log w (spawn (stamp fmt e) p = None) (stamp fmt e)"
| "sink_op fmt w p (Op_cycle q tpnow) = (if p = q then sink_cycle w tpnow else id)"

lemma sink_op_driven:
  assumes "at_rest q d" "sink_op fmt w p x (s, q) = (s', q')"
  shows "\<exists>as d'. driven w s d as s' d' \<and> at_rest q' d' \<and> dl_enqueued d' = dl_enqueued d @ logged fmt [x] \<and>
    (\<forall>a \<in> set as. allowed [x] a)"
proof (cases x)
  case (Op_log spawn e)
  let ?can = "spawn (stamp fmt e) p = None"
  have "sink_log w ?can (stamp fmt e) (s, q) = (s', q')" using assms(2) Op_log by simp
  moreover have "\<forall>a \<in> set (log_actions (fst (w s (stamp fmt e))) ?can (stamp fmt e) d). allowed [x] a"
    by (auto simp: log_actions_def Op_log allowed_def)
  moreover have "logged fmt [x] = [stamp fmt e]" by (simp add: logged_def Op_log)
  ultimately show ?thesis using log_driven [OF assms(1)] by metis
next
  case (Op_cycle q1 tpnow)
  show ?thesis
  proof (cases "p = q1 \<and> q \<noteq> []")
    case True
    then have "q \<noteq> []" "sink_cycle w tpnow (s, q) = (s', q')" using assms(2) Op_cycle by simp_all
    from cycle_driven [OF assms(1) this] obtain n emptied d' where
      "driven w s d (cycle_actions n emptied tpnow (q' = [])) s' d'" "at_rest q' d'" "dl_enqueued d' = dl_enqueued d"
      by blast
    moreover have "\<forall>a \<in> set (cycle_actions n emptied tpnow (q' = [])). allowed [x] a"
      by (auto simp: cycle_actions_def Op_cycle allowed_def)
    ultimately show ?thesis by (auto simp: logged_def Op_cycle)
  next
    case False
    then have "s' = s" "q' = q" using assms(2) Op_cycle by (auto split: if_splits)
    then show ?thesis
      using assms(1) driven_Nil [of w s d] by (auto simp: logged_def Op_cycle intro!: exI [of _ "[]"])
  qed
qed

lemma logged_Cons: "logged fmt (x # xs) = logged fmt [x] @ logged fmt xs"
  by (simp add: logged_def)

lemma sink_ops_driven:
  assumes "at_rest q d" "fold (sink_op fmt w p) xs (s, q) = (s', q')"
  shows "\<exists>as d'. driven w s d as s' d' \<and> at_rest q' d' \<and> dl_enqueued d' = dl_enqueued d @ logged fmt xs \<and>
    (\<forall>a \<in> set as. allowed xs a)"
  using assms
proof (induction xs arbitrary: s q d)
  case Nil
  then show ?case using driven_Nil [of w s d] by (auto simp: logged_def intro!: exI [of _ "[]"])
next
  case (Cons x xs)
  obtain s1 q1 where one: "sink_op fmt w p x (s, q) = (s1, q1)" by fastforce
  obtain as1 d1 where d1: "driven w s d as1 s1 d1" "at_rest q1 d1" "dl_enqueued d1 = dl_enqueued d @ logged fmt [x]"
    "\<forall>a \<in> set as1. allowed [x] a"
    using sink_op_driven [OF Cons.prems(1) one] by blast
  obtain as2 d' where d': "driven w s1 d1 as2 s' d'" "at_rest q' d'" "dl_enqueued d' = dl_enqueued d1 @ logged fmt xs"
    "\<forall>a \<in> set as2. allowed xs a"
    using Cons.IH [OF d1(2), of s1] Cons.prems(2) one by auto
  have "\<forall>a \<in> set (as1 @ as2). allowed (x # xs) a"
    using d1(4) d'(4) allowed_mono [of "[x]" _ "x # xs"] allowed_mono [of xs _ "x # xs"] by auto
  moreover have "dl_enqueued d' = dl_enqueued d @ logged fmt (x # xs)"
    using d1(3) d'(3) logged_Cons [of fmt x xs] by simp
  ultimately show ?case using driven_append [OF d1(1) d'(1)] d'(2) by blast
qed

text \<open>The cycles of a history are those of registered sinks, and all its times can be formatted.\<close>

definition history_ok :: "(time_point \<Rightarrow> string option) \<Rightarrow> 's log_thread \<Rightarrow> lt_op list \<Rightarrow> bool" where
  "history_ok fmt t xs \<longleftrightarrow> (\<forall>x \<in> set xs. case x of
      Op_log spawn e \<Rightarrow> fmt (le_time e) \<noteq> None
    | Op_cycle q tpnow \<Rightarrow> q \<in> set (map snd (lt_streams t)))"

lemma lt_run_op_sinks:
  assumes "lt_wf t" "threads_live t" "history_ok fmt t [x]"
  shows "\<exists>t'. lt_run_op fmt c x t = Inr t' \<and> lt_wf t' \<and> threads_live t' \<and> lt_streams t' = lt_streams t \<and>
    (\<forall>p \<in> set (map snd (lt_streams t)).
       sink_view t' p = map_option (sink_op fmt (os_write (vt_do_write c)) p x) (sink_view t p))"
proof (cases x)
  case (Op_log spawn e)
  then obtain ts where ts: "fmt (le_time e) = Some ts" using assms(3) by (auto simp: history_ok_def)
  then have stamp: "stamp fmt e = e\<lparr>le_time_string := ts\<rparr>" by (simp add: stamp_def)
  from lt_log_view [where t = t and fmt = fmt and e = e and ts = ts and spawn = spawn and c = c, OF assms(1) ts]
  obtain t' where t': "lt_log fmt c spawn e t = Inr t'" "lt_wf t'" "lt_streams t' = lt_streams t"
    "\<forall>p. sink_view t' p = (if p \<in> set (map snd (lt_streams t))
       then map_option (sink_log (os_write (vt_do_write c)) (spawn (stamp fmt e) p = None) (stamp fmt e)) (sink_view t p)
       else sink_view t p)"
    unfolding stamp by blast
  then show ?thesis
    using lt_log_live [OF t'(1) assms(1,2)] Op_log by simp
next
  case (Op_cycle q tpnow)
  then have "q \<in> set (map snd (lt_streams t))" using assms(3) by (simp add: history_ok_def)
  from retry_cycle_view [OF assms(1,2) this, of c tpnow] show ?thesis
    using Op_cycle by (auto simp: option.map_ident id_def)
qed

lemma lt_run_ops_sinks:
  assumes "lt_wf t" "threads_live t" "history_ok fmt t xs"
  shows "\<exists>t'. lt_run_ops fmt c xs t = Inr t' \<and> lt_wf t' \<and> threads_live t' \<and> lt_streams t' = lt_streams t \<and>
    (\<forall>p \<in> set (map snd (lt_streams t)).
       sink_view t' p = map_option (fold (sink_op fmt (os_write (vt_do_write c)) p) xs) (sink_view t p))"
  using assms
proof (induction xs arbitrary: t)
  case Nil
  then show ?case by (simp add: id_def option.map_ident)
next
  case (Cons x xs)
  have "history_ok fmt t [x]" using Cons.prems(3) by (simp add: history_ok_def)
  from lt_run_op_sinks [OF Cons.prems(1,2) this, of c] obtain t1 where
    t1: "lt_run_op fmt c x t = Inr t1" "lt_wf t1" "threads_live t1" "lt_streams t1 = lt_streams t"
      "\<forall>p \<in> set (map snd (lt_streams t)).
         sink_view t1 p = map_option (sink_op fmt (os_write (vt_do_write c)) p x) (sink_view t p)"
    by blast
  have "history_ok fmt t1 xs" using Cons.prems(3) unfolding history_ok_def t1(4) by simp
  from Cons.IH [OF t1(2,3) this] t1 show ?case by (auto simp: option.map_comp comp_def)
qed

lemma lt_run_ops_view:
  assumes "lt_wf t" "threads_live t" "p \<in> set (map snd (lt_streams t))" "lt_heap t p = Some s" "retry_queue t p = []"
    and "history_ok fmt t xs"
  shows "\<exists>t' as s' d. lt_run_ops fmt c xs t = Inr t' \<and> lt_heap t' p = Some s' \<and>
    driven (os_write (vt_do_write c)) s delivery_start as s' d \<and> at_rest (retry_queue t' p) d \<and>
    dl_enqueued d = logged fmt xs \<and> (\<forall>a \<in> set as. allowed xs a)"
proof -
  obtain s' q' where ops: "fold (sink_op fmt (os_write (vt_do_write c)) p) xs (s, []) = (s', q')" by fastforce
  obtain t' where t': "lt_run_ops fmt c xs t = Inr t'" "sink_view t' p = Some (s', q')"
    using lt_run_ops_sinks [OF assms(1,2,6), of c] assms(3-5) ops by (auto simp: sink_view_def)
  then have "lt_heap t' p = Some s'" "retry_queue t' p = q'" by (auto simp: sink_view_def)
  then show ?thesis
    using t'(1) sink_ops_driven [OF at_rest_start ops] by (auto simp: delivery_start_def)
qed

text \<open>
  C5. The log thread's own runs are part of the interleaved ones: any history of logged events
  and retry cycles, on sinks of any class, is for each registered sink with nothing waiting at
  the start a run of the step relation, in which the sink's answers are those of its
  \<^verbatim>\<open>write\<close>; the run ends with the sink in the state the history leaves it in and the events
  of its retry queue as the only ones on their way.
\<close>

theorem log_history_refines_delivery:
  assumes "lt_wf t" "threads_live t" "p \<in> set (map snd (lt_streams t))" "lt_heap t p = Some s" "retry_queue t p = []"
    and "history_ok fmt t xs"
  shows "\<exists>t' s' as d. lt_run_ops fmt c xs t = Inr t' \<and> lt_heap t' p = Some s' \<and>
    driven (os_write (vt_do_write c)) s delivery_start as s' d \<and> run_from delivery_start as d \<and>
    dl_queue d = retry_queue t' p \<and> in_flight d = retry_queue t' p \<and> dl_enqueued d = logged fmt xs"
proof -
  obtain t' as s' d where run: "lt_run_ops fmt c xs t = Inr t'" "lt_heap t' p = Some s'"
    "driven (os_write (vt_do_write c)) s delivery_start as s' d" "at_rest (retry_queue t' p) d"
    "dl_enqueued d = logged fmt xs"
    using lt_run_ops_view [OF assms] by blast
  moreover have "dl_queue d = retry_queue t' p" using run(4) by (simp add: at_rest_def)
  ultimately show ?thesis
    using driven_run [OF run(3)] at_rest_in_flight [OF run(4)] by blast
qed

text \<open>A full console refuses an event, a second one queues behind it, and a cycle expires the first.\<close>

definition sample_history :: "lt_op list" where
  "sample_history = [Op_log no_spawn_error (sample_event Info ''a'' 0),
     Op_log no_spawn_error (sample_event Severe ''b'' 1), Op_cycle 2 (3602 * ns_per_s)]"

lemma sample_history_ok: "history_ok fmt_now sample_log_thread sample_history"
  by (simp add: history_ok_def sample_history_def fmt_now_def sample_log_thread_def)

lemma sample_log_thread_idle:
  "threads_live sample_log_thread" "retry_queue sample_log_thread p = []"
  by (simp_all add: threads_live_def sample_log_thread_def new_log_thread_def retry_queue_def)

theorem log_history_refines_delivery_witness:
  "\<exists>t' s' as d. lt_run_ops fmt_now stdout_class sample_history sample_log_thread = Inr t' \<and>
     lt_heap t' 2 = Some s' \<and> run_from delivery_start as d \<and> dl_queue d = retry_queue t' 2 \<and>
     dl_enqueued d = [(sample_event Info ''a'' 0)\<lparr>le_time_string := ''now''\<rparr>,
       (sample_event Severe ''b'' 1)\<lparr>le_time_string := ''now''\<rparr>]"
proof -
  have "2 \<in> set (map snd (lt_streams sample_log_thread))" "lt_heap sample_log_thread 2 = Some full_console"
    by (simp_all add: sample_log_thread_def)
  moreover have "logged fmt_now sample_history = [(sample_event Info ''a'' 0)\<lparr>le_time_string := ''now''\<rparr>,
      (sample_event Severe ''b'' 1)\<lparr>le_time_string := ''now''\<rparr>]"
    by (simp add: logged_def sample_history_def stamp_def fmt_now_def)
  ultimately show ?thesis
    using log_history_refines_delivery [OF sample_log_thread_wf sample_log_thread_idle(1) _ _
        sample_log_thread_idle(2) sample_history_ok, of 2 full_console stdout_class] by auto
qed

subsection \<open>What interleavings guarantee, for the log thread\<close>

lemma run_enqueued:
  "run_from d as d' \<Longrightarrow>
     set (dl_enqueued d) \<subseteq> set (dl_enqueued d') \<and> (\<forall>e. A_enqueue e \<in> set as \<longrightarrow> e \<in> set (dl_enqueued d'))"
proof (induction rule: run_from.induct)
  case (run_Cons d a d1 as d')
  then show ?case by (cases rule: dstep.cases) auto
qed simp

text \<open>
  C6. As long as every retry thread can be started and all times are within the range of the
  clock, the log thread and its retry threads lose no severe event, whatever the sinks answer:
  after any history the severe events each sink has accepted and those in its retry queue are, in
  order, all severe events that were logged; and of all events, those accepted and those waiting
  are an in-order part of what was logged.
\<close>

theorem log_history_keeps_severe:
  assumes "lt_wf t" "threads_live t" "p \<in> set (map snd (lt_streams t))" "lt_heap t p = Some s" "retry_queue t p = []"
    and "history_ok fmt t xs" "\<forall>spawn e. Op_log spawn e \<in> set xs \<longrightarrow> time_ok (le_time e) \<and> (\<forall>e' q. spawn e' q = None)"
    and "\<forall>q tpnow. Op_cycle q tpnow \<in> set xs \<longrightarrow> time_ok tpnow"
  shows "\<exists>t' s' as d. lt_run_ops fmt c xs t = Inr t' \<and> lt_heap t' p = Some s' \<and>
    driven (os_write (vt_do_write c)) s delivery_start as s' d \<and>
    subseq (dl_delivered d @ retry_queue t' p) (logged fmt xs) \<and>
    filter (\<lambda>e. le_level e = Severe) (dl_delivered d @ retry_queue t' p) =
      filter (\<lambda>e. le_level e = Severe) (logged fmt xs)"
proof -
  obtain t' as s' d where run: "lt_run_ops fmt c xs t = Inr t'" "lt_heap t' p = Some s'"
    "driven (os_write (vt_do_write c)) s delivery_start as s' d" "at_rest (retry_queue t' p) d"
    "dl_enqueued d = logged fmt xs" "\<forall>a \<in> set as. allowed xs a"
    using lt_run_ops_view [OF assms(1-6)] by blast
  note runs = driven_run [OF run(3)]
  have times: "\<forall>e \<in> set (logged fmt xs). time_ok (le_time e)"
    using assms(7) by (fastforce simp: logged_def stamp_def split: lt_op.splits option.splits)
  have "A_spawn_failed \<notin> set as" using run(6) assms(7) by (force simp: allowed_def)
  moreover have "\<forall>tpnow. A_expire tpnow \<in> set as \<longrightarrow> time_ok tpnow"
    using run(6) assms(8) by (force simp: allowed_def)
  moreover have "\<forall>e. A_enqueue e \<in> set as \<longrightarrow> time_ok (le_time e)"
    using run_enqueued [OF runs] times run(5) by auto
  ultimately have "filter (\<lambda>e. le_level e = Severe) (dl_delivered d @ in_flight d) =
      filter (\<lambda>e. le_level e = Severe) (dl_enqueued d)"
    by (intro run_severe [OF runs delivery_inv_start]) (simp_all add: delivery_start_def in_flight_def)
  moreover have "subseq (dl_delivered d @ in_flight d) (dl_enqueued d)"
    by (rule run_subseq [OF runs delivery_inv_start]) (simp add: delivery_start_def in_flight_def)
  ultimately show ?thesis using run(1,2,3,5) at_rest_in_flight [OF run(4)] by auto
qed

theorem log_history_keeps_severe_witness:
  "\<exists>t' s' as d. lt_run_ops fmt_now stdout_class sample_history sample_log_thread = Inr t' \<and>
     driven (os_write (vt_do_write stdout_class)) full_console delivery_start as s' d \<and>
     filter (\<lambda>e. le_level e = Severe) (dl_delivered d @ retry_queue t' 2) =
       [(sample_event Severe ''b'' 1)\<lparr>le_time_string := ''now''\<rparr>]"
proof -
  have sink: "2 \<in> set (map snd (lt_streams sample_log_thread))" "lt_heap sample_log_thread 2 = Some full_console"
    by (simp_all add: sample_log_thread_def)
  have severe: "filter (\<lambda>e. le_level e = Severe) (logged fmt_now sample_history) =
      [(sample_event Severe ''b'' 1)\<lparr>le_time_string := ''now''\<rparr>]"
    by (simp add: logged_def sample_history_def stamp_def fmt_now_def sample_event_def)
  have times: "\<forall>spawn e. Op_log spawn e \<in> set sample_history \<longrightarrow>
      time_ok (le_time e) \<and> (\<forall>e' q. spawn e' q = None)"
    "\<forall>q tpnow. Op_cycle q tpnow \<in> set sample_history \<longrightarrow> time_ok tpnow"
    by (auto simp: sample_history_def sample_event_def time_ok_def no_spawn_error_def ns_per_s_def)
  from log_history_keeps_severe [OF sample_log_thread_wf sample_log_thread_idle(1) sink
      sample_log_thread_idle(2) sample_history_ok times, of stdout_class]
  show ?thesis unfolding severe by blast
qed

end
