(* ===== verification/Stomp_Delivery.thy ===== *)
theory Stomp_Delivery
  imports Stomp_Stream Delivery_Refinement
begin

section \<open>The message server behind the log thread (output_stream_stomp.cpp, retry_thread.cpp)\<close>

text \<open>
  The STOMP sink as one of the classes of sinks the log thread drives. The environment of each
  call (what the network and the server do) is part of the sink's state here: one entry for
  every call of \<^verbatim>\<open>do_write\<close> to come. With it, delivery through a retry queue, the connection
  made meanwhile and the acknowledgements compose.
\<close>

subsection \<open>The class\<close>

text \<open>
  What a call meets: whether the connect thread has finished before it (and how), what its
  reader thread has received since the last call, and the call's own environment. After the
  list the server does not answer any more.
\<close>

record stomp_call =
  sc_finish :: "connect_env option"
  sc_incoming :: "read_event list"
  sc_write :: write_env

record stomp_sink =
  sk_stream :: stomp_stream
  sk_calls :: "stomp_call list"

definition silent_call :: stomp_call where
  "silent_call = \<lparr>sc_finish = None, sc_incoming = [],
     sc_write = \<lparr>we_meanwhile = None, we_write = -1, we_reads = []\<rparr>\<rparr>"

definition before_call :: "stomp_call \<Rightarrow> stomp_stream \<Rightarrow> stomp_stream" where
  "before_call call sp =
     (let sp1 = (case sc_finish call of
          Some env \<Rightarrow> if sp_connect_thread sp \<and> \<not> sp_connect_thread_done sp then connect_thread env sp else sp
        | None \<Rightarrow> sp)
      in if sc_incoming call = [] then sp1 else snd (reader_thread (sc_incoming call) sp1))"

text \<open>An exception cannot leave \<^verbatim>\<open>do_write\<close> (\<open>stomp_sink_write_safe\<close> below).\<close>

definition stomp_sink_write ::
  "(string \<times> string) list \<Rightarrow> stomp_sink \<Rightarrow> log_event \<Rightarrow> bool \<times> stomp_sink" where
  "stomp_sink_write order sk le =
     (let (call, calls) = (case sk_calls sk of [] \<Rightarrow> (silent_call, []) | c # cs \<Rightarrow> (c, cs));
          sp = before_call call (sk_stream sk)
      in case stomp_do_write order (sc_write call) le sp of
          Inl _ \<Rightarrow> (False, \<lparr>sk_stream = sp, sk_calls = calls\<rparr>)
        | Inr (ok, sp') \<Rightarrow> (ok, \<lparr>sk_stream = sp', sk_calls = calls\<rparr>))"

definition stomp_class :: "(string \<times> string) list \<Rightarrow> stomp_sink stream_class" where
  "stomp_class order = \<lparr>vt_name = stomp_name \<circ> sk_stream, vt_retry_time = stomp_retry_time \<circ> sk_stream,
     vt_do_write = stomp_sink_write order,
     vt_destroy = (\<lambda>sk. bind_exn (destroy_stomp_stream (sk_stream sk)) (\<lambda>sp. Inr (sk\<lparr>sk_stream := sp\<rparr>)))\<rparr>"

lemma before_call_steady: "steady (before_call call sp) = steady sp"
  by (simp add: before_call_def steady_connect steady_reader Let_def split: option.split)

lemma stomp_sink_write_safe:
  assumes "sp_connect_thread (sk_stream sk) = sp_connecting (sk_stream sk)"
    and "stomp_sink_write order sk le = (ok, sk')" "sk_calls sk = call # calls"
  shows "stomp_do_write order (sc_write call) le (before_call call (sk_stream sk)) = Inr (ok, sk_stream sk') \<and>
    sp_connect_thread (sk_stream sk') = sp_connecting (sk_stream sk')"
proof -
  have "sp_connect_thread (before_call call (sk_stream sk)) = sp_connecting (before_call call (sk_stream sk))"
    using before_call_steady [of call "sk_stream sk"] assms(1) by (simp add: steady_def)
  from stomp_do_write_threads [OF this, of order "sc_write call" le] show ?thesis
    using assms(2,3) by (auto simp: stomp_sink_write_def)
qed

subsection \<open>A server that accepts the connection\<close>

text \<open>The bytes of reads that all deliver something.\<close>

definition all_data :: "read_event list \<Rightarrow> bool" where
  "all_data es \<longleftrightarrow> list_all (\<lambda>ev. case ev of Read_data d \<Rightarrow> d \<noteq> [] | _ \<Rightarrow> False) es"

definition read_text :: "read_event list \<Rightarrow> string" where
  "read_text es = concat (map (\<lambda>ev. case ev of Read_data d \<Rightarrow> d | _ \<Rightarrow> []) es)"

lemma all_data_buffers:
  assumes "all_data es"
  obtains bufs where "es = map Read_data bufs" "[] \<notin> set bufs" "concat bufs = read_text es"
proof -
  have "\<exists>bufs. es = map Read_data bufs \<and> [] \<notin> set bufs \<and> concat bufs = read_text es"
    using assms
  proof (induction es)
    case (Cons ev es)
    then obtain bufs where "es = map Read_data bufs" "[] \<notin> set bufs" "concat bufs = read_text es"
      by (auto simp: all_data_def)
    moreover obtain d where "ev = Read_data d" "d \<noteq> []"
      using Cons.prems by (auto simp: all_data_def split: read_event.splits)
    ultimately show ?case by (intro exI [of _ "d # bufs"]) (simp add: read_text_def)
  qed (simp add: read_text_def)
  then show thesis using that by blast
qed

text \<open>Headers of a \<^verbatim>\<open>CONNECTED\<close> frame the code accepts: version 1.1, no or a well-formed heart-beat.\<close>

definition accepted_headers :: "(string \<times> string) list \<Rightarrow> nat \<Rightarrow> bool" where
  "accepted_headers hs n \<longleftrightarrow> map_find ''version'' (first_headers hs) = Some ''1.1'' \<and> int n \<le> long_max \<and>
     map_find ''heart-beat'' (first_headers hs) \<in> {None, Some (show_nat n @ '',0'')}"

definition accepts_connection ::
  "connect_env \<Rightarrow> stomp_stream \<Rightarrow> nat \<Rightarrow> (string \<times> string) list \<Rightarrow> string \<Rightarrow> nat \<Rightarrow> bool" where
  "accepts_connection env sp k hs body n \<longleftrightarrow>
     \<not> tcs_connected (sp_socket sp) \<and> \<not> tcs_use_socks (sp_socket sp) \<and> \<not> tcs_use_ssl (sp_socket sp) \<and>
     (case ce_resolve env (tcs_host (sp_socket sp)) (show_nat (unat (tcs_port (sp_socket sp)))) of
        Inl _ \<Rightarrow> False
      | Inr addresses \<Rightarrow> find address_ok addresses \<noteq> None \<and> (\<forall>a \<in> set addresses. ad_socket a \<ge> -1)) \<and>
     ce_write env = int (length (connect_frame (sp_URL sp))) + 1 \<and> all_data (ce_reads env) \<and>
     read_text (ce_reads env) = frame_stream [(k, ''CONNECTED'', hs, body)] \<and>
     frame_ok (''CONNECTED'', hs, body) \<and> accepted_headers hs n"

lemma parse_heartbeat_accepts:
  assumes "accepted_headers hs n"
  shows "\<exists>sp'. parse_heartbeat (frame_reply (cmd, hs, body)) sp = (True, sp') \<and> steady sp' = steady sp \<and>
    sp_socket sp' = sp_socket sp \<and> sp_reply_queue sp' = sp_reply_queue sp \<and> sp_receipt sp' = sp_receipt sp \<and>
    sp_partial_reply sp' = sp_partial_reply sp"
proof -
  have "\<not> is_digit 10 (CHR '','')" by (simp add: is_digit_def digit_value_def char_code_def)
  then have "CHR '','' \<notin> set (show_nat n)" using not_digit_in_show_nat by auto
  then have comma: "str_find_char (CHR '','') (show_nat n @ '',0'') 0 = Some (length (show_nat n))"
    by (simp add: str_find_char_0 find_pat_char_append)
  have digits: "\<forall>c \<in> set (show_nat n). is_digit 10 c" using show_nat_digits by blast
  have "int n \<le> long_max" using assms by (simp add: accepted_headers_def)
  then have "strtol 10 (show_nat n) = (int n, [])"
    using scan_int_digits [OF show_nat_nonempty digits, of "[]"] by (simp add: strtol_def long_min_def)
  then show ?thesis
    using assms comma
    by (auto simp: accepted_headers_def parse_heartbeat_def frame_reply_def stomp_note_def Let_def steady_def)
qed

lemma connect_thread_accepted:
  assumes "accepts_connection env sp k hs body n" "sp_reply_queue sp = []" "sp_partial_reply sp = []"
  shows "sp_connected (connect_thread env sp)" "sp_connect_thread_done (connect_thread env sp)"
    and "tcs_connected (sp_socket (connect_thread env sp))" "sp_reply_queue (connect_thread env sp) = []"
    and "sp_partial_reply (connect_thread env sp) = []" "sp_receipt (connect_thread env sp) = sp_receipt sp"
    and "tcs_sent (sp_socket (connect_thread env sp)) =
      tcs_sent (sp_socket sp) @ [to_bytes (connect_frame (sp_URL sp) @ [nul])]"
proof -
  let ?fs = "[(k, ''CONNECTED'', hs, body)]"
  obtain addresses where "ce_resolve env (tcs_host (sp_socket sp)) (show_nat (unat (tcs_port (sp_socket sp)))) = Inr addresses"
    "find address_ok addresses \<noteq> None" "\<forall>a \<in> set addresses. ad_socket a \<ge> -1"
    and plain: "\<not> tcs_connected (sp_socket sp)" "\<not> tcs_use_socks (sp_socket sp)" "\<not> tcs_use_ssl (sp_socket sp)"
    using assms(1) by (auto simp: accepts_connection_def split: sum.splits)
  then obtain sock where sock: "tcs_connect (ce_resolve env) (ce_socks env) (ce_ssl env) (sp_socket sp) = (Inr (), sock)"
    "tcs_connected sock" "tcs_sent sock = tcs_sent (sp_socket sp)"
    using tcs_connect_direct [OF plain] by blast
  let ?packet = "to_bytes (connect_frame (sp_URL sp) @ [nul])"
  define sock1 where "sock1 = sock\<lparr>tcs_sent := tcs_sent sock @ [?packet]\<rparr>"
  have sent: "tcs_write (ce_write env) ?packet sock = (Inr (), sock1)"
    using assms(1) sock(2) by (simp add: accepts_connection_def tcs_write_def to_bytes_def sock1_def)
  define sp1 where "sp1 = sp\<lparr>sp_socket := sock1\<rparr>"
  have conn: "tcs_connected (sp_socket sp1)" using sock(2) by (simp add: sp1_def sock1_def tcs_connected_def)
  have partial: "sp_partial_reply sp1 = []" using assms(3) by (simp add: sp1_def)
  have reads: "all_data (ce_reads env)" "read_text (ce_reads env) = frame_stream ?fs"
    using assms(1) by (simp_all add: accepts_connection_def)
  obtain bufs where bufs: "ce_reads env = map Read_data bufs" "[] \<notin> set bufs" "concat bufs = frame_stream ?fs"
    using all_data_buffers [OF reads(1)] unfolding reads(2) by blast
  have fed: "foldl reader_feed sp1 bufs = foldl reader_step sp1 (frame_stream ?fs)"
    using bufs(3) by (simp add: reader.feed_chunks reader.feed_steps)
  have "\<forall>(n, f) \<in> set ?fs. frame_ok f" using assms(1) by (simp add: accepts_connection_def)
  note frames = steps_frames [OF conn partial this]
  define sp2 where "sp2 = snd (reader_thread (ce_reads env) sp1)"
  have "tcs_connected (sp_socket (foldl reader_feed sp1 bufs))" unfolding fed using frames by blast
  from reader_thread_buffers [OF this bufs(2)] have "sp2 = foldl reader_step sp1 (frame_stream ?fs)"
    unfolding sp2_def bufs(1) fed by simp
  then have sp2: "sp_reply_queue sp2 = [frame_reply (''CONNECTED'', hs, body)]" "sp_partial_reply sp2 = []"
    "sp_socket sp2 = sock1" "sp_receipt sp2 = sp_receipt sp"
    using frames assms(2) by (simp_all add: sp1_def)
  have hs: "accepted_headers hs n" using assms(1) by (simp add: accepts_connection_def)
  then have version: "check_server_version (frame_reply (''CONNECTED'', hs, body)) sp3 = (True, sp3)" for sp3
    by (simp add: check_server_version_def frame_reply_def accepted_headers_def)
  obtain sp4 where sp4: "parse_heartbeat (frame_reply (''CONNECTED'', hs, body)) (sp2\<lparr>sp_reply_queue := []\<rparr>) = (True, sp4)"
    "sp_socket sp4 = sock1" "sp_reply_queue sp4 = []" "sp_receipt sp4 = sp_receipt sp" "sp_partial_reply sp4 = []"
    using parse_heartbeat_accepts [OF hs, of "''CONNECTED''" body "sp2\<lparr>sp_reply_queue := []\<rparr>"] sp2 by auto
  have "connect_thread env sp = connect_done (sp4\<lparr>sp_connected := True\<rparr>)"
    using sock(1) sent sp2(1) version sp4(1)
    by (simp add: connect_thread_def Let_def frame_reply_def flip: sp1_def sp2_def)
  then show "sp_connected (connect_thread env sp)" "sp_connect_thread_done (connect_thread env sp)"
    "tcs_connected (sp_socket (connect_thread env sp))" "sp_reply_queue (connect_thread env sp) = []"
    "sp_partial_reply (connect_thread env sp) = []" "sp_receipt (connect_thread env sp) = sp_receipt sp"
    "tcs_sent (sp_socket (connect_thread env sp)) =
      tcs_sent (sp_socket sp) @ [to_bytes (connect_frame (sp_URL sp) @ [nul])]"
    using sp4 conn sock(3) by (simp_all add: connect_done_def sp1_def sock1_def)
qed

subsection \<open>Acknowledged packets\<close>

text \<open>Connected, with nothing left over from earlier calls.\<close>

definition stomp_ready :: "stomp_stream \<Rightarrow> bool" where
  "stomp_ready sp \<longleftrightarrow> sp_connected sp \<and> tcs_connected (sp_socket sp) \<and> sp_reply_queue sp = [] \<and>
     sp_partial_reply sp = []"

text \<open>The packets of events sent one after the other, with the receipt numbers in turn.\<close>

fun packets :: "(string \<times> string) list \<Rightarrow> stomp_stream \<Rightarrow> log_event list \<Rightarrow> 8 word list list" where
  "packets order sp [] = []"
| "packets order sp (e # es) =
     to_bytes (send_packet order sp e) # packets order (sp\<lparr>sp_receipt := sp_receipt sp + 1\<rparr>) es"

text \<open>The server takes the packet and answers with its receipt, after some heartbeats.\<close>

definition ack :: "(string \<times> string) list \<Rightarrow> stomp_stream \<Rightarrow> log_event \<Rightarrow> stomp_call \<Rightarrow> bool" where
  "ack order sp e c \<longleftrightarrow> sc_incoming c = [] \<and>
     we_write (sc_write c) = int (length (send_packet order sp e)) \<and> all_data (we_reads (sc_write c)) \<and>
     (\<exists>k \<le> length (read_text (we_reads (sc_write c))).
        read_text (we_reads (sc_write c)) = receipt_stream k (sp_receipt sp + 1))"

fun acks :: "(string \<times> string) list \<Rightarrow> stomp_stream \<Rightarrow> log_event list \<Rightarrow> stomp_call list \<Rightarrow> bool" where
  "acks order sp [] cs \<longleftrightarrow> True"
| "acks order sp (e # es) [] \<longleftrightarrow> False"
| "acks order sp (e # es) (c # cs) \<longleftrightarrow> sc_finish c = None \<and> ack order sp e c \<and>
     acks order (sp\<lparr>sp_receipt := sp_receipt sp + 1\<rparr>) es cs"

lemma send_packet_cong:
  "steady sp' = steady sp \<Longrightarrow> sp_receipt sp' = sp_receipt sp \<Longrightarrow> send_packet order sp' e = send_packet order sp e"
  by (simp add: send_packet_def send_header_def send_body_def stomp_level_string_def steady_def Let_def)

lemma packets_cong:
  "steady sp' = steady sp \<Longrightarrow> sp_receipt sp' = sp_receipt sp \<Longrightarrow> packets order sp' es = packets order sp es"
proof (induction es arbitrary: sp sp')
  case (Cons e es)
  have "packets order (sp'\<lparr>sp_receipt := sp_receipt sp' + 1\<rparr>) es = packets order (sp\<lparr>sp_receipt := sp_receipt sp + 1\<rparr>) es"
    by (rule Cons.IH) (simp_all add: Cons.prems)
  then show ?case using send_packet_cong [OF Cons.prems] by (simp only: packets.simps)
qed simp

lemma ack_cong:
  "steady sp' = steady sp \<Longrightarrow> sp_receipt sp' = sp_receipt sp \<Longrightarrow> ack order sp' e c = ack order sp e c"
  unfolding ack_def using send_packet_cong [of sp' sp order e] by simp

lemma acks_cong:
  "steady sp' = steady sp \<Longrightarrow> sp_receipt sp' = sp_receipt sp \<Longrightarrow> acks order sp' es cs = acks order sp es cs"
proof (induction order sp es cs arbitrary: sp' rule: acks.induct)
  case (3 order sp e es c cs)
  have "acks order (sp'\<lparr>sp_receipt := sp_receipt sp' + 1\<rparr>) es cs = acks order (sp\<lparr>sp_receipt := sp_receipt sp + 1\<rparr>) es cs"
    by (rule "3.IH") (simp_all add: "3.prems")
  then show ?case using ack_cong [OF "3.prems"] by (simp only: acks.simps)
qed simp_all

text \<open>A list of events is one list of packets and answers after another.\<close>

lemma packets_append:
  "packets order sp (xs @ ys) =
     packets order sp xs @ packets order (sp\<lparr>sp_receipt := sp_receipt sp + of_nat (length xs)\<rparr>) ys"
  by (induction xs arbitrary: sp) (simp_all add: ac_simps)

lemma acks_append:
  "acks order sp (xs @ ys) cs \<longleftrightarrow> acks order sp xs cs \<and>
     acks order (sp\<lparr>sp_receipt := sp_receipt sp + of_nat (length xs)\<rparr>) ys (drop (length xs) cs)"
proof (induction xs arbitrary: sp cs)
  case (Cons x xs)
  then show ?case by (cases cs) (simp_all add: ac_simps)
qed simp

lemma stomp_write_ack:
  assumes "stomp_ready sp" "ack order sp e c"
  shows "\<exists>sp'. stomp_do_write order (sc_write c) e sp = Inr (True, sp') \<and> stomp_ready sp' \<and>
    steady sp' = steady sp \<and> sp_receipt sp' = sp_receipt sp + 1 \<and> stomp_notes sp' = stomp_notes sp \<and>
    tcs_sent (sp_socket sp') = tcs_sent (sp_socket sp) @ [to_bytes (send_packet order sp e)]"
proof -
  obtain k where env: "we_write (sc_write c) = int (length (send_packet order sp e))" "all_data (we_reads (sc_write c))"
    "read_text (we_reads (sc_write c)) = receipt_stream k (sp_receipt sp + 1)"
    using assms(2) unfolding ack_def by blast
  obtain bufs where bufs: "we_reads (sc_write c) = map Read_data bufs" "[] \<notin> set bufs"
    "concat bufs = receipt_stream k (sp_receipt sp + 1)"
    using all_data_buffers [OF env(2)] unfolding env(3) by blast
  have ready: "sp_connected sp" "tcs_connected (sp_socket sp)" "sp_reply_queue sp = []" "sp_partial_reply sp = []"
    using assms(1) by (simp_all add: stomp_ready_def)
  from stomp_do_write_acknowledged [OF ready env(1) bufs(1,3,2)] show ?thesis
    by (auto simp: stomp_ready_def)
qed

lemma before_call_none: "sc_finish c = None \<Longrightarrow> sc_incoming c = [] \<Longrightarrow> before_call c sp = sp"
  by (simp add: before_call_def)

text \<open>
  From \<open>s\<close> the sink has sent the events \<open>es\<close>, one call and one packet each, and is ready again;
  it has logged nothing of its own meanwhile.
\<close>

definition sends ::
  "(string \<times> string) list \<Rightarrow> log_event list \<Rightarrow> stomp_sink output_stream \<Rightarrow> stomp_sink output_stream \<Rightarrow> bool" where
  "sends order es s s' \<longleftrightarrow> os_min_level s' = os_min_level s \<and>
     sk_calls (os_derived s') = drop (length es) (sk_calls (os_derived s)) \<and>
     (let sp = sk_stream (os_derived s); sp' = sk_stream (os_derived s')
      in stomp_ready sp' \<and> steady sp' = steady sp \<and> sp_receipt sp' = sp_receipt sp + of_nat (length es) \<and>
         stomp_notes sp' = stomp_notes sp \<and>
         tcs_sent (sp_socket sp') = tcs_sent (sp_socket sp) @ packets order sp es)"

lemma sends_refl: "stomp_ready (sk_stream (os_derived s)) \<Longrightarrow> sends order [] s s"
  by (simp add: sends_def)

lemma sends_later:
  assumes "sends order xs s s1"
  shows "packets order (sk_stream (os_derived s1)) ys =
      packets order ((sk_stream (os_derived s))\<lparr>sp_receipt := sp_receipt (sk_stream (os_derived s)) + of_nat (length xs)\<rparr>) ys"
    and "acks order (sk_stream (os_derived s)) (xs @ ys) (sk_calls (os_derived s)) \<Longrightarrow>
      acks order (sk_stream (os_derived s1)) ys (sk_calls (os_derived s1))"
proof -
  let ?sp = "(sk_stream (os_derived s))\<lparr>sp_receipt := sp_receipt (sk_stream (os_derived s)) + of_nat (length xs)\<rparr>"
  have same: "steady (sk_stream (os_derived s1)) = steady ?sp" "sp_receipt (sk_stream (os_derived s1)) = sp_receipt ?sp"
    using assms by (simp_all add: sends_def Let_def)
  show "packets order (sk_stream (os_derived s1)) ys = packets order ?sp ys" by (rule packets_cong [OF same])
  show "acks order (sk_stream (os_derived s1)) ys (sk_calls (os_derived s1))"
    if "acks order (sk_stream (os_derived s)) (xs @ ys) (sk_calls (os_derived s))"
    using that assms acks_cong [OF same] by (simp add: acks_append sends_def Let_def)
qed

lemma sends_trans: "sends order xs s s1 \<Longrightarrow> sends order ys s1 s2 \<Longrightarrow> sends order (xs @ ys) s s2"
  using sends_later(1) [of order xs s s1 ys] by (simp add: sends_def Let_def packets_append ac_simps)

abbreviation reaching :: "log_level \<Rightarrow> log_event list \<Rightarrow> log_event list" where
  "reaching lvl es \<equiv> filter (\<lambda>e. lvl \<le> le_level e) es"

text \<open>One write on a ready sink whose server answers.\<close>

lemma write_sends:
  assumes "stomp_ready (sk_stream (os_derived s))"
    and "acks order (sk_stream (os_derived s)) (reaching (os_min_level s) [e]) (sk_calls (os_derived s))"
  shows "\<exists>s'. os_write (stomp_sink_write order) s e = (True, s') \<and> sends order (reaching (os_min_level s) [e]) s s'"
proof (cases "os_min_level s \<le> le_level e")
  case True
  let ?sk = "os_derived s"
  obtain c cs where calls: "sk_calls ?sk = c # cs" "sc_finish c = None" "ack order (sk_stream ?sk) e c"
    using assms(2) True by (cases "sk_calls ?sk") simp_all
  then have same: "before_call c (sk_stream ?sk) = sk_stream ?sk" by (simp add: before_call_none ack_def)
  obtain sp' where sp': "stomp_do_write order (sc_write c) e (sk_stream ?sk) = Inr (True, sp')" "stomp_ready sp'"
    "steady sp' = steady (sk_stream ?sk)" "sp_receipt sp' = sp_receipt (sk_stream ?sk) + 1"
    "stomp_notes sp' = stomp_notes (sk_stream ?sk)"
    "tcs_sent (sp_socket sp') = tcs_sent (sp_socket (sk_stream ?sk)) @ [to_bytes (send_packet order (sk_stream ?sk) e)]"
    using stomp_write_ack [OF assms(1) calls(3)] by blast
  then have "os_write (stomp_sink_write order) s e = (True, s\<lparr>os_derived := \<lparr>sk_stream = sp', sk_calls = cs\<rparr>\<rparr>)"
    using True calls(1) same by (simp add: os_write_def stomp_sink_write_def not_less)
  then show ?thesis using sp'(2-6) True calls(1) by (simp add: sends_def)
next
  case False
  then have "reaching (os_min_level s) [e] = []" "le_level e < os_min_level s" by (simp_all add: not_le)
  then show ?thesis using sends_refl [OF assms(1)] by (auto simp: os_write_def)
qed

lemma reaching_Cons: "reaching lvl (e # es) = reaching lvl [e] @ reaching lvl es"
  by simp

lemma sends_level: "sends order xs s s1 \<Longrightarrow> os_min_level s1 = os_min_level s"
  by (simp add: sends_def)

lemma sends_ready: "sends order xs s s1 \<Longrightarrow> stomp_ready (sk_stream (os_derived s1))"
  by (simp add: sends_def Let_def)

lemma write_sends_first:
  assumes "stomp_ready (sk_stream (os_derived s))"
    and "acks order (sk_stream (os_derived s)) (reaching (os_min_level s) (e # es)) (sk_calls (os_derived s))"
  obtains s1 where "os_write (stomp_sink_write order) s e = (True, s1)" "sends order (reaching (os_min_level s) [e]) s s1"
    "stomp_ready (sk_stream (os_derived s1))" "os_min_level s1 = os_min_level s"
    "acks order (sk_stream (os_derived s1)) (reaching (os_min_level s) es) (sk_calls (os_derived s1))"
proof -
  note both = assms(2) [unfolded reaching_Cons [of _ e es]]
  have "acks order (sk_stream (os_derived s)) (reaching (os_min_level s) [e]) (sk_calls (os_derived s))"
    using both unfolding acks_append by blast
  from write_sends [OF assms(1) this] obtain s1 where
    s1: "os_write (stomp_sink_write order) s e = (True, s1)" "sends order (reaching (os_min_level s) [e]) s s1" by blast
  show thesis by (rule that [OF s1 sends_ready [OF s1(2)] sends_level [OF s1(2)] sends_later(2) [OF s1(2) both]])
qed

text \<open>A retry cycle, and a batch of direct writes, on such a sink: every event goes out, in order.\<close>

lemma write_loop_sends:
  assumes "stomp_ready (sk_stream (os_derived s))"
    and "acks order (sk_stream (os_derived s)) (reaching (os_min_level s) es) (sk_calls (os_derived s))"
  shows "\<exists>s'. write_loop (os_write (stomp_sink_write order)) s es = (es, s', []) \<and>
    sends order (reaching (os_min_level s) es) s s'"
  using assms
proof (induction es arbitrary: s)
  case (Cons e es)
  from write_sends_first [OF Cons.prems] obtain s1 where
    s1: "os_write (stomp_sink_write order) s e = (True, s1)" "sends order (reaching (os_min_level s) [e]) s s1"
      "stomp_ready (sk_stream (os_derived s1))" "os_min_level s1 = os_min_level s"
      "acks order (sk_stream (os_derived s1)) (reaching (os_min_level s) es) (sk_calls (os_derived s1))" .
  from Cons.IH [OF s1(3)] s1(4,5) obtain s' where
    "write_loop (os_write (stomp_sink_write order)) s1 es = (es, s', [])" "sends order (reaching (os_min_level s) es) s1 s'"
    by auto
  then show ?case using s1(1) sends_trans [OF s1(2)] unfolding reaching_Cons [of _ e es] by auto
qed (simp add: sends_refl)

lemma fold_sends:
  assumes "stomp_ready (sk_stream (os_derived s))"
    and "acks order (sk_stream (os_derived s)) (reaching (os_min_level s) es) (sk_calls (os_derived s))"
  shows "\<exists>s'. fold (sink_log (os_write (stomp_sink_write order)) True) es (s, []) = (s', []) \<and>
    sends order (reaching (os_min_level s) es) s s'"
  using assms
proof (induction es arbitrary: s)
  case (Cons e es)
  from write_sends_first [OF Cons.prems] obtain s1 where
    s1: "os_write (stomp_sink_write order) s e = (True, s1)" "sends order (reaching (os_min_level s) [e]) s s1"
      "stomp_ready (sk_stream (os_derived s1))" "os_min_level s1 = os_min_level s"
      "acks order (sk_stream (os_derived s1)) (reaching (os_min_level s) es) (sk_calls (os_derived s1))" .
  from Cons.IH [OF s1(3)] s1(4,5) obtain s' where
    "fold (sink_log (os_write (stomp_sink_write order)) True) es (s1, []) = (s', [])"
    "sends order (reaching (os_min_level s) es) s1 s'"
    by auto
  moreover have "sink_log (os_write (stomp_sink_write order)) True e (s, []) = (s1, [])"
    using s1(1) by (simp add: sink_log_def)
  ultimately show ?case using sends_trans [OF s1(2)] unfolding reaching_Cons [of _ e es] by auto
qed (simp add: sends_refl)

subsection \<open>From the first event to the acknowledgement\<close>

text \<open>As the constructor leaves the sink: the connect thread is at work.\<close>

definition stomp_connecting :: "stomp_stream \<Rightarrow> bool" where
  "stomp_connecting sp \<longleftrightarrow> \<not> sp_connected sp \<and> sp_connecting sp \<and> sp_connect_thread sp \<and>
     \<not> sp_connect_thread_done sp \<and> sp_reply_queue sp = [] \<and> sp_partial_reply sp = []"

lemma new_stomp_connecting:
  assumes "new_stomp_stream order app_name URL hostname user = Inr sp"
  shows "stomp_connecting sp" "sp_receipt sp = 0" "tcs_sent (sp_socket sp) = []"
  using assms
  by (auto simp: new_stomp_stream_def init_stomp_stream_def stomp_connect_def stomp_note_def stomp_connecting_def
      new_tcp_client_socket_def use_SSL_def Let_def split: if_splits)

text \<open>A call that meets nothing, and one before which the connection has been made.\<close>

definition idle_call :: "stomp_call \<Rightarrow> bool" where
  "idle_call c \<longleftrightarrow> sc_finish c = None \<and> sc_incoming c = [] \<and> we_meanwhile (sc_write c) = None"

lemma stomp_sink_connecting:
  assumes "stomp_connecting (sk_stream sk)" "sk_calls sk = c # cs" "idle_call c"
  shows "stomp_sink_write order sk e = (False, sk\<lparr>sk_calls := cs\<rparr>)"
  using assms
  by (simp add: stomp_sink_write_def before_call_none idle_call_def stomp_do_write_def stomp_connect_def
      stomp_connecting_def Let_def)

text \<open>Events below the sink's level do not reach it; the first other one waits, and all behind it.\<close>

definition waiting :: "log_level \<Rightarrow> log_event list \<Rightarrow> log_event list" where
  "waiting minlevel es = dropWhile (\<lambda>e. le_level e < minlevel) es"

lemma waiting_starts:
  assumes "\<exists>e \<in> set es. minlevel \<le> le_level e"
  obtains e rest where "waiting minlevel es = e # rest" "minlevel \<le> le_level e"
    "filter (\<lambda>e. minlevel \<le> le_level e) es = e # filter (\<lambda>e. minlevel \<le> le_level e) rest"
proof -
  have "\<exists>e rest. waiting minlevel es = e # rest \<and> minlevel \<le> le_level e \<and>
      filter (\<lambda>e. minlevel \<le> le_level e) es = e # filter (\<lambda>e. minlevel \<le> le_level e) rest"
    using assms
  proof (induction es)
    case (Cons e es)
    then show ?case by (cases "minlevel \<le> le_level e") (auto simp: waiting_def not_le)
  qed simp
  then show thesis using that by blast
qed

lemma stomp_batch_waits:
  assumes "stomp_connecting (sk_stream (os_derived s))" "sk_calls (os_derived s) = c # cs" "idle_call c"
    and "\<exists>e \<in> set es. os_min_level s \<le> le_level e"
  shows "fold (sink_log (os_write (stomp_sink_write order)) True) es (s, []) =
    (s\<lparr>os_derived := (os_derived s)\<lparr>sk_calls := cs\<rparr>\<rparr>, waiting (os_min_level s) es)"
  using assms(4)
proof (induction es)
  case (Cons e es)
  show ?case
  proof (cases "os_min_level s \<le> le_level e")
    case True
    have "os_write (stomp_sink_write order) s e = (False, s\<lparr>os_derived := (os_derived s)\<lparr>sk_calls := cs\<rparr>\<rparr>)"
      using stomp_sink_connecting [OF assms(1-3), of order e] True by (simp add: os_write_def not_less)
    then have "sink_log (os_write (stomp_sink_write order)) True e (s, []) =
        (s\<lparr>os_derived := (os_derived s)\<lparr>sk_calls := cs\<rparr>\<rparr>, [e])"
      by (simp add: sink_log_def)
    then show ?thesis
      using True by (simp add: waiting_def fold_sink_log_waiting leD)
  next
    case False
    then have "sink_log (os_write (stomp_sink_write order)) True e (s, []) = (s, [])"
      by (simp add: sink_log_def os_write_def not_le)
    moreover have "\<exists>e \<in> set es. os_min_level s \<le> le_level e" using False Cons.prems by auto
    ultimately show ?thesis using False Cons.IH by (simp add: waiting_def not_le)
  qed
qed simp

text \<open>A connecting sink as the connect thread leaves it, with the answers to come.\<close>

definition connected_sink :: "connect_env \<Rightarrow> stomp_call \<Rightarrow> stomp_call list \<Rightarrow> stomp_sink output_stream \<Rightarrow> stomp_sink output_stream" where
  "connected_sink env c cs s = s\<lparr>os_derived := \<lparr>sk_stream = connect_thread env (sk_stream (os_derived s)),
     sk_calls = c\<lparr>sc_finish := None\<rparr> # cs\<rparr>\<rparr>"

lemma stomp_cycle_connects:
  assumes "stomp_connecting (sk_stream (os_derived s))" "sk_calls (os_derived s) = c # cs"
    and "sc_finish c = Some env" "accepts_connection env (sk_stream (os_derived s)) k hs body n"
    and "acks order (sk_stream (os_derived s)) (reaching (os_min_level s) es) (c\<lparr>sc_finish := None\<rparr> # cs)"
    and "es = e # rest" "os_min_level s \<le> le_level e"
  shows "\<exists>s'. sink_cycle (os_write (stomp_sink_write order)) tpnow (s, es) = (s', []) \<and>
    sends order (reaching (os_min_level s) es) (connected_sink env c cs s) s' \<and>
    tcs_sent (sp_socket (sk_stream (os_derived s'))) = tcs_sent (sp_socket (sk_stream (os_derived s))) @
      to_bytes (connect_frame (sp_URL (sk_stream (os_derived s))) @ [nul]) #
      packets order (sk_stream (os_derived s)) (reaching (os_min_level s) es)"
proof -
  let ?sp = "sk_stream (os_derived s)" and ?w = "os_write (stomp_sink_write order)" and ?s0 = "connected_sink env c cs s"
  have empty: "sp_reply_queue ?sp = []" "sp_partial_reply ?sp = []"
    using assms(1) by (simp_all add: stomp_connecting_def)
  note conn = connect_thread_accepted [OF assms(4) empty]
  have incoming: "sc_incoming c = []" using assms(5-7) by (simp add: ack_def)
  have same: "steady (connect_thread env ?sp) = steady ?sp" by (rule steady_connect)
  have s0: "os_min_level ?s0 = os_min_level s" "stomp_ready (sk_stream (os_derived ?s0))"
    "acks order (sk_stream (os_derived ?s0)) (reaching (os_min_level s) es) (sk_calls (os_derived ?s0))"
    using conn acks_cong [OF same conn(6)] assms(5) by (simp_all add: connected_sink_def stomp_ready_def)
  have before: "before_call c ?sp = connect_thread env ?sp" "before_call (c\<lparr>sc_finish := None\<rparr>) sp' = sp'" for sp'
    using assms(1,3) incoming by (simp_all add: before_call_def stomp_connecting_def)
  have "stomp_sink_write order (os_derived s) e = stomp_sink_write order (os_derived ?s0) e"
    using assms(2) before by (simp add: connected_sink_def stomp_sink_write_def Let_def split: sum.split)
  then have "?w s e = ?w ?s0 e"
    using assms(7) by (simp add: os_write_def leD connected_sink_def)
  then have loop: "write_loop ?w s es = write_loop ?w ?s0 es" using assms(6) by simp
  obtain s' where s': "write_loop ?w ?s0 es = (es, s', [])" "sends order (reaching (os_min_level s) es) ?s0 s'"
    using write_loop_sends [OF s0(2)] s0(1,3) by auto
  have "sink_cycle ?w tpnow (s, es) = (s', [])" using loop s'(1) by (simp add: sink_cycle_def)
  moreover have "tcs_sent (sp_socket (sk_stream (os_derived s'))) = tcs_sent (sp_socket ?sp) @
      to_bytes (connect_frame (sp_URL ?sp) @ [nul]) # packets order ?sp (reaching (os_min_level s) es)"
    using s'(2) conn(7) packets_cong [OF same conn(6)] by (simp add: sends_def connected_sink_def Let_def)
  ultimately show ?thesis using s'(2) by blast
qed

lemma stomp_sink_batch:
  assumes "stomp_connecting sp" "\<exists>e \<in> set es. minlevel \<le> le_level e" "idle_call c0"
    and "sc_finish c1 = Some env" "accepts_connection env sp k hs body n"
    and "acks order sp (reaching minlevel es) (c1\<lparr>sc_finish := None\<rparr> # cs)"
  shows "\<exists>s1 s2. fold (sink_log (os_write (vt_do_write (stomp_class order))) True) es
      (new_output_stream minlevel \<lparr>sk_stream = sp, sk_calls = c0 # c1 # cs\<rparr>, []) = (s1, waiting minlevel es) \<and>
    sink_cycle (os_write (vt_do_write (stomp_class order))) tpnow (s1, waiting minlevel es) = (s2, []) \<and>
    tcs_sent (sp_socket (sk_stream (os_derived s2))) = tcs_sent (sp_socket sp) @
      to_bytes (connect_frame (sp_URL sp) @ [nul]) # packets order sp (reaching minlevel es) \<and>
    sends order (reaching minlevel es)
      (new_output_stream minlevel \<lparr>sk_stream = connect_thread env sp, sk_calls = c1\<lparr>sc_finish := None\<rparr> # cs\<rparr>) s2"
proof -
  let ?s0 = "new_output_stream minlevel \<lparr>sk_stream = sp, sk_calls = c0 # c1 # cs\<rparr>"
  let ?s1 = "?s0\<lparr>os_derived := (os_derived ?s0)\<lparr>sk_calls := c1 # cs\<rparr>\<rparr>"
  have fields: "os_min_level ?s1 = minlevel" "sk_stream (os_derived ?s1) = sp" "sk_calls (os_derived ?s1) = c1 # cs"
    "stomp_connecting (sk_stream (os_derived ?s0))" "sk_calls (os_derived ?s0) = c0 # c1 # cs" "os_min_level ?s0 = minlevel"
    using assms(1) by (simp_all add: new_output_stream_def)
  have "fold (sink_log (os_write (stomp_sink_write order)) True) es (?s0, []) = (?s1, waiting minlevel es)"
    using stomp_batch_waits [OF fields(4,5) assms(3), of es order] assms(2) unfolding fields(6) by blast
  moreover obtain e rest where e: "waiting minlevel es = e # rest" "minlevel \<le> le_level e"
    "reaching minlevel es = e # reaching minlevel rest"
    using waiting_starts [OF assms(2)] by blast
  then have same: "reaching minlevel (waiting minlevel es) = reaching minlevel es" by simp
  have connected: "connected_sink env c1 cs ?s1 =
      new_output_stream minlevel \<lparr>sk_stream = connect_thread env sp, sk_calls = c1\<lparr>sc_finish := None\<rparr> # cs\<rparr>"
    by (simp add: connected_sink_def new_output_stream_def)
  obtain s2 where "sink_cycle (os_write (stomp_sink_write order)) tpnow (?s1, waiting minlevel es) = (s2, [])"
    "sends order (reaching minlevel es) (connected_sink env c1 cs ?s1) s2"
    "tcs_sent (sp_socket (sk_stream (os_derived s2))) = tcs_sent (sp_socket sp) @
      to_bytes (connect_frame (sp_URL sp) @ [nul]) # packets order sp (reaching minlevel es)"
    using stomp_cycle_connects [of ?s1 c1 cs env k hs body n order "waiting minlevel es" e rest tpnow]
      fields assms(1,4,5,6) e(1,2) unfolding fields(1,2) same by auto
  ultimately show ?thesis unfolding connected by (auto simp: stomp_class_def)
qed

text \<open>
  C27. From the first event to the last acknowledgement: on a sink just made by its constructor,
  a batch of events waits (but for events below the sink's level at its beginning), because the
  connection is still being made; the retry cycle that finds the connection made, and a server
  that answers, sends one packet for every event that reaches the sink's level, in the order in
  which they were logged and with the receipt numbers from 1 on, behind the \<^verbatim>\<open>CONNECT\<close> frame,
  and leaves nothing in the queue.
\<close>

theorem stomp_batch_arrives:
  assumes "new_stomp_stream order app_name URL hostname user = Inr sp"
    and "\<exists>e \<in> set es. minlevel \<le> le_level e" "idle_call c0"
    and "sc_finish c1 = Some env" "accepts_connection env sp k hs body n"
    and "acks order sp (filter (\<lambda>e. minlevel \<le> le_level e) es) (c1\<lparr>sc_finish := None\<rparr> # cs)"
  shows "\<exists>s1 s2. fold (sink_log (os_write (vt_do_write (stomp_class order))) True) es
      (new_output_stream minlevel \<lparr>sk_stream = sp, sk_calls = c0 # c1 # cs\<rparr>, []) = (s1, waiting minlevel es) \<and>
    sink_cycle (os_write (vt_do_write (stomp_class order))) tpnow (s1, waiting minlevel es) = (s2, []) \<and>
    tcs_sent (sp_socket (sk_stream (os_derived s2))) =
      to_bytes (connect_frame (sp_URL sp) @ [nul]) # packets order sp (filter (\<lambda>e. minlevel \<le> le_level e) es) \<and>
    stomp_ready (sk_stream (os_derived s2))"
  using stomp_sink_batch [OF new_stomp_connecting(1) [OF assms(1)] assms(2-6), of tpnow]
    new_stomp_connecting(3) [OF assms(1)] by (auto dest: sends_ready)

subsection \<open>A server for the samples\<close>

text \<open>Answers that acknowledge each event in one piece, after a heartbeat.\<close>

definition answer :: "(string \<times> string) list \<Rightarrow> connect_env option \<Rightarrow> stomp_stream \<Rightarrow> log_event \<Rightarrow> stomp_call" where
  "answer order finish sp e = \<lparr>sc_finish = finish, sc_incoming = [],
     sc_write = \<lparr>we_meanwhile = None, we_write = int (length (send_packet order sp e)),
       we_reads = [Read_data (receipt_stream 1 (sp_receipt sp + 1))]\<rparr>\<rparr>"

fun answer_each :: "(string \<times> string) list \<Rightarrow> stomp_stream \<Rightarrow> log_event list \<Rightarrow> stomp_call list" where
  "answer_each order sp [] = []"
| "answer_each order sp (e # es) =
     answer order None sp e # answer_each order (sp\<lparr>sp_receipt := sp_receipt sp + 1\<rparr>) es"

lemma receipt_stream_length: "k \<le> length (receipt_stream k n)" "receipt_stream 1 n \<noteq> []"
  by (simp_all add: receipt_stream_def frame_stream_def)

lemma ack_answer: "ack order sp e (answer order finish sp e)"
  unfolding ack_def answer_def all_data_def read_text_def
  using receipt_stream_length(1) [of 1 "sp_receipt sp + 1"] receipt_stream_length(2) [of "sp_receipt sp + 1"] by auto

lemma acks_answers: "acks order sp es (answer_each order sp es)"
  by (induction es arbitrary: sp) (simp_all add: ack_answer, simp add: answer_def)

lemma answer_finish: "(answer order f sp e)\<lparr>sc_finish := None\<rparr> = answer order None sp e"
  by (simp add: answer_def)

definition sample_connect :: "URL_info \<Rightarrow> connect_env" where
  "sample_connect u = \<lparr>ce_resolve = (\<lambda>_ _. Inr sample_addresses),
     ce_socks = \<lparr>se_write1 = 0, se_select1 = (False, Sel_error), se_read1 = None, se_write2 = 0,
       se_select2 = (False, Sel_error), se_read2 = None\<rparr>,
     ce_ssl = \<lparr>ssl_init_ok = False, ssl_ctx_ok = False, ssl_connect_ok = False, ssl_cert = [], ssl_verify = V_ok\<rparr>,
     ce_write = int (length (connect_frame u)) + 1,
     ce_reads = [Read_data (frame_stream [(0, ''CONNECTED'', [(''version'', ''1.1'')], [])])]\<rparr>"

lemma sample_accepts:
  assumes "\<not> tcs_connected (sp_socket sp)" "\<not> tcs_use_socks (sp_socket sp)" "\<not> tcs_use_ssl (sp_socket sp)"
  shows "accepts_connection (sample_connect (sp_URL sp)) sp 0 [(''version'', ''1.1'')] [] 0"
proof -
  have "find address_ok sample_addresses \<noteq> None" "\<forall>a \<in> set sample_addresses. ad_socket a \<ge> -1"
    by (simp_all add: sample_addresses_def address_ok_def)
  moreover have "frame_ok (''CONNECTED'', [(''version'', ''1.1'')], [])"
    by (simp add: frame_ok_def headers_ok_def render_frame_def render_headers_def)
  moreover have "accepted_headers [(''version'', ''1.1'')] 0"
    by (simp add: accepted_headers_def first_headers_def map_find_def long_max_def)
  ultimately show ?thesis
    using assms
    by (simp add: accepts_connection_def sample_connect_def all_data_def read_text_def frame_stream_def
        render_frame_def)
qed

definition idle :: stomp_call where
  "idle = \<lparr>sc_finish = None, sc_incoming = [], sc_write = \<lparr>we_meanwhile = None, we_write = 0, we_reads = []\<rparr>\<rparr>"

text \<open>The sink of a plain URL, and the constructor's result as a function of it.\<close>

lemma new_stomp_plain:
  assumes "parse_URL URL default_URL = Inr u" "url_protocol u = ''stomp''"
  shows "\<exists>sp. new_stomp_stream order app_name URL hostname user = Inr sp \<and> sp_URL sp = u \<and>
    \<not> tcs_connected (sp_socket sp) \<and> \<not> tcs_use_socks (sp_socket sp) \<and> \<not> tcs_use_ssl (sp_socket sp)"
  using assms
  by (simp add: new_stomp_stream_def init_stomp_stream_def stomp_connect_def stomp_note_def
      new_tcp_client_socket_def tcs_connected_def Let_def)

lemma sample_URL: "parse_URL ''stomp://broker'' default_URL = Inr (default_URL\<lparr>url_host := ''broker''\<rparr>)"
  by code_simp

theorem stomp_batch_arrives_witness:
  "\<exists>sp s1 s2. new_stomp_stream replacements ''app'' ''stomp://broker'' (Some ''me'') None = Inr sp \<and>
     tcs_sent (sp_socket (sk_stream (os_derived s2))) = to_bytes (connect_frame (sp_URL sp) @ [nul]) #
       packets replacements sp [sample_event Info ''a'' 0, sample_event Severe ''b'' 1] \<and>
     sink_cycle (os_write (vt_do_write (stomp_class replacements))) 5
       (s1, [sample_event Info ''a'' 0, sample_event Severe ''b'' 1]) = (s2, [])"
proof -
  let ?es = "[sample_event Info ''a'' 0, sample_event Severe ''b'' 1]"
  obtain sp where sp: "new_stomp_stream replacements ''app'' ''stomp://broker'' (Some ''me'') None = Inr sp"
    "\<not> tcs_connected (sp_socket sp)" "\<not> tcs_use_socks (sp_socket sp)" "\<not> tcs_use_ssl (sp_socket sp)"
    using new_stomp_plain [OF sample_URL, where order = replacements and app_name = "''app''" and
        hostname = "Some ''me''" and user = None] by (auto simp: default_URL_def)
  let ?c1 = "answer replacements (Some (sample_connect (sp_URL sp))) sp (sample_event Info ''a'' 0)"
  let ?cs = "answer_each replacements (sp\<lparr>sp_receipt := sp_receipt sp + 1\<rparr>) [sample_event Severe ''b'' 1]"
  have all: "filter (\<lambda>e. Finest \<le> le_level e) ?es = ?es" "waiting Finest ?es = ?es"
    by (simp_all add: sample_event_def level_order waiting_def)
  have "acks replacements sp ?es (?c1\<lparr>sc_finish := None\<rparr> # ?cs)"
    using acks_answers [of replacements sp ?es] by (simp only: answer_finish answer_each.simps)
  moreover have "\<exists>e \<in> set ?es. Finest \<le> le_level e" unfolding sample_event_def level_order by auto
  moreover have "idle_call idle" by (simp add: idle_call_def idle_def)
  moreover have "sc_finish ?c1 = Some (sample_connect (sp_URL sp))" by (simp add: answer_def)
  ultimately show ?thesis
    using stomp_batch_arrives [OF sp(1), of ?es Finest idle ?c1 _ _ _ _ _ ?cs 5] sample_accepts [OF sp(2-4)] sp(1)
    unfolding all by blast
qed

subsection \<open>A lost acknowledgement\<close>

text \<open>What reading without data, disconnecting and restarting leave alone.\<close>

definition sock_config :: "tcs_private \<Rightarrow> string \<times> 16 word \<times> bool \<times> bool" where
  "sock_config s = (tcs_host s, tcs_port s, tcs_use_socks s, tcs_use_ssl s)"

definition session :: "stomp_stream \<Rightarrow> stomp_reply list \<times> string \<times> 32 word \<times> bool \<times>
    (string \<times> 16 word \<times> bool \<times> bool) \<times> 8 word list list" where
  "session sp = (sp_reply_queue sp, sp_partial_reply sp, sp_receipt sp, sp_connect_thread_done sp,
     sock_config (sp_socket sp), tcs_sent (sp_socket sp))"

lemma session_disconnect [simp]:
  "sock_config (tcs_disconnect s) = sock_config s" "session (stomp_disconnect sp) = session sp"
  "session (stomp_note l msg sp) = session sp" "session (sp\<lparr>sp_last_was_data := b\<rparr>) = session sp"
  "session (sp\<lparr>sp_socket := tcs_disconnect (sp_socket sp)\<rparr>) = session sp"
  by (simp_all add: session_def sock_config_def tcs_disconnect_def stomp_disconnect_def stomp_note_def)

lemma read_no_data:
  "read_with_timeout es sp = (r, sp1, es1) \<Longrightarrow> \<forall>d. Read_data d \<notin> set es \<Longrightarrow>
     session sp1 = session sp \<and> (\<forall>d. r \<noteq> Got d)"
proof (induction es sp rule: read_with_timeout.induct)
  case (2 ev es sp)
  then show ?case by (cases ev) (auto split: if_splits)
qed (auto split: if_splits)

lemma reader_no_data:
  assumes "\<forall>d. Read_data d \<notin> set es"
  shows "session (snd (reader_thread es sp)) = session sp"
proof -
  obtain got sp1 es1 where r: "read_with_timeout es sp = (got, sp1, es1)" by (metis prod.exhaust)
  show ?thesis
    using r read_no_data [OF r assms]
    by (auto simp: reader_thread.simps [of es sp] split: read_result.splits)
qed

lemma accepts_connection_cong:
  assumes "sock_config (sp_socket sp') = sock_config (sp_socket sp)" "sp_URL sp' = sp_URL sp"
    and "tcs_connected (sp_socket sp') = tcs_connected (sp_socket sp)"
  shows "accepts_connection env sp' k hs body n = accepts_connection env sp k hs body n"
  using assms by (simp add: accepts_connection_def sock_config_def)

text \<open>A write whose packet goes out and whose receipt does not come.\<close>

definition unanswered :: "(string \<times> string) list \<Rightarrow> stomp_stream \<Rightarrow> log_event \<Rightarrow> stomp_call \<Rightarrow> bool" where
  "unanswered order sp e c \<longleftrightarrow> sc_finish c = None \<and> sc_incoming c = [] \<and>
     we_write (sc_write c) = int (length (send_packet order sp e)) \<and>
     list_all (\<lambda>ev. case ev of Read_data _ \<Rightarrow> False | _ \<Rightarrow> True) (we_reads (sc_write c))"

lemma stomp_write_unanswered:
  assumes "stomp_ready sp" "unanswered order sp e c"
  shows "\<exists>sp'. stomp_do_write order (sc_write c) e sp = Inr (False, sp') \<and> steady sp' = steady sp \<and>
    \<not> sp_connected sp' \<and> \<not> tcs_connected (sp_socket sp') \<and>
    session sp' = session (sp\<lparr>sp_receipt := sp_receipt sp + 1, sp_socket := (sp_socket sp)\<lparr>tcs_sent :=
      tcs_sent (sp_socket sp) @ [to_bytes (send_packet order sp e)]\<rparr>\<rparr>)"
proof -
  define sock where "sock = (sp_socket sp)\<lparr>tcs_sent := tcs_sent (sp_socket sp) @ [to_bytes (send_packet order sp e)]\<rparr>"
  define sp1 where "sp1 = sp\<lparr>sp_receipt := sp_receipt sp + 1, sp_socket := sock\<rparr>"
  define sp2 where "sp2 = snd (reader_thread (we_reads (sc_write c)) sp1)"
  have sent: "tcs_write (we_write (sc_write c)) (to_bytes (send_packet order sp e)) (sp_socket sp) = (Inr (), sock)"
    using assms by (simp add: stomp_ready_def unanswered_def tcs_write_def to_bytes_def sock_def)
  have "\<forall>d. Read_data d \<notin> set (we_reads (sc_write c))"
    using assms(2) by (auto simp: unanswered_def list_all_iff)
  then have sess: "session sp2 = session sp1" unfolding sp2_def by (rule reader_no_data)
  then have "sp_reply_queue sp2 = []" using assms(1) by (simp add: session_def sp1_def stomp_ready_def)
  then have "stomp_do_write order (sc_write c) e sp =
      Inr (False, stomp_disconnect (stomp_note Warning ''Timeout.'' sp2))"
    using assms(1) sent
    by (simp add: stomp_do_write_def stomp_connect_def stomp_ready_def Let_def send_packet_def
        flip: sp1_def sp2_def)
  moreover have "steady sp2 = steady sp" by (simp add: sp2_def steady_reader sp1_def)
  moreover have "\<not> sp_connected (stomp_disconnect sp3)" for sp3 by (simp add: stomp_disconnect_def)
  ultimately show ?thesis using sess by (simp add: sp1_def sock_def)
qed

text \<open>After a disconnect: one call joins the old connect thread, the next one starts a new one.\<close>

lemma stomp_reconnects:
  assumes "sp_connecting sp" "sp_connect_thread sp" "sp_connect_thread_done sp" "\<not> sp_connected sp"
    and "sp_reply_queue sp = []" "sp_partial_reply sp = []" "idle_call c" "idle_call c'"
  shows "\<exists>sp' sp''. stomp_do_write order (sc_write c) e sp = Inr (False, sp') \<and>
    stomp_do_write order (sc_write c') e sp' = Inr (False, sp'') \<and> stomp_connecting sp'' \<and>
    sp_socket sp'' = sp_socket sp \<and> sp_URL sp'' = sp_URL sp \<and> sp_receipt sp'' = sp_receipt sp \<and> steady sp'' = steady sp"
proof -
  define sp1 where "sp1 = sp\<lparr>sp_connecting := False, sp_connect_thread := False\<rparr>"
  define sp2 where "sp2 = (stomp_note Finest ''Starting connect thread.'' sp1)
    \<lparr>sp_connecting := True, sp_connect_thread_done := False, sp_connect_thread := True\<rparr>"
  have "stomp_do_write order (sc_write c) e sp = Inr (False, sp1)"
    using assms by (simp add: stomp_do_write_def stomp_connect_def idle_call_def sp1_def Let_def)
  moreover have "stomp_do_write order (sc_write c') e sp1 = Inr (False, sp2)"
    using assms by (simp add: stomp_do_write_def stomp_connect_def idle_call_def sp1_def sp2_def stomp_note_def Let_def)
  moreover have "stomp_connecting sp2" "sp_socket sp2 = sp_socket sp" "sp_URL sp2 = sp_URL sp"
    "sp_receipt sp2 = sp_receipt sp" "steady sp2 = steady sp"
    using assms by (simp_all add: sp1_def sp2_def stomp_connecting_def stomp_note_def steady_def)
  ultimately show ?thesis by blast
qed

text \<open>
  C28. An acknowledgement that does not come duplicates the event: the write has put the packet
  on the network and reports failure, so the event waits; the first retry cycle joins the old
  connect thread, the second starts a new one, and the third, on the new connection, sends the
  event again, under the next receipt number. So the server gets every event at least once, and
  one whose receipt is lost twice.
\<close>

theorem stomp_timeout_sends_twice:
  assumes "stomp_ready sp" "sp_connecting sp" "sp_connect_thread sp" "sp_connect_thread_done sp"
    and "minlevel \<le> le_level e" "unanswered order sp e c1" "idle_call c2" "idle_call c3"
    and "sc_finish c4 = Some env" "accepts_connection env (stomp_disconnect sp) k hs body n"
    and "ack order (sp\<lparr>sp_receipt := sp_receipt sp + 1\<rparr>) e c4" "\<not> expired t1 e" "\<not> expired t2 e"
  shows "\<exists>s1 s2 s3 s4. let w = os_write (vt_do_write (stomp_class order)) in
    sink_log w True e (new_output_stream minlevel \<lparr>sk_stream = sp, sk_calls = [c1, c2, c3, c4]\<rparr>, []) = (s1, [e]) \<and>
    sink_cycle w t1 (s1, [e]) = (s2, [e]) \<and> sink_cycle w t2 (s2, [e]) = (s3, [e]) \<and>
    sink_cycle w t3 (s3, [e]) = (s4, []) \<and>
    tcs_sent (sp_socket (sk_stream (os_derived s4))) = tcs_sent (sp_socket sp) @
      [to_bytes (send_packet order sp e), to_bytes (connect_frame (sp_URL sp) @ [nul]),
       to_bytes (send_packet order (sp\<lparr>sp_receipt := sp_receipt sp + 1\<rparr>) e)]"
proof -
  let ?w = "os_write (stomp_sink_write order)"
  define at where "at = (\<lambda>sp calls. \<lparr>os_min_level = minlevel, os_derived = \<lparr>sk_stream = sp, sk_calls = calls\<rparr>\<rparr>)"
  have w: "?w (at sp0 (c # cs)) e = (ok, at sp0' cs)"
    if "stomp_do_write order (sc_write c) e sp0 = Inr (ok, sp0')" "sc_finish c = None" "sc_incoming c = []"
    for sp0 sp0' c cs ok
    using that assms(5) by (simp add: at_def os_write_def stomp_sink_write_def before_call_none not_less)
  have refused: "sink_cycle ?w t (at sp0 (c # cs), [e]) = (at sp0' cs, [e])"
    if "?w (at sp0 (c # cs)) e = (False, at sp0' cs)" "\<not> expired t e" for sp0 sp0' c cs t
    using that by (simp add: sink_cycle_def)
  obtain sp1 where sp1: "stomp_do_write order (sc_write c1) e sp = Inr (False, sp1)" "steady sp1 = steady sp"
    "\<not> sp_connected sp1" "\<not> tcs_connected (sp_socket sp1)"
    "session sp1 = session (sp\<lparr>sp_receipt := sp_receipt sp + 1, sp_socket := (sp_socket sp)\<lparr>tcs_sent :=
      tcs_sent (sp_socket sp) @ [to_bytes (send_packet order sp e)]\<rparr>\<rparr>)"
    using stomp_write_unanswered [OF assms(1,6)] by blast
  have flags: "sp_connecting sp1" "sp_connect_thread sp1" "sp_connect_thread_done sp1" "sp_reply_queue sp1 = []"
    "sp_partial_reply sp1 = []" "sp_receipt sp1 = sp_receipt sp + 1" "sp_URL sp1 = sp_URL sp"
    using sp1(2,5) assms(1-4) by (simp_all add: steady_def session_def stomp_ready_def)
  obtain sp2 sp3 where joined: "stomp_do_write order (sc_write c2) e sp1 = Inr (False, sp2)"
    and started: "stomp_do_write order (sc_write c3) e sp2 = Inr (False, sp3)"
    and fields: "stomp_connecting sp3" "sp_socket sp3 = sp_socket sp1" "sp_URL sp3 = sp_URL sp1"
      "sp_receipt sp3 = sp_receipt sp1" "steady sp3 = steady sp1"
    using stomp_reconnects [OF flags(1-3) sp1(3) flags(4,5) assms(7,8)] by blast
  have sp3: "stomp_connecting sp3" "sp_URL sp3 = sp_URL sp" "sp_socket sp3 = sp_socket sp1"
    "sp_receipt sp3 = sp_receipt (sp\<lparr>sp_receipt := sp_receipt sp + 1\<rparr>)"
    using fields flags by simp_all
  have steady3: "steady sp3 = steady (sp\<lparr>sp_receipt := sp_receipt sp + 1\<rparr>)"
    using sp1(2) fields(5) by (simp add: steady_def)
  have sent1: "tcs_sent (sp_socket sp3) = tcs_sent (sp_socket sp) @ [to_bytes (send_packet order sp e)]"
    using sp1(5) sp3(3) by (simp add: session_def)
  have accept3: "accepts_connection env sp3 k hs body n"
  proof (rule iffD2 [OF accepts_connection_cong assms(10)])
    show "sock_config (sp_socket sp3) = sock_config (sp_socket (stomp_disconnect sp))"
      using sp1(5) sp3(3) by (simp add: session_def sock_config_def stomp_disconnect_def tcs_disconnect_def)
  qed (use sp3 sp1(4) in \<open>simp_all add: stomp_disconnect_def tcs_disconnect_def tcs_connected_def\<close>)
  have calls: "sc_finish c2 = None" "sc_incoming c2 = []" "sc_finish c3 = None" "sc_incoming c3 = []"
    "sc_finish c1 = None" "sc_incoming c1 = []"
    using assms(6-8) by (simp_all add: idle_call_def unanswered_def)
  have acks4: "acks order sp3 [e] [c4\<lparr>sc_finish := None\<rparr>]"
    using assms(11) ack_cong [OF steady3 sp3(4), of order e c4] by (simp add: ack_def)
  obtain s4 where s4: "sink_cycle ?w t3 (at sp3 [c4], [e]) = (s4, [])"
    "tcs_sent (sp_socket (sk_stream (os_derived s4))) = tcs_sent (sp_socket sp3) @
      to_bytes (connect_frame (sp_URL sp3) @ [nul]) # packets order sp3 [e]"
    using stomp_cycle_connects [of "at sp3 [c4]" c4 "[]" env k hs body n order "[e]" e "[]" t3] sp3(1) accept3 acks4
      assms(5,9) by (auto simp: at_def)
  have "new_output_stream minlevel \<lparr>sk_stream = sp, sk_calls = [c1, c2, c3, c4]\<rparr> = at sp [c1, c2, c3, c4]"
    by (simp add: new_output_stream_def at_def)
  moreover have "sink_log ?w True e (at sp [c1, c2, c3, c4], []) = (at sp1 [c2, c3, c4], [e])"
    using w [OF sp1(1) calls(5,6)] by (simp add: sink_log_def)
  moreover have "sink_cycle ?w t1 (at sp1 [c2, c3, c4], [e]) = (at sp2 [c3, c4], [e])"
    using refused [OF w [OF joined calls(1,2)] assms(12)] .
  moreover have "sink_cycle ?w t2 (at sp2 [c3, c4], [e]) = (at sp3 [c4], [e])"
    using refused [OF w [OF started calls(3,4)] assms(13)] .
  moreover have "packets order sp3 [e] = [to_bytes (send_packet order (sp\<lparr>sp_receipt := sp_receipt sp + 1\<rparr>) e)]"
    using send_packet_cong [OF steady3 sp3(4)] by simp
  ultimately show ?thesis using s4 sent1 sp3(2) by (auto simp: stomp_class_def Let_def)
qed

lemma sample_stomp_ready: "stomp_ready sample_stomp" "sp_connect_thread_done sample_stomp"
  using sample_stomp_state by (simp_all add: stomp_ready_def) (simp add: sample_stomp_def)

theorem stomp_timeout_sends_twice_witness:
  "\<exists>s3 s4. sink_cycle (os_write (vt_do_write (stomp_class replacements))) 5 (s3, [sample_event Info ''a'' 0]) = (s4, []) \<and>
     tcs_sent (sp_socket (sk_stream (os_derived s4))) =
       [to_bytes (send_packet replacements sample_stomp (sample_event Info ''a'' 0)),
        to_bytes (connect_frame (sp_URL sample_stomp) @ [nul]),
        to_bytes (send_packet replacements (sample_stomp\<lparr>sp_receipt := 1\<rparr>) (sample_event Info ''a'' 0))]"
proof -
  let ?e = "sample_event Info ''a'' 0"
  let ?sp1 = "sample_stomp\<lparr>sp_receipt := sp_receipt sample_stomp + 1\<rparr>"
  let ?c1 = "\<lparr>sc_finish = None, sc_incoming = [], sc_write = \<lparr>we_meanwhile = None,
    we_write = int (length (send_packet replacements sample_stomp ?e)), we_reads = [Read_timeout, Read_timeout]\<rparr>\<rparr>"
  let ?c4 = "answer replacements (Some (sample_connect (sp_URL sample_stomp))) ?sp1 ?e"
  have plain: "\<not> tcs_connected (sp_socket (stomp_disconnect sample_stomp))"
    "\<not> tcs_use_socks (sp_socket (stomp_disconnect sample_stomp))" "\<not> tcs_use_ssl (sp_socket (stomp_disconnect sample_stomp))"
    "sp_URL (stomp_disconnect sample_stomp) = sp_URL sample_stomp" "tcs_sent (sp_socket sample_stomp) = []"
    "sp_receipt sample_stomp = 0"
    by (simp_all add: stomp_disconnect_def tcs_disconnect_def tcs_connected_def sample_stomp_def new_tcp_client_socket_def)
  have accept: "accepts_connection (sample_connect (sp_URL sample_stomp)) (stomp_disconnect sample_stomp) 0
      [(''version'', ''1.1'')] [] 0"
    using sample_accepts [OF plain(1-3)] by (simp only: plain(4))
  have "unanswered replacements sample_stomp ?e ?c1" by (simp add: unanswered_def)
  moreover have "idle_call idle" by (simp add: idle_call_def idle_def)
  moreover have "Finest \<le> le_level ?e" by (simp add: sample_event_def level_order)
  moreover have "\<not> expired 3 ?e" "\<not> expired 4 ?e"
    by (simp_all add: expired_def expiry_time_values sample_event_def trunc_div_def ns_per_s_def)
  moreover have "sc_finish ?c4 = Some (sample_connect (sp_URL sample_stomp))" by (simp add: answer_def)
  ultimately show ?thesis
    using stomp_timeout_sends_twice [where minlevel = Finest and e = ?e and order = replacements and ?c1.0 = ?c1 and
        ?c2.0 = idle and ?c3.0 = idle and ?t1.0 = 3 and ?t2.0 = 4 and ?t3.0 = 5, OF sample_stomp_ready(1)
        sample_stomp_state(3,2) sample_stomp_ready(2) _ _ _ _ _ accept ack_answer] plain(5,6)
    by (simp add: Let_def) blast
qed

end
