(* ===== verification/Crash_Handler.thy ===== *)
theory Crash_Handler
  imports Application Stomp_Delivery
begin

section \<open>A crash with a console and a message server (logger.cpp, log_thread.cpp)\<close>

text \<open>
  The whole library at work: an application logs, crashes, and the signal handler logs the
  backtrace and terminates the log thread, which delivers to a console and to a message server
  whose connection is still being made. Sinks of different classes in one log thread are sinks
  of a sum type, with the virtual functions of each class for its part.
\<close>

subsection \<open>Sinks of two classes\<close>

definition dispatch :: "'a stream_class \<Rightarrow> 'b stream_class \<Rightarrow> ('a + 'b) stream_class" where
  "dispatch c1 c2 =
     \<lparr>vt_name = case_sum (vt_name c1) (vt_name c2),
      vt_retry_time = case_sum (vt_retry_time c1) (vt_retry_time c2),
      vt_do_write = (\<lambda>s e. case s of
          Inl d \<Rightarrow> map_prod id Inl (vt_do_write c1 d e)
        | Inr d \<Rightarrow> map_prod id Inr (vt_do_write c2 d e)),
      vt_destroy = (\<lambda>s. case s of
          Inl d \<Rightarrow> bind_exn (vt_destroy c1 d) (\<lambda>d. Inr (Inl d))
        | Inr d \<Rightarrow> bind_exn (vt_destroy c2 d) (\<lambda>d. Inr (Inr d)))\<rparr>"

text \<open>An object of a derived class, seen as one of the sum type.\<close>

definition upcast :: "('a \<Rightarrow> 's) \<Rightarrow> 'a output_stream \<Rightarrow> 's output_stream" where
  "upcast f s = \<lparr>os_min_level = os_min_level s, os_derived = f (os_derived s)\<rparr>"

text \<open>A write of the base class, seen from either side.\<close>

lemma dispatch_write:
  "os_write (vt_do_write (dispatch c1 c2)) (upcast Inl s1) e = map_prod id (upcast Inl) (os_write (vt_do_write c1) s1 e)"
  "os_write (vt_do_write (dispatch c1 c2)) (upcast Inr s2) e = map_prod id (upcast Inr) (os_write (vt_do_write c2) s2 e)"
  by (simp_all add: os_write_def dispatch_def upcast_def Let_def split: prod.split)

text \<open>What delivery does to a sink does not depend on how its state is represented.\<close>

lemma write_loop_map:
  assumes "\<And>s e. w (h s) e = map_prod id h (w' s e)"
  shows "write_loop w (h s) q = (fst (write_loop w' s q), h (fst (snd (write_loop w' s q))), snd (snd (write_loop w' s q)))"
proof (induction q arbitrary: s)
  case (Cons e q)
  obtain ok s1 where w: "w' s e = (ok, s1)" by fastforce
  obtain d s2 q2 where rest: "write_loop w' s1 q = (d, s2, q2)" by (metis prod.exhaust)
  have "w (h s) e = (ok, h s1)" using assms [of s e] w by simp
  moreover have "ok \<Longrightarrow> write_loop w (h s1) q = (d, h s2, q2)"
    using Cons.IH [of s1] rest by simp
  ultimately show ?case using w rest by (cases ok) simp_all
qed simp

lemma sink_op_map:
  assumes "\<And>s e. w (h s) e = map_prod id h (w' s e)"
  shows "sink_op fmt w p x (h s, q) = map_prod h id (sink_op fmt w' p x (s, q))"
proof (cases x)
  case (Op_log spawn e)
  then show ?thesis using assms by (simp add: sink_log_def split: prod.split)
next
  case (Op_cycle p' tpnow)
  then show ?thesis
    using write_loop_map [where w = w and h = h and w' = w', OF assms] by (simp add: sink_cycle_def split: prod.split)
qed

lemma sink_ops_map:
  assumes "\<And>s e. w (h s) e = map_prod id h (w' s e)"
  shows "fold (sink_op fmt w p) xs (h s, q) = map_prod h id (fold (sink_op fmt w' p) xs (s, q))"
proof (induction xs arbitrary: s q)
  case (Cons x xs)
  obtain s1 q1 where one: "sink_op fmt w' p x (s, q) = (s1, q1)" by fastforce
  then show ?case
    using Cons.IH [of s1 q1] sink_op_map [where w = w and h = h and w' = w', OF assms, of fmt p x s q] by simp
qed simp

lemma dispatch_ops:
  "fold (sink_op fmt (os_write (vt_do_write (dispatch c1 c2))) p) xs (upcast Inl s1, q) =
     map_prod (upcast Inl) id (fold (sink_op fmt (os_write (vt_do_write c1)) p) xs (s1, q))"
  "fold (sink_op fmt (os_write (vt_do_write (dispatch c1 c2))) p) xs (upcast Inr s2, q) =
     map_prod (upcast Inr) id (fold (sink_op fmt (os_write (vt_do_write c2)) p) xs (s2, q))"
  by (rule sink_ops_map, rule dispatch_write)+

subsection \<open>The round that ends the log thread\<close>

text \<open>A batch and the retry cycles after it are a history of the log thread.\<close>

definition round_ops ::
  "(log_event \<Rightarrow> nat \<Rightarrow> (string \<times> string) option) \<Rightarrow> log_event list \<Rightarrow> (nat \<times> time_point) list \<Rightarrow> lt_op list" where
  "round_ops spawn es cycles = map (Op_log spawn) es @ map (\<lambda>(p, tpnow). Op_cycle p tpnow) cycles"

lemma history_ok_round:
  "\<forall>e \<in> set es. fmt (le_time e) \<noteq> None \<Longrightarrow> \<forall>(q, tpnow) \<in> set cycles. q \<in> set (map snd (lt_streams t)) \<Longrightarrow>
     history_ok fmt t (round_ops spawn es cycles)"
  by (auto simp: history_ok_def round_ops_def)

lemma lt_run_ops_append: "lt_run_ops fmt c (xs @ ys) t = bind_exn (lt_run_ops fmt c xs t) (lt_run_ops fmt c ys)"
  by (induction xs arbitrary: t) (auto simp: bind_exn_def split: sum.splits)

lemma round_ops_run:
  "lt_run_ops fmt c (round_ops spawn es cycles) t =
     bind_exn (log_all fmt c spawn es t) (env_steps c (map (\<lambda>(p, tpnow). Env_retry p tpnow) cycles))"
proof -
  have logs: "lt_run_ops fmt c (map (Op_log spawn) es) t = log_all fmt c spawn es t" for t
    by (induction es arbitrary: t) (auto simp: bind_exn_def split: sum.splits)
  have cycles: "lt_run_ops fmt c (map (\<lambda>(p, tpnow). Op_cycle p tpnow) cycles) t =
      env_steps c (map (\<lambda>(p, tpnow). Env_retry p tpnow) cycles) t" for t
    by (induction cycles arbitrary: t) (auto simp: bind_exn_def split: sum.splits)
  show ?thesis by (auto simp: round_ops_def lt_run_ops_append logs cycles bind_exn_def split: sum.splits)
qed

lemma env_cycles_input:
  "env_steps c (map (\<lambda>(p, tpnow). Env_retry p tpnow) cycles) t = Inr t' \<Longrightarrow> lt_input t' = lt_input t"
proof (induction cycles arbitrary: t)
  case (Cons x cycles)
  obtain q now where x: "x = (q, now)" by fastforce
  with Cons.prems obtain t1 where t1: "retry_thread_cycle c q now t = Inr t1"
    "env_steps c (map (\<lambda>(p, tpnow). Env_retry p tpnow) cycles) t1 = Inr t'" by auto
  then show ?case
    using Cons.IH [OF t1(2)] retry_thread_cycle_keeps(2,3) [OF t1(1)] by (simp add: lt_input_def)
qed simp

lemma env_steps_enqueue: "env_steps c (map Env_enqueue es) t = Inr (fold lt_enqueue es t)"
  by (induction es arbitrary: t) simp_all

lemma round_ops_none: "round_ops spawn es [] = map (Op_log spawn) es"
  by (simp add: round_ops_def)

text \<open>
  A round after the request to terminate: the events still queued and the retry cycles that
  follow leave nothing waiting at any sink; then the events \<open>own\<close> arrive. If there are none the
  loop ends, otherwise it goes on.
\<close>

lemma ending_round:
  assumes "lt_wf t" "threads_live t" "history_ok fmt t (round_ops spawn (lt_events t) cycles)" "lt_do_terminate t"
    and "\<forall>p \<in> set (map snd (lt_streams t)). \<exists>s s'. lt_heap t p = Some s \<and>
      fold (sink_op fmt (os_write (vt_do_write c)) p) (round_ops spawn (lt_events t) cycles) (s, retry_queue t p) = (s', [])"
  shows "\<exists>t'. do_run_round fmt c spawn (map (\<lambda>(p, tpnow). Env_retry p tpnow) cycles @ map Env_enqueue own) [] t =
      Inr (if own = [] then Return else Continue, t') \<and> lt_events t' = own \<and> lt_do_terminate t' \<and>
    lt_streams t' = lt_streams t \<and> (own \<noteq> [] \<longrightarrow> lt_wf t' \<and> threads_live t') \<and>
    (\<forall>p \<in> set (map snd (lt_streams t)). retry_queue t' p = [] \<and> lt_heap t' p = map_option (\<lambda>s.
      fst (fold (sink_op fmt (os_write (vt_do_write c)) p) (round_ops spawn (lt_events t) cycles) (s, retry_queue t p)))
      (lt_heap t p))"
proof -
  let ?w = "os_write (vt_do_write c)" and ?ops = "round_ops spawn (lt_events t) cycles"
  let ?t = "t\<lparr>lt_events := []\<rparr>"
  have same: "lt_streams ?t = lt_streams t" "lt_heap ?t = lt_heap t" "lt_retry_map ?t = lt_retry_map t" by simp_all
  have start: "lt_wf ?t" "threads_live ?t" "history_ok fmt ?t ?ops"
    using assms(1-3) unfolding lt_wf_def threads_live_def history_ok_def same by blast+
  have views: "sink_view ?t p = sink_view t p" for p by (simp add: sink_view_def retry_queue_def)
  obtain t1 where t1: "lt_run_ops fmt c ?ops ?t = Inr t1" "lt_wf t1" "threads_live t1" "lt_streams t1 = lt_streams t"
    "\<forall>p \<in> set (map snd (lt_streams t)). sink_view t1 p = map_option (fold (sink_op fmt ?w p) ?ops) (sink_view t p)"
    using lt_run_ops_sinks [OF start, of c] unfolding views by auto
  have heaps: "lt_heap t1 p = map_option (\<lambda>s. fst (fold (sink_op fmt ?w p) ?ops (s, retry_queue t p))) (lt_heap t p) \<and>
      retry_queue t1 p = []" if p: "p \<in> set (map snd (lt_streams t))" for p
  proof -
    obtain s s' where s: "lt_heap t p = Some s" "fold (sink_op fmt ?w p) ?ops (s, retry_queue t p) = (s', [])"
      using assms(5) p by blast
    have "sink_view t1 p = Some (s', [])"
      using bspec [OF t1(5) p] s by (simp add: sink_view_def [of t])
    then show ?thesis using s by (auto simp: sink_view_def)
  qed
  obtain t0 where t0: "log_all fmt c spawn (lt_events t) ?t = Inr t0"
    "env_steps c (map (\<lambda>(p, tpnow). Env_retry p tpnow) cycles) t0 = Inr t1"
    using t1(1) unfolding round_ops_run by auto
  have input: "lt_events t1 = []" "lt_do_terminate t1"
    using env_cycles_input [OF t0(2)] log_all_input [OF t0(1)] assms(4) by (simp_all add: lt_input_def)
  let ?t2 = "fold lt_enqueue own t1"
  have t2: "env_steps c (map (\<lambda>(p, tpnow). Env_retry p tpnow) cycles @ map Env_enqueue own) t0 = Inr ?t2"
    "lt_events ?t2 = own" "lt_do_terminate ?t2"
    using t0(2) input by (simp_all add: env_steps_append env_steps_enqueue fold_lt_enqueue)
  show ?thesis
  proof (cases "own = []")
    case False
    have "do_run_round fmt c spawn (map (\<lambda>(p, tpnow). Env_retry p tpnow) cycles @ map Env_enqueue own) [] t = Inr (Continue, ?t2)"
      using t0(1) t2 False by (simp add: do_run_round_def)
    moreover have "lt_wf ?t2" "threads_live ?t2" "retry_queue ?t2 p = retry_queue t1 p" for p
      using t1(2,3) by (simp_all add: lt_wf_def threads_live_def retry_queue_def fold_lt_enqueue)
    ultimately show ?thesis using False t2(2,3) t1(4) heaps by (simp add: fold_lt_enqueue)
  next
    case True
    have wf1: "map_wf (lt_retry_map t1)" using t1(2) by (simp add: lt_wf_def)
    have entry: "x \<noteq> None \<and> (\<forall>r. x = Some r \<longrightarrow> \<not> rt_active r)" if "(p, x) \<in> set (lt_retry_map t1)" for p x
    proof -
      have find: "map_find p (lt_retry_map t1) = Some x" using that cmap.find_entries [OF wf1] by blast
      then obtain r where r: "x = Some r" "p \<in> set (map snd (lt_streams t))"
        using threads_live_map [OF t1(3) find] t1(4) by metis
      then have "rt_queue r = []" using heaps [of p] find by (simp add: retry_queue_def)
      then show ?thesis using r by (simp add: rt_active_def)
    qed
    then have "\<forall>p. (p, None) \<notin> set (lt_retry_map t1)" by blast
    then obtain m still where scan: "retry_scan (lt_retry_map t1) = Inr (m, still)"
      using retry_scan_total by blast
    have "\<not> still" using retry_scan_result [OF scan] entry by blast
    then have run: "do_run_round fmt c spawn (map (\<lambda>(p, tpnow). Env_retry p tpnow) cycles @ map Env_enqueue own) [] t =
        Inr (Return, t1\<lparr>lt_retry_map := m\<rparr>)"
      using t0 input scan True by (simp add: do_run_round_def)
    have "all_null (t1\<lparr>lt_retry_map := m\<rparr>)" using do_run_round_return [OF run] by blast
    then have "retry_queue (t1\<lparr>lt_retry_map := m\<rparr>) p = []" for p
      using map_find_all_null [of "t1\<lparr>lt_retry_map := m\<rparr>" p] by (auto simp: retry_queue_def split: option.splits)
    then show ?thesis using run True input t1(4) heaps by simp
  qed
qed

text \<open>
  So the loop ends with such a round if nothing arrives in it, and otherwise with the next one,
  which delivers what has arrived.
\<close>

lemma do_run_ends:
  assumes "lt_wf t" "threads_live t" "history_ok fmt t (round_ops spawn (lt_events t) cycles)" "lt_do_terminate t"
    and "\<forall>e \<in> set own. fmt (le_time e) \<noteq> None"
    and "\<forall>p \<in> set (map snd (lt_streams t)). \<exists>s s' s''. lt_heap t p = Some s \<and>
      fold (sink_op fmt (os_write (vt_do_write c)) p) (round_ops spawn (lt_events t) cycles) (s, retry_queue t p) = (s', []) \<and>
      fold (sink_op fmt (os_write (vt_do_write c)) p) (map (Op_log spawn) own) (s', []) = (s'', [])"
  shows "\<exists>t'. do_run fmt c [(spawn, map (\<lambda>(p, tpnow). Env_retry p tpnow) cycles @ map Env_enqueue own, []), (spawn, [], [])] t =
      Inr (True, t') \<and> lt_streams t' = lt_streams t \<and>
    (\<forall>p \<in> set (map snd (lt_streams t)). lt_heap t' p = map_option (\<lambda>s. fst (fold (sink_op fmt (os_write (vt_do_write c)) p)
      (round_ops spawn (lt_events t) cycles @ map (Op_log spawn) own) (s, retry_queue t p))) (lt_heap t p))"
proof -
  let ?w = "os_write (vt_do_write c)" and ?ops = "round_ops spawn (lt_events t) cycles"
  have sinks: "\<forall>p \<in> set (map snd (lt_streams t)). \<exists>s s'. lt_heap t p = Some s \<and>
      fold (sink_op fmt ?w p) ?ops (s, retry_queue t p) = (s', [])"
    using assms(6) by blast
  from ending_round [OF assms(1-4) sinks, of own] obtain t1 where
    t1: "do_run_round fmt c spawn (map (\<lambda>(p, tpnow). Env_retry p tpnow) cycles @ map Env_enqueue own) [] t =
      Inr (if own = [] then Return else Continue, t1)" "lt_events t1 = own" "lt_do_terminate t1"
      "lt_streams t1 = lt_streams t" "own \<noteq> [] \<longrightarrow> lt_wf t1 \<and> threads_live t1"
    and view: "\<forall>p \<in> set (map snd (lt_streams t)). retry_queue t1 p = [] \<and> lt_heap t1 p =
      map_option (\<lambda>s. fst (fold (sink_op fmt ?w p) ?ops (s, retry_queue t p))) (lt_heap t p)"
    by blast
  show ?thesis
  proof (cases "own = []")
    case True
    then show ?thesis using t1(1,4) view by simp
  next
    case False
    have live: "lt_wf t1" "threads_live t1" using False t1(5) by blast+
    have ok: "history_ok fmt t1 (round_ops spawn (lt_events t1) [])"
      using history_ok_round [of own fmt "[]" t1 spawn] assms(5) t1(2) by simp
    have sinks1: "\<forall>p \<in> set (map snd (lt_streams t1)). \<exists>s s'. lt_heap t1 p = Some s \<and>
        fold (sink_op fmt ?w p) (round_ops spawn (lt_events t1) []) (s, retry_queue t1 p) = (s', [])"
    proof
      fix p assume "p \<in> set (map snd (lt_streams t1))"
      then have p: "p \<in> set (map snd (lt_streams t))" unfolding t1(4) .
      then obtain s s' s'' where "lt_heap t p = Some s" "fold (sink_op fmt ?w p) ?ops (s, retry_queue t p) = (s', [])"
        "fold (sink_op fmt ?w p) (map (Op_log spawn) own) (s', []) = (s'', [])"
        using assms(6) by blast
      then show "\<exists>s s'. lt_heap t1 p = Some s \<and>
          fold (sink_op fmt ?w p) (round_ops spawn (lt_events t1) []) (s, retry_queue t1 p) = (s', [])"
        using bspec [OF view p] t1(2) by (simp add: round_ops_none)
    qed
    from ending_round [OF live ok t1(3) sinks1, of "[]"] obtain t2 where
      t2: "do_run_round fmt c spawn [] [] t1 = Inr (Return, t2)" "lt_streams t2 = lt_streams t1"
      and view2: "\<forall>p \<in> set (map snd (lt_streams t1)). lt_heap t2 p = map_option (\<lambda>s.
        fst (fold (sink_op fmt ?w p) (round_ops spawn (lt_events t1) []) (s, retry_queue t1 p))) (lt_heap t1 p)"
      by auto
    have "lt_heap t2 p = map_option (\<lambda>s. fst (fold (sink_op fmt ?w p) (?ops @ map (Op_log spawn) own) (s, retry_queue t p)))
        (lt_heap t p)" if p: "p \<in> set (map snd (lt_streams t))" for p
    proof -
      obtain s s' s'' where s: "lt_heap t p = Some s" "fold (sink_op fmt ?w p) ?ops (s, retry_queue t p) = (s', [])"
        "fold (sink_op fmt ?w p) (map (Op_log spawn) own) (s', []) = (s'', [])"
        using assms(6) p by blast
      have "p \<in> set (map snd (lt_streams t1))" using p unfolding t1(4) .
      from bspec [OF view2 this] show ?thesis
        using bspec [OF view p] s t1(2) by (simp add: round_ops_none)
    qed
    then show ?thesis using t1(1,4) t2 False by simp
  qed
qed

subsection \<open>The sinks' own messages\<close>

text \<open>
  The STOMP sink and its socket log through the same logger, as the subsystems \<^verbatim>\<open>stomp\<close> and
  \<^verbatim>\<open>TCPSocket\<close>. What surrounds the log thread: the time format, the compile-time level, the
  subsystems and their filters, the ids of these two, and the name of the function that logs a
  message.
\<close>

record surroundings =
  su_fmt :: "time_point \<Rightarrow> string option"
  su_minlevel :: log_level
  su_logger :: "(stdout_stream + stomp_sink) logger"
  su_stomp :: "32 word"
  su_tcp :: "32 word"
  su_function :: "string \<Rightarrow> string"

definition note_events :: "surroundings \<Rightarrow> time_point \<Rightarrow> 32 word \<Rightarrow> (log_level \<times> string) list \<Rightarrow> log_event list" where
  "note_events su now k notes = concat (map (\<lambda>(l, m). call_event (su_minlevel su) (su_logger su)
     \<lparr>lc_level = l, lc_subsystem = k, lc_message = m, lc_function = su_function su m, lc_time = now\<rparr>) notes)"

text \<open>
  The events of what has been logged between two states of a sink (\<open>stomp_notes\<close>): the messages
  of the socket, which are those of making a connection, come before those of the sink.
\<close>

definition own_events ::
  "surroundings \<Rightarrow> time_point \<Rightarrow> (log_level \<times> string) list \<times> (log_level \<times> string) list \<Rightarrow>
     (log_level \<times> string) list \<times> (log_level \<times> string) list \<Rightarrow> log_event list" where
  "own_events su now n0 n1 =
     note_events su now (su_tcp su) (drop (length (snd n0)) (snd n1)) @
     note_events su now (su_stomp su) (drop (length (fst n0)) (fst n1))"

lemma own_events_time: "e \<in> set (own_events su now n0 n1) \<Longrightarrow> le_time e = now"
  by (auto simp: own_events_def note_events_def call_event_def split: option.splits if_splits)

lemma own_events_none [simp]: "own_events su now n n = []"
  by (simp add: own_events_def note_events_def)

subsection \<open>What the last rounds do to a console and to a message server\<close>

lemma fold_logs:
  assumes "\<forall>e p. spawn e p = None"
  shows "fold (sink_op fmt w p) (map (Op_log spawn) es) sq = fold (sink_log w True) (map (stamp fmt) es) sq"
  using assms by (induction es arbitrary: sq) simp_all

lemma round_ops_fold:
  assumes "\<forall>e p. spawn e p = None"
  shows "fold (sink_op fmt w p) (round_ops spawn es [(p', tpnow)]) sq =
    (let sq1 = fold (sink_log w True) (map (stamp fmt) es) sq in if p = p' then sink_cycle w tpnow sq1 else sq1)"
  by (simp add: round_ops_def fold_logs [OF assms] Let_def)

lemma stamp_level [simp]: "le_level (stamp fmt e) = le_level e"
  by (simp add: stamp_def split: option.split)

lemma reaching_stamp: "reaching l (map (stamp fmt) es) = map (stamp fmt) (reaching l es)"
  by (simp add: filter_map comp_def)

lemma rounds_console:
  assumes "console_open s" "\<forall>e p. spawn e p = None" "p \<noteq> p'"
  shows "\<exists>s' s''. fold (sink_op fmt (os_write (vt_do_write (dispatch stdout_class c2))) p) (round_ops spawn es [(p', tpnow)])
      (upcast Inl s, []) = (upcast Inl s', []) \<and>
    fold (sink_op fmt (os_write (vt_do_write (dispatch stdout_class c2))) p) (map (Op_log spawn) own)
      (upcast Inl s', []) = (upcast Inl s'', []) \<and>
    console_text s'' = console_text s @
      concat (map (stdout_line (os_derived s) \<circ> stamp fmt) (reaching (os_min_level s) (es @ own)))"
proof -
  let ?log = "\<lambda>es. fold (sink_log (os_write stdout_do_write) True) (map (stamp fmt) es)"
  obtain s' where s': "?log es (s, []) = (s', [])"
    using console_open_takes_all [OF assms(1)] by blast
  obtain s'' where s'': "?log (es @ own) (s, []) = (s'', [])"
    "console_text s'' = console_text s @
       concat (map (stdout_line (os_derived s)) (reaching (os_min_level s) (map (stamp fmt) (es @ own))))"
    using console_open_takes_all [OF assms(1)] by blast
  have "?log own (s', []) = (s'', [])" using s' s''(1) by simp
  then have "fold (sink_op fmt (os_write (vt_do_write stdout_class)) p) (round_ops spawn es [(p', tpnow)]) (s, []) = (s', [])"
    "fold (sink_op fmt (os_write (vt_do_write stdout_class)) p) (map (Op_log spawn) own) (s', []) = (s'', [])"
    using s' assms(3) by (simp_all add: round_ops_fold [OF assms(2)] fold_logs [OF assms(2)] stdout_class_def)
  moreover have "console_text s'' = console_text s @
      concat (map (stdout_line (os_derived s) \<circ> stamp fmt) (reaching (os_min_level s) (es @ own)))"
    using s''(2) unfolding reaching_stamp by simp
  ultimately show ?thesis unfolding dispatch_ops by (intro exI [of _ s'] exI [of _ s'']) simp
qed

lemma rounds_stomp:
  assumes "stomp_connecting sp" "\<exists>e \<in> set es. l \<le> le_level e" "idle_call c0"
    and "sc_finish c1 = Some env" "accepts_connection env sp k hs body n"
    and "acks order sp (map (stamp fmt) (reaching l (es @ own))) (c1\<lparr>sc_finish := None\<rparr> # cs)"
    and "\<forall>e p. spawn e p = None"
  shows "\<exists>s' s''. fold (sink_op fmt (os_write (vt_do_write (dispatch c (stomp_class order)))) p) (round_ops spawn es [(p, tpnow)])
      (upcast Inr (new_output_stream l \<lparr>sk_stream = sp, sk_calls = c0 # c1 # cs\<rparr>), []) = (upcast Inr s', []) \<and>
    fold (sink_op fmt (os_write (vt_do_write (dispatch c (stomp_class order)))) p) (map (Op_log spawn) own)
      (upcast Inr s', []) = (upcast Inr s'', []) \<and>
    tcs_sent (sp_socket (sk_stream (os_derived s''))) = tcs_sent (sp_socket sp) @
      to_bytes (connect_frame (sp_URL sp) @ [nul]) # packets order sp (map (stamp fmt) (reaching l (es @ own))) \<and>
    stomp_notes (sk_stream (os_derived s'')) = stomp_notes (connect_thread env sp) \<and>
    sp_connect_thread (sk_stream (os_derived s''))"
proof -
  let ?es = "map (stamp fmt) es" and ?own = "map (stamp fmt) own"
  let ?s0 = "new_output_stream l \<lparr>sk_stream = connect_thread env sp, sk_calls = c1\<lparr>sc_finish := None\<rparr> # cs\<rparr>"
  have s0: "sk_stream (os_derived ?s0) = connect_thread env sp" "sk_calls (os_derived ?s0) = c1\<lparr>sc_finish := None\<rparr> # cs"
    "os_min_level ?s0 = l" by (simp_all add: new_output_stream_def)
  have all: "map (stamp fmt) (reaching l (es @ own)) = reaching l ?es @ reaching l ?own"
    by (simp add: reaching_stamp)
  have some: "\<exists>e \<in> set ?es. l \<le> le_level e" using assms(2) by simp
  have "acks order sp (reaching l ?es) (c1\<lparr>sc_finish := None\<rparr> # cs)"
    using assms(6) unfolding all acks_append by blast
  from stomp_sink_batch [OF assms(1) some assms(3-5) this, of tpnow] obtain s1 s' where
    s': "fold (sink_log (os_write (stomp_sink_write order)) True) ?es
      (new_output_stream l \<lparr>sk_stream = sp, sk_calls = c0 # c1 # cs\<rparr>, []) = (s1, waiting l ?es)"
    "sink_cycle (os_write (stomp_sink_write order)) tpnow (s1, waiting l ?es) = (s', [])"
    "sends order (reaching l ?es) ?s0 s'"
    unfolding stomp_class_def by (simp only: stream_class.simps) blast
  have empty: "sp_reply_queue sp = []" "sp_partial_reply sp = []" using assms(1) by (simp_all add: stomp_connecting_def)
  note conn = connect_thread_accepted [OF assms(5) empty]
  have "acks order (connect_thread env sp) (reaching l ?es @ reaching l ?own) (c1\<lparr>sc_finish := None\<rparr> # cs)"
    using assms(6) acks_cong [OF steady_connect conn(6)] unfolding all by simp
  then have "acks order (sk_stream (os_derived s')) (reaching l ?own) (sk_calls (os_derived s'))"
    using sends_later(2) [OF s'(3)] unfolding s0 by blast
  then obtain s'' where s'': "fold (sink_log (os_write (stomp_sink_write order)) True) ?own (s', []) = (s'', [])"
    "sends order (reaching l ?own) s' s''"
    using fold_sends [OF sends_ready [OF s'(3)], of order ?own] sends_level [OF s'(3)] s0(3) by auto
  have sent: "sends order (reaching l ?es @ reaching l ?own) ?s0 s''" by (rule sends_trans [OF s'(3) s''(2)])
  have "steady (sk_stream (os_derived s'')) = steady sp"
    using sent steady_connect [of env sp] unfolding sends_def s0 by (simp add: Let_def)
  then have "sp_connect_thread (sk_stream (os_derived s''))"
    using assms(1) by (simp add: steady_def stomp_connecting_def)
  moreover have "tcs_sent (sp_socket (sk_stream (os_derived s''))) = tcs_sent (sp_socket sp) @
      to_bytes (connect_frame (sp_URL sp) @ [nul]) # packets order sp (map (stamp fmt) (reaching l (es @ own)))"
    using sent conn(7) packets_cong [OF steady_connect conn(6)] unfolding sends_def s0 all by (simp add: Let_def)
  moreover have "stomp_notes (sk_stream (os_derived s'')) = stomp_notes (connect_thread env sp)"
    using sent unfolding sends_def s0 by (simp add: Let_def)
  moreover have "fold (sink_op fmt (os_write (vt_do_write (stomp_class order))) p) (round_ops spawn es [(p, tpnow)])
      (new_output_stream l \<lparr>sk_stream = sp, sk_calls = c0 # c1 # cs\<rparr>, []) = (s', [])"
    "fold (sink_op fmt (os_write (vt_do_write (stomp_class order))) p) (map (Op_log spawn) own) (s', []) = (s'', [])"
    using s'(1,2) s''(1) by (simp_all add: round_ops_fold [OF assms(7)] fold_logs [OF assms(7)] stomp_class_def)
  ultimately show ?thesis unfolding dispatch_ops by (intro exI [of _ s'] exI [of _ s'']) simp
qed

subsection \<open>The messages of the handler\<close>

text \<open>What the handler logs, in order.\<close>

definition crash_messages :: "gdb_env \<Rightarrow> string list \<Rightarrow> int \<Rightarrow> string list" where
  "crash_messages env bt_syms sig =
     (''SIGNAL '' @ show_int sig @ '' received.'') #
     (if gdb_pipe env \<and> \<not> gdb_in_child env
      then destroy_line_splitter (foldl read_and_forward new_line_splitter (gdb_chunks env)) else []) @
     (if gdb_pipe env \<and> \<not> gdb_in_child env \<and> gdb_status env = 0 then [] else bt_syms)"

text \<open>The log call of a message, for the subsystem's id, the function and the clock.\<close>

definition severe_call :: "32 word \<Rightarrow> string \<Rightarrow> (string \<Rightarrow> time_point) \<Rightarrow> string \<Rightarrow> log_call" where
  "severe_call k fn clock m =
     \<lparr>lc_level = Severe, lc_subsystem = k, lc_message = m, lc_function = fn, lc_time = clock m\<rparr>"

definition log_severe ::
  "log_level \<Rightarrow> 32 word \<Rightarrow> string \<Rightarrow> (string \<Rightarrow> time_point) \<Rightarrow> string \<Rightarrow> 's logger \<Rightarrow> 's logger throws" where
  "log_severe minlevel k fn clock m lg = SuS_LOG minlevel fn (clock m) Severe k m lg"

lemma log_calls_append:
  "log_calls minlevel (xs @ ys) lg = bind_exn (log_calls minlevel xs lg) (log_calls minlevel ys)"
  by (induction xs arbitrary: lg) (auto simp: bind_exn_def split: sum.splits)

lemma log_each_calls:
  "log_each (log_severe minlevel k fn clock) ms lg = log_calls minlevel (map (severe_call k fn clock) ms) lg"
  by (induction ms arbitrary: lg) (auto simp: log_severe_def severe_call_def bind_exn_def split: sum.splits)

lemma bind_exn_assoc: "bind_exn (bind_exn m f) g = bind_exn m (\<lambda>x. bind_exn (f x) g)"
  by (simp add: bind_exn_def split: sum.split)

text \<open>The debugger has written the backtrace, so the handler does not look for one itself.\<close>

definition gdb_ok :: "gdb_env \<Rightarrow> bool" where
  "gdb_ok env \<longleftrightarrow> gdb_pipe env \<and> \<not> gdb_in_child env \<and> gdb_status env = 0"

lemma gdb_backtrace_calls:
  "gdb_backtrace (log_severe minlevel k fn clock) env lg =
     bind_exn (log_calls minlevel (map (severe_call k fn clock) (if gdb_pipe env \<and> \<not> gdb_in_child env
       then destroy_line_splitter (foldl read_and_forward new_line_splitter (gdb_chunks env)) else [])) lg)
     (\<lambda>lg1. Inr (gdb_ok env, lg1))"
  by (auto simp: gdb_backtrace_def gdb_ok_def log_each_calls Let_def)

lemma signal_handler_calls:
  "signal_handler (log_severe minlevel k fn clock) env bt_syms old fmt c rounds sig lg =
     bind_exn (log_calls minlevel (map (severe_call k fn clock) (crash_messages env bt_syms sig)) lg) (\<lambda>lg1.
     bind_exn (logger_terminate fmt c rounds lg1) (\<lambda>(ended, lg2).
       Inr (if \<not> ended then Hangs else if old then Old_handler else Exit_1, ''SIGNAL '' @ show_int sig @ [newline],
         if gdb_ok env then [] else concat (map (\<lambda>s. s @ [newline]) bt_syms), lg2)))"
proof -
  let ?msgs = "if gdb_pipe env \<and> \<not> gdb_in_child env
    then destroy_line_splitter (foldl read_and_forward new_line_splitter (gdb_chunks env)) else []"
  have first: "log_severe minlevel k fn clock m lg0 = log_calls minlevel [severe_call k fn clock m] lg0" for m lg0
    using log_each_calls [of minlevel k fn clock "[m]" lg0] by (simp add: bind_exn_def split: sum.splits)
  have rest: "(if gdb_ok env then Inr lg0 else log_each (log_severe minlevel k fn clock) bt_syms lg0) =
      log_calls minlevel (map (severe_call k fn clock) (if gdb_ok env then [] else bt_syms)) lg0" for lg0
    by (simp add: log_each_calls)
  have msgs: "crash_messages env bt_syms sig = [''SIGNAL '' @ show_int sig @ '' received.''] @ ?msgs @
      (if gdb_ok env then [] else bt_syms)"
    by (simp add: crash_messages_def gdb_ok_def)
  show ?thesis
    unfolding signal_handler_def msgs map_append log_calls_append bind_exn_assoc gdb_backtrace_calls
      first [of "''SIGNAL '' @ show_int sig @ '' received.''"]
    by (simp add: rest del: log_calls.simps)
qed

subsection \<open>A crash loses nothing\<close>

definition crash_event :: "'s logger \<Rightarrow> 32 word \<Rightarrow> string \<Rightarrow> (string \<Rightarrow> time_point) \<Rightarrow> string \<Rightarrow> log_event" where
  "crash_event lg k fn clock m =
     \<lparr>le_level = Severe, le_subsystem = k, le_message = m, le_time = clock m, le_function = fn,
      le_subsystem_string = (case map_find k (lg_subsystems lg) of Some info \<Rightarrow> si_name info | None \<Rightarrow> []),
      le_time_string = []\<rparr>"

lemma severe_top: "l \<le> Severe"
  by (cases l) (simp_all add: level_order)

lemma call_event_severe:
  assumes "map_find k (lg_subsystems lg) \<noteq> None"
  shows "call_event minlevel lg (severe_call k fn clock m) = [crash_event lg k fn clock m]"
  using assms by (auto simp: call_event_def severe_call_def crash_event_def severe_top)

lemma call_events_severe:
  assumes "map_find k (lg_subsystems lg) \<noteq> None"
  shows "concat (map (call_event minlevel lg) (lcs @ map (severe_call k fn clock) ms)) =
    concat (map (call_event minlevel lg) lcs) @ map (crash_event lg k fn clock) ms"
proof -
  have "concat (map (call_event minlevel lg) (map (severe_call k fn clock) ms)) = map (crash_event lg k fn clock) ms"
    by (induction ms) (simp_all add: call_event_severe [OF assms])
  then show ?thesis by simp
qed

lemma filter_severe: "filter (\<lambda>e. l \<le> le_level e) (map (crash_event lg k fn clock) ms) = map (crash_event lg k fn clock) ms"
  by (simp add: filter_map comp_def crash_event_def severe_top)

text \<open>
  The last rounds of a log thread with an open console and a server that accepts the connection;
  \<open>own\<close> arrives in the first of them.
\<close>

lemma two_sinks_end:
  assumes "lt_retry_map t = []" "distinct (map snd (lt_streams t))" "set (map snd (lt_streams t)) = {p1, p2}" "p1 \<noteq> p2"
    and "lt_heap t p1 = Some (upcast Inl s)" "console_open s"
    and "lt_heap t p2 = Some (upcast Inr (new_output_stream l2 \<lparr>sk_stream = sp, sk_calls = c0 # c1 # cs\<rparr>))"
    and "stomp_connecting sp" "\<exists>e \<in> set (lt_events t). l2 \<le> le_level e" "idle_call c0" "sc_finish c1 = Some cenv"
    and "accepts_connection cenv sp kb hs body n"
    and "acks order sp (map (stamp fmt) (reaching l2 (lt_events t @ own))) (c1\<lparr>sc_finish := None\<rparr> # cs)"
    and "\<forall>e \<in> set (lt_events t @ own). fmt (le_time e) \<noteq> None" "\<forall>e p. spawn e p = None" "lt_do_terminate t"
    and writes: "vt_do_write c = vt_do_write (dispatch stdout_class (stomp_class order))"
  shows "\<exists>t' s' sk. do_run fmt c
      [(spawn, Env_retry p2 tpnow # map Env_enqueue own, []), (spawn, [], [])] t = Inr (True, t') \<and>
    lt_streams t' = lt_streams t \<and> lt_heap t' p1 = Some (upcast Inl s') \<and> console_text s' = console_text s @
      concat (map (stdout_line (os_derived s) \<circ> stamp fmt) (reaching (os_min_level s) (lt_events t @ own))) \<and>
    lt_heap t' p2 = Some (upcast Inr sk) \<and> tcs_sent (sp_socket (sk_stream (os_derived sk))) = tcs_sent (sp_socket sp) @
      to_bytes (connect_frame (sp_URL sp) @ [nul]) # packets order sp (map (stamp fmt) (reaching l2 (lt_events t @ own))) \<and>
    stomp_notes (sk_stream (os_derived sk)) = stomp_notes (connect_thread cenv sp) \<and>
    sp_connect_thread (sk_stream (os_derived sk))"
proof -
  let ?w = "os_write (vt_do_write (dispatch stdout_class (stomp_class order)))"
  let ?ops = "round_ops spawn (lt_events t) [(p2, tpnow)]" and ?own = "map (Op_log spawn) own"
  have wf: "lt_wf t" using assms(1,2,3,5,7) by (auto simp: lt_wf_def)
  have times: "\<forall>e \<in> set (lt_events t). fmt (le_time e) \<noteq> None" "\<forall>e \<in> set own. fmt (le_time e) \<noteq> None"
    using assms(14) by simp_all
  have ok: "history_ok fmt t ?ops"
    using history_ok_round [OF times(1), of "[(p2, tpnow)]" t spawn] assms(3) by simp
  obtain s1 s' where s': "fold (sink_op fmt ?w p1) ?ops (upcast Inl s, []) = (upcast Inl s1, [])"
    "fold (sink_op fmt ?w p1) ?own (upcast Inl s1, []) = (upcast Inl s', [])"
    "console_text s' = console_text s @ concat (map (stdout_line (os_derived s) \<circ> stamp fmt)
      (reaching (os_min_level s) (lt_events t @ own)))"
    using rounds_console [OF assms(6,15,4)] by blast
  obtain sk1 sk where sk: "fold (sink_op fmt ?w p2) ?ops
      (upcast Inr (new_output_stream l2 \<lparr>sk_stream = sp, sk_calls = c0 # c1 # cs\<rparr>), []) = (upcast Inr sk1, [])"
    "fold (sink_op fmt ?w p2) ?own (upcast Inr sk1, []) = (upcast Inr sk, [])"
    "tcs_sent (sp_socket (sk_stream (os_derived sk))) = tcs_sent (sp_socket sp) @
      to_bytes (connect_frame (sp_URL sp) @ [nul]) # packets order sp (map (stamp fmt) (reaching l2 (lt_events t @ own)))"
    "stomp_notes (sk_stream (os_derived sk)) = stomp_notes (connect_thread cenv sp)"
    "sp_connect_thread (sk_stream (os_derived sk))"
    using rounds_stomp [OF assms(8-13,15), where c = stdout_class] by blast
  have empty: "retry_queue t p = []" for p by (simp add: retry_queue_def assms(1) map_find_def)
  have sinks: "\<forall>p \<in> set (map snd (lt_streams t)). \<exists>s s' s''. lt_heap t p = Some s \<and>
      fold (sink_op fmt (os_write (vt_do_write c)) p) ?ops (s, retry_queue t p) = (s', []) \<and>
      fold (sink_op fmt (os_write (vt_do_write c)) p) ?own (s', []) = (s'', [])"
    using s'(1,2) sk(1,2) assms(5,7) unfolding assms(3) empty writes by blast
  obtain t' where t': "do_run fmt c [(spawn, Env_retry p2 tpnow # map Env_enqueue own, []), (spawn, [], [])] t = Inr (True, t')"
    "lt_streams t' = lt_streams t"
    "\<forall>p \<in> set (map snd (lt_streams t)). lt_heap t' p =
      map_option (\<lambda>s. fst (fold (sink_op fmt ?w p) (?ops @ ?own) (s, retry_queue t p))) (lt_heap t p)"
    using do_run_ends [OF wf threads_live_empty [OF assms(1)] ok assms(16) times(2) sinks] unfolding writes by auto
  have "lt_heap t' p1 = Some (upcast Inl s')" "lt_heap t' p2 = Some (upcast Inr sk)"
    using t'(3) s'(1,2) sk(1,2) assms(5,7) unfolding assms(3) empty by simp_all
  then show ?thesis using t'(1,2) s'(3) sk(3-5) by blast
qed

text \<open>The destructors: the one of the sink with its connect thread ends the program.\<close>

lemma two_sinks_destroyed:
  assumes "distinct (map snd (lt_streams t))" "set (map snd (lt_streams t)) = {p1, p2}"
    and "lt_heap t p1 = Some (upcast Inl s)" "lt_heap t p2 = Some (upcast Inr sk)" "sp_connect_thread (sk_stream (os_derived sk))"
    and destroys: "vt_destroy c = vt_destroy (dispatch stdout_class (stomp_class order))"
  shows "destroy_log_thread c t = Inl Std_terminate"
proof -
  let ?destroy = "\<lambda>s. vt_destroy c (os_derived s)"
  have "?destroy (upcast Inl s) = Inr (Inl (os_derived s))" "?destroy (upcast Inr sk) = Inl Std_terminate"
    using assms(5) by (simp_all add: destroys dispatch_def upcast_def stdout_class_def stomp_class_def destroy_stomp_stream_def)
  then have "\<forall>p \<in> set (map snd (lt_streams t)). \<exists>s. lt_heap t p = Some s \<and> (?destroy s = Inl Std_terminate \<or> (\<exists>d. ?destroy s = Inr d))"
    "\<exists>p \<in> set (map snd (lt_streams t)). \<exists>s. lt_heap t p = Some s \<and> ?destroy s = Inl Std_terminate"
    using assms(3,4) unfolding assms(2) by auto
  then show ?thesis
    unfolding destroy_log_thread_def using delete_streams_ends [OF assms(1), of t] by meson
qed

text \<open>The calls of the application and of the handler fill the queue; the rest of the handler is the log thread's.\<close>

lemma crash_calls:
  assumes "lg_thread lg = Some t" "\<forall>lc \<in> set lcs. call_known lg lc" "map_find k (lg_subsystems lg) \<noteq> None"
  shows "\<exists>lg1. log_calls minlevel lcs lg = Inr lg1 \<and>
    log_each (log_severe minlevel k fn clock) ms lg1 = Inr (lg\<lparr>lg_thread := Some (fold lt_enqueue
      (concat (map (call_event minlevel lg) lcs) @ map (crash_event lg k fn clock) ms) t)\<rparr>)"
proof -
  let ?lcs = "lcs @ map (severe_call k fn clock) ms"
  have "\<forall>lc \<in> set ?lcs. call_known lg lc" using assms(2,3) by (auto simp: call_known_def severe_call_def)
  then have "log_calls minlevel ?lcs lg = Inr (lg\<lparr>lg_thread := Some (fold lt_enqueue
      (concat (map (call_event minlevel lg) lcs) @ map (crash_event lg k fn clock) ms) t)\<rparr>)"
    using log_calls_enqueue [of ?lcs lg t minlevel] assms(1) unfolding call_events_severe [OF assms(3)] by blast
  then show ?thesis unfolding log_calls_append log_each_calls by auto
qed

lemma handler_deletes:
  assumes "log_each (log_severe minlevel k fn clock) (crash_messages env bt_syms sig) lg1 = Inr lg2"
    and "lg_thread lg2 = Some t2" "do_run fmt c rounds (lt_terminate t2) = Inr (True, t3)"
  shows "signal_handler (log_severe minlevel k fn clock) env bt_syms old fmt c rounds sig lg1 =
    bind_exn (destroy_log_thread c t3) (\<lambda>_. Inr (if old then Old_handler else Exit_1,
      ''SIGNAL '' @ show_int sig @ [newline], if gdb_ok env then [] else concat (map (\<lambda>s. s @ [newline]) bt_syms),
      lg2\<lparr>lg_thread := None\<rparr>))"
  using assms unfolding log_each_calls signal_handler_calls
  by (simp add: logger_terminate_def bind_exn_def del: do_run.simps split: sum.split)

lemma crash_times:
  assumes "\<forall>lc \<in> set lcs. su_fmt su (lc_time lc) \<noteq> None" "\<forall>m. su_fmt su (clock m) \<noteq> None" "su_fmt su tpnow \<noteq> None"
    and "e \<in> set (concat (map (call_event minlevel lg) lcs) @ map (crash_event lg k fn clock) ms @ own_events su tpnow n0 n1)"
  shows "su_fmt su (le_time e) \<noteq> None"
proof -
  consider "e \<in> set (concat (map (call_event minlevel lg) lcs))" | m where "e = crash_event lg k fn clock m"
    | "e \<in> set (own_events su tpnow n0 n1)"
    using assms(4) by auto
  then show ?thesis
  proof cases
    case 1
    then show ?thesis using assms(1) by (auto simp: call_event_def split: option.splits if_splits)
  next
    case (2 m)
    then show ?thesis using assms(2) by (simp add: crash_event_def)
  next
    case 3
    then show ?thesis using assms(3) own_events_time by auto
  qed
qed

text \<open>
  C2. A crash loses nothing, on any kind of sink that works, and yet the handler does not come to
  its end: an application has logged to an open console and to a message server whose connection
  is still being made when a signal arrives. The handler logs the signal and the backtrace and
  asks the log thread to terminate. When the main loop returns, what was queued, every message of
  the application that passes the filters, the signal and the whole backtrace are on the console,
  as lines in the order of the calls, and have been sent to the server, one acknowledged packet
  each and in the same order; behind them is what the sink itself has logged about its connection
  meanwhile, and it logs nothing else. No threshold can suppress the messages of the handler.
  \<^verbatim>\<open>logger::terminate\<close> then deletes the log thread and with it the sinks in exactly this state:
  if their destructors return, the handler calls the old handler or ends with \<^verbatim>\<open>exit(1)\<close>. But
  nobody has joined the connect thread of the sink that works, so with the code's destructors
  the program ends in \<^verbatim>\<open>std::terminate\<close>. (\<open>c\<close> is any class that writes as the two sinks do.)
\<close>

theorem crash_loses_nothing:
  assumes "lg_thread lg = Some t" "lt_retry_map t = []" "distinct (map snd (lt_streams t))"
    and "set (map snd (lt_streams t)) = {p1, p2}" "p1 \<noteq> p2"
    and "lt_heap t p1 = Some (upcast Inl s)" "console_open s"
    and "lt_heap t p2 = Some (upcast Inr (new_output_stream l2 \<lparr>sk_stream = sp, sk_calls = c0 # c1 # cs\<rparr>))"
    and "new_stomp_stream order app_name URL hostname user = Inr sp"
    and "\<forall>lc \<in> set lcs. call_known lg lc \<and> su_fmt su (lc_time lc) \<noteq> None" "map_find k (lg_subsystems lg) \<noteq> None"
    and "\<forall>e \<in> set (lt_events t). su_fmt su (le_time e) \<noteq> None" "\<forall>m. su_fmt su (clock m) \<noteq> None" "su_fmt su tpnow \<noteq> None"
    and "lg_subsystems (su_logger su) = lg_subsystems lg" "map_find (su_stomp su) (lg_subsystems lg) \<noteq> None"
    and "map_find (su_tcp su) (lg_subsystems lg) \<noteq> None" "\<forall>e p. spawn e p = None"
    and "idle_call c0" "sc_finish c1 = Some cenv" "accepts_connection cenv sp kb hs body n"
    and "acks order sp (map (stamp (su_fmt su)) (reaching l2 (lt_events t @ concat (map (call_event (su_minlevel su) lg) lcs)) @
      map (crash_event lg k fn clock) (crash_messages env bt_syms sig) @
      reaching l2 (own_events su tpnow (stomp_notes sp) (stomp_notes (connect_thread cenv sp))))) (c1\<lparr>sc_finish := None\<rparr> # cs)"
    and "vt_do_write c = vt_do_write (dispatch stdout_class (stomp_class order))"
  shows "let fmt = su_fmt su;
      own = own_events su tpnow (stomp_notes sp) (stomp_notes (connect_thread cenv sp));
      rounds = [(spawn, Env_retry p2 tpnow # map Env_enqueue own, []), (spawn, [], [])];
      logged = lt_events t @ concat (map (call_event (su_minlevel su) lg) lcs);
      crash = map (crash_event lg k fn clock) (crash_messages env bt_syms sig);
      handler = signal_handler (log_severe (su_minlevel su) k fn clock) env bt_syms old fmt c rounds sig
    in \<exists>lg1 lg2 t2 t3 s' sk. log_calls (su_minlevel su) lcs lg = Inr lg1 \<and>
      log_each (log_severe (su_minlevel su) k fn clock) (crash_messages env bt_syms sig) lg1 = Inr lg2 \<and>
      lg_thread lg2 = Some t2 \<and> lt_events t2 = logged @ crash \<and> do_run fmt c rounds (lt_terminate t2) = Inr (True, t3) \<and>
      lt_heap t3 p1 = Some (upcast Inl s') \<and> console_text s' = console_text s @
        concat (map (stdout_line (os_derived s) \<circ> stamp fmt)
          (reaching (os_min_level s) logged @ crash @ reaching (os_min_level s) own)) \<and>
      lt_heap t3 p2 = Some (upcast Inr sk) \<and> tcs_sent (sp_socket (sk_stream (os_derived sk))) =
        to_bytes (connect_frame (sp_URL sp) @ [nul]) #
        packets order sp (map (stamp fmt) (reaching l2 logged @ crash @ reaching l2 own)) \<and>
      stomp_notes (sk_stream (os_derived sk)) = stomp_notes (connect_thread cenv sp) \<and>
      handler lg1 = bind_exn (destroy_log_thread c t3) (\<lambda>_. Inr (if old then Old_handler else Exit_1,
        ''SIGNAL '' @ show_int sig @ [newline], if gdb_ok env then [] else concat (map (\<lambda>s. s @ [newline]) bt_syms),
        lg2\<lparr>lg_thread := None\<rparr>)) \<and>
      (vt_destroy c = vt_destroy (dispatch stdout_class (stomp_class order)) \<longrightarrow> handler lg1 = Inl Std_terminate)"
proof -
  let ?fmt = "su_fmt su" and ?minlevel = "su_minlevel su"
  let ?own = "own_events su tpnow (stomp_notes sp) (stomp_notes (connect_thread cenv sp))"
  let ?rounds = "[(spawn, Env_retry p2 tpnow # map Env_enqueue ?own, []), (spawn, [], [])]"
  let ?msgs = "crash_messages env bt_syms sig"
  let ?logged = "concat (map (call_event (su_minlevel su) lg) lcs)" and ?crash = "map (crash_event lg k fn clock) (crash_messages env bt_syms sig)"
  define t2 where "t2 = fold lt_enqueue (?logged @ ?crash) t"
  define lg2 where "lg2 = lg\<lparr>lg_thread := Some t2\<rparr>"
  have t2: "lt_events t2 = (lt_events t @ ?logged) @ ?crash" "lt_streams t2 = lt_streams t" "lt_retry_map t2 = []"
    "lt_heap t2 = lt_heap t"
    using assms(2) by (simp_all add: t2_def fold_lt_enqueue)
  obtain lg1 where lg1: "log_calls ?minlevel lcs lg = Inr lg1" "log_each (log_severe ?minlevel k fn clock) ?msgs lg1 = Inr lg2"
    using crash_calls [OF assms(1) _ assms(11)] assms(10) unfolding lg2_def t2_def by blast
  have times: "\<forall>e \<in> set (lt_events t2 @ ?own). ?fmt (le_time e) \<noteq> None"
    using crash_times [OF _ assms(13,14)] assms(10,12) unfolding t2(1) set_append by blast
  have severe: "\<exists>e \<in> set (lt_events t2). l2 \<le> le_level e"
    unfolding t2(1) by (rule bexI [of _ "crash_event lg k fn clock (hd ?msgs)"])
      (simp_all add: crash_event_def crash_messages_def severe_top)
  have part: "reaching l (lt_events t2 @ ?own) = reaching l (lt_events t @ ?logged) @ ?crash @ reaching l ?own" for l
    unfolding t2(1) filter_append filter_severe append_assoc ..
  note new = new_stomp_connecting [OF assms(9)]
  have ready: "lt_retry_map (lt_terminate t2) = []" "lt_streams (lt_terminate t2) = lt_streams t"
    "lt_heap (lt_terminate t2) = lt_heap t" "lt_events (lt_terminate t2) = lt_events t2" "lt_do_terminate (lt_terminate t2)"
    using t2 by (simp_all add: lt_terminate_def)
  have streams: "distinct (map snd (lt_streams (lt_terminate t2)))" "set (map snd (lt_streams (lt_terminate t2))) = {p1, p2}"
    "lt_heap (lt_terminate t2) p1 = Some (upcast Inl s)"
    "lt_heap (lt_terminate t2) p2 = Some (upcast Inr (new_output_stream l2 \<lparr>sk_stream = sp, sk_calls = c0 # c1 # cs\<rparr>))"
    unfolding ready by (rule assms(3,4,6,8))+
  note queued = severe [folded ready(4)] times [folded ready(4)] part [folded ready(4)]
  have acks: "acks order sp (map (stamp ?fmt) (reaching l2 (lt_events (lt_terminate t2) @ ?own))) (c1\<lparr>sc_finish := None\<rparr> # cs)"
    unfolding queued(3) by (rule assms(22))
  obtain t3 s' sk where t3: "do_run ?fmt c ?rounds (lt_terminate t2) = Inr (True, t3)" "lt_streams t3 = lt_streams (lt_terminate t2)"
    and sinks: "lt_heap t3 p1 = Some (upcast Inl s')" "console_text s' = console_text s @
      concat (map (stdout_line (os_derived s) \<circ> stamp ?fmt) (reaching (os_min_level s) (lt_events (lt_terminate t2) @ ?own)))"
    "lt_heap t3 p2 = Some (upcast Inr sk)" "tcs_sent (sp_socket (sk_stream (os_derived sk))) = tcs_sent (sp_socket sp) @
      to_bytes (connect_frame (sp_URL sp) @ [nul]) #
      packets order sp (map (stamp ?fmt) (reaching l2 (lt_events (lt_terminate t2) @ ?own)))"
    "stomp_notes (sk_stream (os_derived sk)) = stomp_notes (connect_thread cenv sp)"
    "sp_connect_thread (sk_stream (os_derived sk))"
    using two_sinks_end [where tpnow = tpnow, OF ready(1) streams(1,2) assms(5) streams(3) assms(7) streams(4) new(1)
        queued(1) assms(19-21) acks queued(2) assms(18) ready(5) assms(23)] by blast
  have thread: "lg_thread lg2 = Some t2" by (simp add: lg2_def)
  note handler = handler_deletes [OF lg1(2) thread t3(1)]
  have "signal_handler (log_severe ?minlevel k fn clock) env bt_syms old ?fmt c ?rounds sig lg1 = Inl Std_terminate"
    if "vt_destroy c = vt_destroy (dispatch stdout_class (stomp_class order))"
    unfolding handler two_sinks_destroyed [OF streams(1,2) [folded t3(2)] sinks(1,3,6) that] by simp
  then show ?thesis
    using lg1 thread handler t3(1) sinks(1-5) t2(1) unfolding Let_def queued(3) new(3) append_Nil by blast
qed

subsection \<open>The STOMP example (examples/stomp/stomp.cpp)\<close>

text \<open>
  The program of the example up to its segmentation fault: \<open>p\<close> is the address of the new
  message-server sink, \<open>k\<close> the id of the subsystem \<^verbatim>\<open>example\<close>, \<open>clock\<close> the time of the
  n-th log call, \<open>vsn\<close> what \<^verbatim>\<open>vsnprintf\<close> does for the one formatted message.
\<close>

definition main_name :: string where "main_name = ''int main()''"

fun example_loop ::
  "log_level \<Rightarrow> (nat \<Rightarrow> time_point) \<Rightarrow> 32 word \<Rightarrow> nat list \<Rightarrow> 's logger \<Rightarrow> 's logger throws" where
  "example_loop minlevel clock k [] lg = Inr lg"
| "example_loop minlevel clock k (x # xs) lg =
     bind_exn (SuS_LOG_STREAM minlevel main_name (clock (4 + 2 * x)) Fine k [show_nat x] lg) (\<lambda>lg.
     bind_exn (SuS_LOG_STREAM minlevel main_name (clock (5 + 2 * x)) Info k [''info: '', show_nat x] lg) (\<lambda>lg.
       example_loop minlevel clock k xs lg))"

definition example_main ::
  "log_level \<Rightarrow> (nat \<Rightarrow> time_point) \<Rightarrow> (int \<Rightarrow> int \<times> string) \<Rightarrow> 's stream_class \<Rightarrow> nat \<Rightarrow> 32 word \<Rightarrow>
     's logger \<Rightarrow> 's logger throws" where
  "example_main minlevel clock vsn c p k lg =
     bind_exn (add_output_stream c p [] lg) (\<lambda>lg.
     bind_exn (SuS_LOG_STREAM minlevel main_name (clock 0) Config k [''Hallo Welt.''] lg) (\<lambda>lg.
     bind_exn (SuS_LOG_STREAM minlevel main_name (clock 1) Finer k [''1 + 1 = '', show_nat (1 + 1)] lg) (\<lambda>lg.
     bind_exn (SuS_LOG_PRINTF minlevel main_name (clock 2) Fine k vsn lg) (\<lambda>lg.
     bind_exn (SuS_LOG_STREAM minlevel main_name (clock 3) Severe k [''Oh NO!''] lg) (\<lambda>lg.
     bind_exn (example_loop minlevel clock k [0..<10] lg) (\<lambda>lg.
       SuS_LOG_STREAM minlevel main_name (clock 24) Warning k [''final''] lg))))))"

text \<open>The same as a list of log calls.\<close>

definition main_call :: "(nat \<Rightarrow> time_point) \<Rightarrow> 32 word \<Rightarrow> nat \<times> log_level \<times> string \<Rightarrow> log_call" where
  "main_call clock k = (\<lambda>(i, l, m).
     \<lparr>lc_level = l, lc_subsystem = k, lc_message = m, lc_function = main_name, lc_time = clock i\<rparr>)"

definition loop_lines :: "nat list \<Rightarrow> (nat \<times> log_level \<times> string) list" where
  "loop_lines xs = concat (map (\<lambda>x. [(4 + 2 * x, Fine, concat [show_nat x]),
     (5 + 2 * x, Info, concat [''info: '', show_nat x])]) xs)"

definition example_lines :: "(nat \<times> log_level \<times> string) list" where
  "example_lines =
     (0, Config, concat [''Hallo Welt.'']) # (1, Finer, concat [''1 + 1 = '', show_nat (1 + 1)]) #
     (2, Fine, concat [''3 * 3 = 9'']) # (3, Severe, concat [''Oh NO!'']) #
     loop_lines [0..<10] @ [(24, Warning, concat [''final''])]"

lemma log_calls_one:
  "log_calls minlevel (main_call clock k (i, l, concat ms) # lcs) =
     (\<lambda>lg. bind_exn (SuS_LOG_STREAM minlevel main_name (clock i) l k ms lg) (log_calls minlevel lcs))"
  by (simp add: main_call_def SuS_LOG_def SuS_LOG_STREAM_def fun_eq_iff)

lemma log_calls_none: "log_calls minlevel [] = Inr" "bind_exn m Inr = m"
  by (simp_all add: fun_eq_iff bind_exn_def split: sum.split)

lemma example_loop_calls:
  "example_loop minlevel clock k xs = log_calls minlevel (map (main_call clock k) (loop_lines xs))"
proof (induction xs)
  case (Cons x xs)
  have "loop_lines (x # xs) = (4 + 2 * x, Fine, concat [show_nat x]) #
      (5 + 2 * x, Info, concat [''info: '', show_nat x]) # loop_lines xs"
    unfolding loop_lines_def by simp
  then show ?case by (intro ext) (simp only: list.map(2) log_calls_one example_loop.simps Cons.IH)
qed (simp add: loop_lines_def fun_eq_iff)

lemma example_main_calls:
  assumes "string_format vsn = Inr ''3 * 3 = 9''"
  shows "example_main minlevel clock vsn c p k lg =
    bind_exn (add_output_stream c p [] lg) (log_calls minlevel (map (main_call clock k) example_lines))"
proof -
  have printf: "SuS_LOG_PRINTF minlevel main_name n Fine k vsn lg =
      SuS_LOG_STREAM minlevel main_name n Fine k [''3 * 3 = 9''] lg" for n lg
    using assms by (simp add: SuS_LOG_PRINTF_def SuS_LOG_STREAM_def)
  have calls: "log_calls minlevel (map (main_call clock k) (loop_lines xs @ [(24, Warning, concat [''final''])])) =
      (\<lambda>lg. bind_exn (example_loop minlevel clock k xs lg)
        (\<lambda>lg. SuS_LOG_STREAM minlevel main_name (clock 24) Warning k [''final''] lg))" for xs
    unfolding map_append list.map log_calls_append example_loop_calls log_calls_one log_calls_none fun_eq_iff by (intro allI refl)
  show ?thesis
    unfolding example_main_def example_lines_def list.map(2) log_calls_one printf calls ..
qed

text \<open>
  The logger before \<^verbatim>\<open>main\<close>: the subsystems of the four source files. Then \<^verbatim>\<open>new\<close> has made the sink
  at 2, whose constructor has started the connect thread and logged that.
\<close>

definition static_logger :: "(stdout_stream + stomp_sink) logger" where
  "static_logger = snd (register_all Finest [''example'', ''logger'', ''stomp'', ''TCPSocket''] (new_logger 1 (upcast Inl open_console)))"

definition example_surroundings :: surroundings where
  "example_surroundings = \<lparr>su_fmt = fmt_now, su_minlevel = Finest, su_logger = static_logger,
     su_stomp = 2, su_tcp = 3, su_function = (\<lambda>_. ''connect'')\<rparr>"

definition constructed :: "stomp_stream \<Rightarrow> log_event list" where
  "constructed sp = own_events example_surroundings 0 ([], []) (stomp_notes sp)"

definition example_logger ::
  "(stdout_stream + stomp_sink) output_stream \<Rightarrow> log_event list \<Rightarrow> (stdout_stream + stomp_sink) logger" where
  "example_logger server es = static_logger\<lparr>lg_thread :=
     map_option (\<lambda>t. t\<lparr>lt_heap := (lt_heap t)(2 \<mapsto> server), lt_events := es\<rparr>) (lg_thread static_logger)\<rparr>"

lemma static_logger_fields:
  "lg_thread static_logger = Some (new_log_thread 1 (upcast Inl open_console))"
  "lg_subsystems static_logger =
     [(0, \<lparr>si_name = ''example'', si_min_level = Finest\<rparr>), (1, \<lparr>si_name = ''logger'', si_min_level = Finest\<rparr>),
      (2, \<lparr>si_name = ''stomp'', si_min_level = Finest\<rparr>), (3, \<lparr>si_name = ''TCPSocket'', si_min_level = Finest\<rparr>)]"
  by (simp_all add: static_logger_def new_subsystem_registrator_def registrator_call_def register_subsystem_def
      find_subsystem_def new_logger_def Let_def)

lemma example_logger_thread:
  "lg_thread (example_logger server es) = Some ((new_log_thread 1 (upcast Inl open_console))
     \<lparr>lt_heap := [1 \<mapsto> upcast Inl open_console, 2 \<mapsto> server], lt_events := es\<rparr>)"
  "lg_subsystems (example_logger server es) = lg_subsystems static_logger"
  by (simp_all add: example_logger_def static_logger_fields new_log_thread_def)

definition example_clock :: "nat \<Rightarrow> time_point" where "example_clock n = int n * ns_per_s"

definition example_vsn :: "int \<Rightarrow> int \<times> string" where "example_vsn n = (9, ''3 * 3 = 9'')"

text \<open>The events of the program and of the handler (no debugger, one frame of backtrace).\<close>

definition example_events :: "log_event list" where
  "example_events = map (\<lambda>(i, l, m). \<lparr>le_level = l, le_subsystem = 0, le_message = m, le_time = example_clock i,
     le_function = main_name, le_subsystem_string = ''example'', le_time_string = []\<rparr>) example_lines"

definition example_crash :: "log_event list" where
  "example_crash = map (\<lambda>m. \<lparr>le_level = Severe, le_subsystem = 1, le_message = m, le_time = 25 * ns_per_s,
     le_function = ''handler'', le_subsystem_string = ''logger'', le_time_string = []\<rparr>)
     [''SIGNAL 11 received.'', ''main'']"

definition no_gdb :: gdb_env where
  "no_gdb = \<lparr>gdb_pipe = False, gdb_in_child = False, gdb_chunks = [], gdb_status = 0\<rparr>"

lemma example_URL:
  "parse_URL ''sussrv04.ziti.uni-heidelberg.de'' default_URL =
     Inr (default_URL\<lparr>url_host := ''sussrv04.ziti.uni-heidelberg.de''\<rparr>)"
  by code_simp

lemma packets_length: "length (packets order sp es) = length es"
  by (induction es arbitrary: sp) simp_all

lemma example_crash_messages: "crash_messages no_gdb [''main''] 11 = [''SIGNAL 11 received.'', ''main'']"
proof -
  have "show_int 11 = ''11''" by code_simp
  then show ?thesis by (simp add: crash_messages_def no_gdb_def)
qed

lemma example_call_events:
  assumes "map_find 0 (lg_subsystems lg) = Some \<lparr>si_name = ''example'', si_min_level = Finest\<rparr>"
  shows "concat (map (call_event Finest lg) (map (main_call example_clock 0) example_lines)) = example_events"
proof -
  have "concat (map (call_event Finest lg) (map (main_call example_clock 0) xs)) =
      map (\<lambda>(i, l, m). \<lparr>le_level = l, le_subsystem = 0, le_message = m, le_time = example_clock i,
        le_function = main_name, le_subsystem_string = ''example'', le_time_string = []\<rparr>) xs" for xs
    by (induction xs) (auto simp: call_event_def main_call_def assms Finest_least)
  then show ?thesis by (simp only: example_events_def)
qed

lemma example_add_stream:
  "\<exists>t. add_output_stream c 2 [] (example_logger server es) =
      Inr ((example_logger server es)\<lparr>lg_thread := Some t\<rparr>) \<and> lt_events t = es \<and> lt_retry_map t = [] \<and>
    distinct (map snd (lt_streams t)) \<and> set (map snd (lt_streams t)) = {1, 2} \<and>
    lt_heap t = [1 \<mapsto> upcast Inl open_console, 2 \<mapsto> server]"
  if "vt_name c (os_derived server) \<noteq> ''stdout''"
  using that by (auto simp: add_output_stream_def example_logger_thread new_log_thread_def)

text \<open>
  The example: the message of the constructor, 25 messages of \<^verbatim>\<open>main\<close>, the signal and the
  backtrace, and what the connect thread has logged reach the console and the server.
\<close>

theorem crash_loses_nothing_witness:
  "\<exists>sp cenv lg1 lg2 t2 t3 s' sk server own rounds.
     new_stomp_stream replacements ''app'' ''sussrv04.ziti.uni-heidelberg.de'' None None = Inr sp \<and>
     own = own_events example_surroundings (30 * ns_per_s) (stomp_notes sp) (stomp_notes (connect_thread cenv sp)) \<and>
     example_main Finest example_clock example_vsn (dispatch stdout_class (stomp_class replacements)) 2 0
       (example_logger server (constructed sp)) = Inr lg1 \<and>
     log_each (log_severe Finest 1 ''handler'' (\<lambda>_. 25 * ns_per_s)) (crash_messages no_gdb [''main''] 11) lg1 = Inr lg2 \<and>
     lg_thread lg2 = Some t2 \<and>
     do_run fmt_now (dispatch stdout_class (stomp_class replacements)) rounds (lt_terminate t2) = Inr (True, t3) \<and>
     lt_heap t3 1 = Some (upcast Inl s') \<and> console_text s' = concat (map (stdout_line (os_derived open_console) \<circ> stamp fmt_now)
       (constructed sp @ example_events @ example_crash @ own)) \<and>
     lt_heap t3 2 = Some (upcast Inr sk) \<and> tcs_sent (sp_socket (sk_stream (os_derived sk))) =
       to_bytes (connect_frame (sp_URL sp) @ [nul]) #
       packets replacements sp (map (stamp fmt_now) (constructed sp @ example_events @ example_crash @ own)) \<and>
     signal_handler (log_severe Finest 1 ''handler'' (\<lambda>_. 25 * ns_per_s)) no_gdb [''main''] False fmt_now
       (dispatch stdout_class (stomp_class replacements)) rounds 11 lg1 = Inl Std_terminate"
proof -
  let ?c = "dispatch stdout_class (stomp_class replacements)" and ?su = example_surroundings
  obtain sp where sp: "new_stomp_stream replacements ''app'' ''sussrv04.ziti.uni-heidelberg.de'' None None = Inr sp"
    "\<not> tcs_connected (sp_socket sp)" "\<not> tcs_use_socks (sp_socket sp)" "\<not> tcs_use_ssl (sp_socket sp)"
    using new_stomp_plain [OF example_URL, where order = replacements and app_name = "''app''" and
        hostname = None and user = None] by (auto simp: default_URL_def)
  define cenv where "cenv = sample_connect (sp_URL sp)"
  define own where "own = own_events ?su (30 * ns_per_s) (stomp_notes sp) (stomp_notes (connect_thread cenv sp))"
  let ?es = "map (stamp fmt_now) ((constructed sp @ example_events) @ example_crash @ own)"
  obtain first rest where es: "?es = first # rest"
    by (cases ?es) (simp_all add: example_events_def example_lines_def)
  define c1 where "c1 = answer replacements (Some cenv) sp first"
  define cs where "cs = answer_each replacements (sp\<lparr>sp_receipt := sp_receipt sp + 1\<rparr>) rest"
  have acks: "acks replacements sp ?es (c1\<lparr>sc_finish := None\<rparr> # cs)"
    using acks_answers [of replacements sp "first # rest"]
    unfolding es c1_def cs_def answer_finish answer_each.simps .
  define server where "server = upcast (Inr :: stomp_sink \<Rightarrow> stdout_stream + stomp_sink)
    (new_output_stream Finest \<lparr>sk_stream = sp, sk_calls = idle # c1 # cs\<rparr>)"
  have name: "vt_name ?c (os_derived server) \<noteq> ''stdout''"
    by (simp add: dispatch_def server_def upcast_def new_output_stream_def stomp_class_def stomp_name_def)
  obtain t where t: "add_output_stream ?c 2 [] (example_logger server (constructed sp)) =
      Inr ((example_logger server (constructed sp))\<lparr>lg_thread := Some t\<rparr>)"
    "lt_events t = constructed sp" "lt_retry_map t = []" "distinct (map snd (lt_streams t))" "set (map snd (lt_streams t)) = {1, 2}"
    "lt_heap t = [1 \<mapsto> upcast Inl open_console, 2 \<mapsto> server]"
    using example_add_stream [OF name] by blast
  define lg where "lg = (example_logger server (constructed sp))\<lparr>lg_thread := Some t\<rparr>"
  have lg: "lg_thread lg = Some t" "map_find 0 (lg_subsystems lg) = Some \<lparr>si_name = ''example'', si_min_level = Finest\<rparr>"
    "map_find 1 (lg_subsystems lg) = Some \<lparr>si_name = ''logger'', si_min_level = Finest\<rparr>"
    by (simp_all add: lg_def example_logger_thread static_logger_fields map_find_def)
  let ?lcs = "map (main_call example_clock 0) example_lines"
  have heap: "lt_heap t 1 = Some (upcast Inl open_console)"
    "lt_heap t 2 = Some (upcast Inr (new_output_stream Finest \<lparr>sk_stream = sp, sk_calls = idle # c1 # cs\<rparr>))"
    by (simp_all add: t(6) server_def)
  have open_c: "console_open open_console" "console_text open_console = []" "os_min_level open_console = Finest"
    by (simp_all add: console_open_def console_text_def open_console_def)
  have su: "su_fmt ?su = fmt_now" "su_minlevel ?su = Finest" "lg_subsystems (su_logger ?su) = lg_subsystems lg"
    "map_find (su_stomp ?su) (lg_subsystems lg) \<noteq> None" "map_find (su_tcp ?su) (lg_subsystems lg) \<noteq> None"
    by (simp_all add: example_surroundings_def lg_def example_logger_thread static_logger_fields map_find_def)
  have now: "fmt_now time \<noteq> None" for time by (simp add: fmt_now_def)
  have known: "\<forall>lc \<in> set ?lcs. call_known lg lc \<and> su_fmt ?su (lc_time lc) \<noteq> None"
    by (auto simp: call_known_def main_call_def lg(2) su(1) fmt_now_def)
  have crash: "map (crash_event lg 1 ''handler'' (\<lambda>_. 25 * ns_per_s)) (crash_messages no_gdb [''main''] 11) = example_crash"
    by (simp add: example_crash_messages crash_event_def example_crash_def lg(3))
  have all: "filter (\<lambda>e. Finest \<le> le_level e) xs = xs" for xs by (simp add: Finest_least)
  have other: "map_find 1 (lg_subsystems lg) \<noteq> None" "\<forall>e \<in> set (lt_events t). su_fmt ?su (le_time e) \<noteq> None"
    "\<forall>m::string. su_fmt ?su ((\<lambda>_. 25 * ns_per_s) m) \<noteq> None" "su_fmt ?su (30 * ns_per_s) \<noteq> None"
    "\<forall>e p. no_spawn_error e p = None" "idle_call idle" "sc_finish c1 = Some cenv"
    by (simp_all add: lg(3) su(1) now no_spawn_error_def idle_call_def idle_def c1_def answer_def)
  have accepts: "accepts_connection cenv sp 0 [(''version'', ''1.1'')] [] 0"
    unfolding cenv_def by (rule sample_accepts [OF sp(2-4)])
  have "(1 :: nat) \<noteq> 2" by simp
  from crash_loses_nothing [where env = no_gdb and bt_syms = "[''main'']" and sig = 11 and
      fn = "''handler''" and clock = "\<lambda>_. 25 * ns_per_s" and tpnow = "30 * ns_per_s" and old = False and spawn = no_spawn_error,
      OF lg(1) t(3-5) this heap(1) open_c(1) heap(2) sp(1) known other(1-4) su(3-5) other(5-7) accepts,
      unfolded su(1,2) t(2) example_call_events [OF lg(2)] crash all open_c(2,3) Let_def, folded own_def, OF acks refl]
  obtain lg1 lg2 t2 t3 s' sk where result: "log_calls Finest ?lcs lg = Inr lg1"
    "log_each (log_severe Finest 1 ''handler'' (\<lambda>_. 25 * ns_per_s)) (crash_messages no_gdb [''main''] 11) lg1 = Inr lg2"
    "lg_thread lg2 = Some t2" "lt_events t2 = (constructed sp @ example_events) @ example_crash"
    "do_run fmt_now ?c [(no_spawn_error, Env_retry 2 (30 * ns_per_s) # map Env_enqueue own, []), (no_spawn_error, [], [])]
       (lt_terminate t2) = Inr (True, t3)"
    "lt_heap t3 1 = Some (upcast Inl s')" "console_text s' =
       [] @ concat (map (stdout_line (os_derived open_console) \<circ> stamp fmt_now) ((constructed sp @ example_events) @ example_crash @ own))"
    "lt_heap t3 2 = Some (upcast Inr sk)" "tcs_sent (sp_socket (sk_stream (os_derived sk))) =
       to_bytes (connect_frame (sp_URL sp) @ [nul]) # packets replacements sp ?es"
    "vt_destroy ?c = vt_destroy ?c \<longrightarrow>
     signal_handler (log_severe Finest 1 ''handler'' (\<lambda>_. 25 * ns_per_s)) no_gdb [''main''] False fmt_now ?c
       [(no_spawn_error, Env_retry 2 (30 * ns_per_s) # map Env_enqueue own, []), (no_spawn_error, [], [])] 11 lg1 =
     Inl Std_terminate"
    by (elim exE conjE) (rule that)
  note ends = mp [OF result(10) refl]
  have "string_format example_vsn = Inr ''3 * 3 = 9''"
    by (simp add: string_format_def string_format_loop.simps [of _ 100] example_vsn_def)
  from example_main_calls [OF this, of Finest example_clock ?c 2 0 "example_logger server (constructed sp)"]
  have "example_main Finest example_clock example_vsn ?c 2 0 (example_logger server (constructed sp)) = Inr lg1"
    using t(1) result(1) by (simp add: lg_def)
  then show ?thesis
    using sp(1) own_def result(2,3,5-9) ends unfolding append_Nil append_assoc by metis
qed

end
