(* ===== verification/Unreachable_Server.thy ===== *)
theory Unreachable_Server
  imports Crash_Handler
begin

section \<open>A message server that cannot be reached (output_stream_stomp.cpp, log_thread.cpp)\<close>

text \<open>
  The STOMP sink logs its own troubles, through the same logger. Here this circle is closed: what
  the sink notes in a step of the log thread or of its retry thread is queued as events of the
  subsystems \<^verbatim>\<open>stomp\<close> and \<^verbatim>\<open>TCPSocket\<close>, and so comes back to the sink. The other sinks
  are consoles that work.
\<close>

subsection \<open>An attempt to connect that fails\<close>

text \<open>No address of the server answers, or its name is unknown.\<close>

definition unreachable :: "connect_env \<Rightarrow> bool" where
  "unreachable env \<longleftrightarrow> (\<forall>host port. case ce_resolve env host port of
      Inl _ \<Rightarrow> True
    | Inr addresses \<Rightarrow> list_all (\<lambda>a. ad_socket a \<ge> -1 \<and> \<not> address_ok a) addresses)"

text \<open>The connect thread is at work; it has failed and has been joined.\<close>

definition cut_off :: "stomp_stream \<Rightarrow> bool" where
  "cut_off sp \<longleftrightarrow> stomp_connecting sp \<and> \<not> tcs_connected (sp_socket sp)"

definition given_up :: "stomp_stream \<Rightarrow> bool" where
  "given_up sp \<longleftrightarrow> \<not> sp_connected sp \<and> \<not> sp_connecting sp \<and> \<not> sp_connect_thread sp \<and>
     sp_reply_queue sp = [] \<and> sp_partial_reply sp = [] \<and> \<not> tcs_connected (sp_socket sp)"

lemma tcs_connect_unreachable:
  assumes "unreachable env" "\<not> tcs_connected s"
  shows "\<exists>e s'. tcs_connect (ce_resolve env) (ce_socks env) (ce_ssl env) s = (Inl e, s') \<and> \<not> tcs_connected s'"
proof -
  let ?host = "if tcs_use_socks s then tcs_socks_host s else tcs_host s"
    and ?port = "show_nat (unat (if tcs_use_socks s then tcs_socks_port s else tcs_port s))"
  show ?thesis
  proof (cases "ce_resolve env ?host ?port")
    case (Inl err)
    then show ?thesis using assms(2) by (auto simp: tcs_connect_def Let_def tcs_connected_def tcs_note_def)
  next
    case (Inr as)
    have "case ce_resolve env ?host ?port of Inl _ \<Rightarrow> True
        | Inr addresses \<Rightarrow> list_all (\<lambda>a. ad_socket a \<ge> -1 \<and> \<not> address_ok a) addresses"
      using assms(1) unfolding unreachable_def by blast
    then have as: "\<forall>a \<in> set as. ad_socket a \<ge> -1" "find address_ok as = None"
      unfolding Inr by (auto simp: list_all_iff find_None_iff)
    have "tcs_socket (connect_to_first as s) = invalid_socket"
      using connect_to_first_socket [OF as(1), of s] as(2) assms(2) by (simp add: tcs_connected_def)
    then show ?thesis using Inr by (auto simp: tcs_connect_def Let_def tcs_connected_def)
  qed
qed

lemma connect_thread_unreachable:
  assumes "unreachable env" "cut_off sp"
  shows "\<exists>msg sock. connect_thread env sp =
      connect_done (stomp_note Warning (''Connection failed: '' @ msg) (sp\<lparr>sp_socket := sock\<rparr>)) \<and>
    \<not> tcs_connected sock"
proof -
  have "\<not> tcs_connected (sp_socket sp)" using assms(2) by (simp add: cut_off_def)
  from tcs_connect_unreachable [OF assms(1) this] obtain e s' where
    "tcs_connect (ce_resolve env) (ce_socks env) (ce_ssl env) (sp_socket sp) = (Inl e, s')" "\<not> tcs_connected s'"
    by blast
  then show ?thesis by (intro exI [of _ "exn_what e"] exI [of _ s']) (simp add: connect_thread_def)
qed

text \<open>The two calls of an attempt: one finds the connect thread has failed, one starts the next.\<close>

definition failing :: "connect_env \<Rightarrow> stomp_call" where
  "failing env = idle\<lparr>sc_finish := Some env\<rparr>"

lemma call_finds_failure:
  assumes "cut_off (sk_stream sk)" "sk_calls sk = failing env # cs" "unreachable env"
  shows "\<exists>sk' msg. (\<forall>e. stomp_sink_write order sk e = (False, sk')) \<and> given_up (sk_stream sk') \<and> sk_calls sk' = cs \<and>
    sp_log (sk_stream sk') = sp_log (sk_stream sk) @ [(Warning, ''Connection failed: '' @ msg)]"
proof -
  let ?sp = "sk_stream sk"
  obtain msg sock where thread: "connect_thread env ?sp =
      connect_done (stomp_note Warning (''Connection failed: '' @ msg) (?sp\<lparr>sp_socket := sock\<rparr>))"
    "\<not> tcs_connected sock"
    using connect_thread_unreachable [OF assms(3,1)] by blast
  define sp1 where "sp1 = connect_thread env ?sp"
  have sp1: "\<not> sp_connected sp1" "sp_connecting sp1" "sp_connect_thread sp1" "sp_connect_thread_done sp1"
    "sp_reply_queue sp1 = []" "sp_partial_reply sp1 = []" "\<not> tcs_connected (sp_socket sp1)"
    "sp_log sp1 = sp_log ?sp @ [(Warning, ''Connection failed: '' @ msg)]"
    using assms(1) thread(2) unfolding sp1_def thread(1)
    by (simp_all add: cut_off_def stomp_connecting_def connect_done_def stomp_note_def)
  define sp2 where "sp2 = sp1\<lparr>sp_connecting := False, sp_connect_thread := False\<rparr>"
  have "before_call (failing env) ?sp = sp1"
    using assms(1) by (simp add: before_call_def failing_def idle_def cut_off_def stomp_connecting_def sp1_def)
  then have "stomp_sink_write order sk e = (False, \<lparr>sk_stream = sp2, sk_calls = cs\<rparr>)" for e
    using assms(2) sp1
    by (simp add: stomp_sink_write_def stomp_do_write_def stomp_connect_def failing_def idle_def sp2_def Let_def)
  moreover have "given_up sp2" using sp1 by (simp add: given_up_def sp2_def)
  moreover have "sp_log sp2 = sp_log ?sp @ [(Warning, ''Connection failed: '' @ msg)]" using sp1 by (simp add: sp2_def)
  ultimately show ?thesis by (intro exI [of _ "\<lparr>sk_stream = sp2, sk_calls = cs\<rparr>"] exI [of _ msg]) simp
qed

lemma call_starts_attempt:
  assumes "given_up (sk_stream sk)" "sk_calls sk = idle # cs"
  shows "\<exists>sk'. (\<forall>e. stomp_sink_write order sk e = (False, sk')) \<and> cut_off (sk_stream sk') \<and> sk_calls sk' = cs"
proof -
  let ?sp = "sk_stream sk"
  define sp' where "sp' = (stomp_note Finest ''Starting connect thread.'' ?sp)
    \<lparr>sp_connecting := True, sp_connect_thread_done := False, sp_connect_thread := True\<rparr>"
  have "stomp_sink_write order sk e = (False, \<lparr>sk_stream = sp', sk_calls = cs\<rparr>)" for e
    using assms
    by (simp add: stomp_sink_write_def before_call_none stomp_do_write_def stomp_connect_def idle_def
        given_up_def sp'_def stomp_note_def Let_def)
  moreover have "cut_off sp'"
    using assms(1) by (simp add: cut_off_def stomp_connecting_def given_up_def sp'_def stomp_note_def)
  ultimately show ?thesis by (intro exI [of _ "\<lparr>sk_stream = sp', sk_calls = cs\<rparr>"]) simp
qed

subsection \<open>The log thread with one sink that refuses\<close>

text \<open>
  The sink \<open>s\<close> at \<open>p\<close> with the events \<open>q\<close> waiting for it, behind a running retry thread if there
  are any; all other sinks are consoles that work, with nothing waiting.
\<close>

definition refusing :: "nat \<Rightarrow> stomp_sink output_stream \<Rightarrow> log_event list \<Rightarrow>
    (stdout_stream + stomp_sink) log_thread \<Rightarrow> bool" where
  "refusing p s q t \<longleftrightarrow>
     distinct (map snd (lt_streams t)) \<and> p \<in> set (map snd (lt_streams t)) \<and> lt_heap t p = Some (upcast Inr s) \<and>
     (\<forall>p' \<in> set (map snd (lt_streams t)). p' \<noteq> p \<longrightarrow>
        (\<exists>s0. lt_heap t p' = Some (upcast Inl s0) \<and> console_open s0)) \<and>
     (if q = [] then lt_retry_map t = []
      else \<exists>r. lt_retry_map t = [(p, Some r)] \<and> rt_queue r = q \<and> rt_running r)"

lemma refusing_queue: "refusing p s q t \<Longrightarrow> retry_queue t p = q"
  by (auto simp: refusing_def retry_queue_def map_find_def split: if_splits)

lemma refusing_log_stream:
  assumes "refusing p s q t" "p' \<in> set (map snd (lt_streams t))" "\<forall>e p. spawn e p = None"
  shows "\<exists>t'. log_stream (dispatch stdout_class (stomp_class order)) spawn e p' t = Inr t' \<and> lt_streams t' = lt_streams t \<and>
    (let (s', q') = if p' = p then sink_log (os_write (stomp_sink_write order)) True e (s, q) else (s, q)
     in refusing p s' q' t')"
proof (cases "p' = p")
  case False
  then obtain s0 where s0: "lt_heap t p' = Some (upcast Inl s0)" "console_open s0"
    using assms(1,2) by (auto simp: refusing_def)
  obtain s1 where s1: "os_write stdout_do_write s0 e = (True, s1)" "console_open s1"
    using console_open_write [OF s0(2)] by blast
  have "map_find p' (lt_retry_map t) = None"
    using assms(1) False by (auto simp: refusing_def map_find_def split: if_splits)
  then have "log_stream (dispatch stdout_class (stomp_class order)) spawn e p' t =
      Inr (t\<lparr>lt_heap := (lt_heap t)(p' \<mapsto> upcast Inl s1)\<rparr>)"
    using s0(1) s1(1) by (simp add: log_stream_def write_direct_def dispatch_write stdout_class_def)
  then show ?thesis using assms(1) s1(2) False by (auto simp: refusing_def split: if_splits)
next
  case True
  have heap: "lt_heap t p = Some (upcast Inr s)" using assms(1) by (simp add: refusing_def)
  show ?thesis
  proof (cases "q = []")
    case False
    then obtain r where r: "lt_retry_map t = [(p, Some r)]" "rt_queue r = q" "rt_running r"
      using assms(1) by (auto simp: refusing_def)
    then have "log_stream (dispatch stdout_class (stomp_class order)) spawn e p t =
        Inr (t\<lparr>lt_retry_map := [(p, Some (rt_enqueue e r))]\<rparr>)"
      using False by (simp add: log_stream_def map_find_def rt_active_def map_assign_def)
    then show ?thesis
      using assms(1) True False r by (auto simp: refusing_def sink_log_def rt_enqueue_def)
  next
    case empty: True
    obtain ok s1 where w: "os_write (stomp_sink_write order) s e = (ok, s1)" by fastforce
    have map: "lt_retry_map t = []" using assms(1) empty by (simp add: refusing_def)
    then have "log_stream (dispatch stdout_class (stomp_class order)) spawn e p t =
        Inr (if ok then t\<lparr>lt_heap := (lt_heap t)(p \<mapsto> upcast Inr s1)\<rparr>
          else t\<lparr>lt_heap := (lt_heap t)(p \<mapsto> upcast Inr s1),
            lt_cout := lt_cout t @ retry_banner (dispatch stdout_class (stomp_class order)) (upcast Inr s1),
            lt_retry_map := [(p, Some (rt_enqueue e (new_retry_thread p)))]\<rparr>)"
      using w heap assms(3)
      by (simp add: log_stream_def write_direct_def dispatch_write stomp_class_def map_find_def)
    then show ?thesis
      using assms(1) True empty w map
      by (auto simp: refusing_def sink_log_def rt_enqueue_def new_retry_thread_def)
  qed
qed

lemma refusing_log_streams:
  assumes "refusing p s q t" "set (map snd xs) \<subseteq> set (map snd (lt_streams t))" "distinct (map snd xs)"
    and "\<forall>e p. spawn e p = None"
  shows "\<exists>t'. log_streams (dispatch stdout_class (stomp_class order)) spawn e xs t = Inr t' \<and> lt_streams t' = lt_streams t \<and>
    (let (s', q') = if p \<in> set (map snd xs) then sink_log (os_write (stomp_sink_write order)) True e (s, q) else (s, q)
     in refusing p s' q' t')"
  using assms(1-3)
proof (induction xs arbitrary: s q t)
  case (Cons x xs)
  obtain name p' where x: "x = (name, p')" by fastforce
  obtain s1 q1 where step: "(if p' = p then sink_log (os_write (stomp_sink_write order)) True e (s, q) else (s, q)) = (s1, q1)"
    by fastforce
  obtain t1 where t1: "log_stream (dispatch stdout_class (stomp_class order)) spawn e p' t = Inr t1"
    "lt_streams t1 = lt_streams t" "refusing p s1 q1 t1"
    using refusing_log_stream [of p s q t p' spawn order e] Cons.prems assms(4) x step by auto
  have "set (map snd xs) \<subseteq> set (map snd (lt_streams t1))" "distinct (map snd xs)"
    using Cons.prems(2,3) t1(2) by auto
  from Cons.IH [OF t1(3) this] obtain t' where
    "log_streams (dispatch stdout_class (stomp_class order)) spawn e xs t1 = Inr t'" "lt_streams t' = lt_streams t1"
    "let (s', q') = if p \<in> set (map snd xs) then sink_log (os_write (stomp_sink_write order)) True e (s1, q1) else (s1, q1)
     in refusing p s' q' t'" by blast
  moreover have "(if p \<in> set (map snd (x # xs)) then sink_log (os_write (stomp_sink_write order)) True e (s, q) else (s, q)) =
      (if p \<in> set (map snd xs) then sink_log (os_write (stomp_sink_write order)) True e (s1, q1) else (s1, q1))"
    using step x Cons.prems(3) by (cases "p' = p") auto
  ultimately show ?case using t1(1,2) x by simp
qed simp

lemma refusing_log_all:
  assumes "refusing p s q t" "\<forall>time. fmt time \<noteq> None" "\<forall>e p. spawn e p = None"
    and "fold (sink_log (os_write (stomp_sink_write order)) True) (map (stamp fmt) es) (s, q) = (s', q')"
  shows "\<exists>t'. log_all fmt (dispatch stdout_class (stomp_class order)) spawn es t = Inr t' \<and> lt_streams t' = lt_streams t \<and>
    refusing p s' q' t'"
  using assms(1,4)
proof (induction es arbitrary: s q t)
  case (Cons e es)
  obtain s1 q1 where one: "sink_log (os_write (stomp_sink_write order)) True (stamp fmt e) (s, q) = (s1, q1)" by fastforce
  obtain ts where ts: "fmt (le_time e) = Some ts" using assms(2) by blast
  have "p \<in> set (map snd (lt_streams t))" "distinct (map snd (lt_streams t))"
    using Cons.prems(1) by (simp_all add: refusing_def)
  then obtain t1 where t1: "lt_log fmt (dispatch stdout_class (stomp_class order)) spawn e t = Inr t1"
    "lt_streams t1 = lt_streams t" "refusing p s1 q1 t1"
    using refusing_log_streams [OF Cons.prems(1) subset_refl _ assms(3), of order "stamp fmt e"] one ts
    by (auto simp: lt_log_def stamp_def)
  from Cons.IH [OF t1(3)] t1(1,2) one Cons.prems(2) show ?case by auto
qed (auto simp: refusing_def)

lemma refusing_cong:
  "lt_streams t' = lt_streams t \<Longrightarrow> lt_heap t' = lt_heap t \<Longrightarrow> lt_retry_map t' = lt_retry_map t \<Longrightarrow>
     refusing p s q t' = refusing p s q t"
  by (simp add: refusing_def)

text \<open>A round after the request to terminate delivers and finds the retry thread active.\<close>

lemma refusing_round:
  assumes "refusing p s q t" "\<forall>time. fmt time \<noteq> None" "\<forall>e p. spawn e p = None" "lt_do_terminate t"
    and "fold (sink_log (os_write (stomp_sink_write order)) True) (map (stamp fmt) (lt_events t)) (s, q) = (s', q')"
    and "q' \<noteq> []"
  shows "\<exists>t'. do_run_round fmt (dispatch stdout_class (stomp_class order)) spawn [] [] t = Inr (Continue, t') \<and>
    refusing p s' q' t' \<and> lt_do_terminate t' \<and> lt_events t' = []"
proof -
  have "refusing p s q (t\<lparr>lt_events := []\<rparr>)" using assms(1) refusing_cong [of "t\<lparr>lt_events := []\<rparr>" t] by simp
  from refusing_log_all [OF this assms(2,3,5)] obtain t1 where
    t1: "log_all fmt (dispatch stdout_class (stomp_class order)) spawn (lt_events t) (t\<lparr>lt_events := []\<rparr>) = Inr t1"
      "refusing p s' q' t1" by auto
  have input: "lt_events t1 = []" "lt_do_terminate t1" using log_all_input [OF t1(1)] assms(4) by (simp_all add: lt_input_def)
  obtain r where r: "lt_retry_map t1 = [(p, Some r)]" "rt_queue r = q'" using t1(2) assms(6) by (auto simp: refusing_def)
  then have "retry_scan (lt_retry_map t1) = Inr (lt_retry_map t1, True)" using assms(6) by (simp add: rt_active_def)
  then show ?thesis using t1 input by (simp add: do_run_round_def)
qed

text \<open>A cycle of the retry thread that leaves something in the queue.\<close>

lemma refusing_cycle:
  assumes "refusing p s q t" "q \<noteq> []" "sink_cycle (os_write (stomp_sink_write order)) tpnow (s, q) = (s', q')" "q' \<noteq> []"
  shows "\<exists>t'. retry_thread_cycle (dispatch stdout_class (stomp_class order)) p tpnow t = Inr t' \<and> refusing p s' q' t' \<and>
    lt_events t' = lt_events t \<and> lt_do_terminate t' = lt_do_terminate t"
proof -
  let ?c = "dispatch stdout_class (stomp_class order)"
  obtain r where r: "lt_retry_map t = [(p, Some r)]" "rt_queue r = q" "rt_running r"
    using assms(1,2) by (auto simp: refusing_def)
  have heap: "lt_heap t p = Some (upcast Inr s)" using assms(1) by (simp add: refusing_def)
  define run0 :: "(stdout_stream + stomp_sink) retry_run" where "run0 = \<lparr>run_stream = upcast Inr s, run_thread = r, run_done = [], run_cout = lt_cout t, run_cerr = lt_cerr t\<rparr>"
  define run1 where "run1 = rt_run ?c [([], tpnow)] run0"
  have "sink_cycle (os_write (vt_do_write ?c)) tpnow (upcast Inr s, q) = (upcast Inr s', q')"
    using assms(3) write_loop_map [where w = "os_write (vt_do_write ?c)" and h = "upcast Inr"
        and w' = "os_write (stomp_sink_write order)" and s = s and q = q]
    by (auto simp: sink_cycle_def dispatch_write stomp_class_def split: prod.splits)
  then have run1: "run_stream run1 = upcast Inr s'" "rt_queue (run_thread run1) = q'" "rt_running (run_thread run1)"
    using rt_run_one [of ?c tpnow run0 "upcast Inr s'" q'] r assms(4)
    by (simp_all add: run1_def run0_def del: rt_run.simps)
  have "retry_thread_cycle ?c p tpnow t = Inr (t\<lparr>lt_heap := (lt_heap t)(p \<mapsto> upcast Inr s'),
      lt_retry_map := [(p, Some (run_thread run1))], lt_cout := run_cout run1, lt_cerr := run_cerr run1\<rparr>)"
    using r heap run1(1)
    by (simp add: retry_thread_cycle_def map_find_def map_assign_def Let_def del: rt_run.simps
        flip: run0_def run1_def)
  moreover have "refusing p s' q' (t\<lparr>lt_heap := (lt_heap t)(p \<mapsto> upcast Inr s'),
      lt_retry_map := [(p, Some (run_thread run1))], lt_cout := run_cout run1, lt_cerr := run_cerr run1\<rparr>)"
    using assms(1,4) run1 by (auto simp: refusing_def)
  ultimately show ?thesis by simp
qed

subsection \<open>The circle of the sink's own messages\<close>

text \<open>What the sink at \<open>p\<close> and its socket have noted so far.\<close>

definition sink_notes ::
  "nat \<Rightarrow> (stdout_stream + stomp_sink) log_thread \<Rightarrow> (log_level \<times> string) list \<times> (log_level \<times> string) list" where
  "sink_notes p t =
     (case lt_heap t p of
        None \<Rightarrow> ([], [])
      | Some s \<Rightarrow> (case os_derived s of
            Inl _ \<Rightarrow> ([], [])
          | Inr sk \<Rightarrow> stomp_notes (sk_stream sk)))"

text \<open>The notes made since the state \<open>t0\<close> go through the filters into the event queue.\<close>

definition hear ::
  "surroundings \<Rightarrow> nat \<Rightarrow> time_point \<Rightarrow> (stdout_stream + stomp_sink) log_thread \<Rightarrow>
     (stdout_stream + stomp_sink) log_thread \<Rightarrow> (stdout_stream + stomp_sink) log_thread" where
  "hear su p now t0 t =
     fold lt_enqueue (own_events su now (sink_notes p t0) (sink_notes p t)) t"

text \<open>A step: a round of the main loop, a cycle of the sink's retry thread, a message of the application.\<close>

datatype system_step = S_round time_point | S_cycle time_point | S_log log_event

definition system_step ::
  "surroundings \<Rightarrow> (stdout_stream + stomp_sink) stream_class \<Rightarrow> nat \<Rightarrow> system_step \<Rightarrow>
     (stdout_stream + stomp_sink) log_thread \<Rightarrow> (bool \<times> (stdout_stream + stomp_sink) log_thread) throws" where
  "system_step su c p x t =
     (case x of
        S_round now \<Rightarrow>
          bind_exn (do_run_round (su_fmt su) c no_spawn_error [] [] t) (\<lambda>(outcome, t').
            Inr (outcome = Return, hear su p now t t'))
      | S_cycle tpnow \<Rightarrow> bind_exn (retry_thread_cycle c p tpnow t) (\<lambda>t'. Inr (False, hear su p tpnow t t'))
      | S_log e \<Rightarrow> Inr (False, lt_enqueue e t))"

fun system_run ::
  "surroundings \<Rightarrow> (stdout_stream + stomp_sink) stream_class \<Rightarrow> nat \<Rightarrow> system_step list \<Rightarrow>
     (stdout_stream + stomp_sink) log_thread \<Rightarrow> (bool \<times> (stdout_stream + stomp_sink) log_thread) throws" where
  "system_run su c p [] t = Inr (False, t)"
| "system_run su c p (x # xs) t =
     bind_exn (system_step su c p x t) (\<lambda>(returned, t'). if returned then Inr (True, t') else system_run su c p xs t')"

lemma system_run_append:
  "system_run su c p (xs @ ys) t =
     bind_exn (system_run su c p xs t) (\<lambda>(returned, t'). if returned then Inr (True, t') else system_run su c p ys t')"
  by (induction xs arbitrary: t) (auto simp: bind_exn_def split: sum.splits)

text \<open>
  An attempt to connect, as the code makes it: a cycle of the retry thread finds that the connect
  thread has failed, a later one starts the next connect thread. In between the application may
  log more, and the main loop delivers.
\<close>

record attempt =
  at_env :: connect_env
  at_failure :: time_point
  at_restart :: time_point
  at_logged :: "log_event list"

definition attempt_steps :: "attempt \<Rightarrow> system_step list" where
  "attempt_steps a = [S_cycle (at_failure a), S_round (at_failure a), S_cycle (at_restart a)] @
     map S_log (at_logged a) @ [S_round (at_restart a)]"

definition attempt_calls :: "attempt \<Rightarrow> stomp_call list" where
  "attempt_calls a = [failing (at_env a), idle]"

text \<open>Attempts follow each other within the ten hours for which a warning is kept.\<close>

definition ten_hours :: int where "ten_hours = 36000 * ns_per_s"

definition attempt_ok :: "attempt \<Rightarrow> bool" where
  "attempt_ok a \<longleftrightarrow> unreachable (at_env a) \<and> at_restart a - at_failure a \<le> ten_hours"

fun attempts_follow :: "time_point \<Rightarrow> attempt list \<Rightarrow> bool" where
  "attempts_follow t0 [] \<longleftrightarrow> True"
| "attempts_follow t0 (a # as) \<longleftrightarrow> attempt_ok a \<and> at_failure a - t0 \<le> ten_hours \<and> attempts_follow (at_failure a) as"

lemma warning_kept:
  assumes "le_level w = Warning" "now - le_time w \<le> ten_hours"
  shows "\<not> expired now w"
proof -
  let ?d = "now - le_time w"
  have "trunc_div ?d ns_per_s \<le> 36000"
  proof (cases "0 < ?d")
    case True
    then have "trunc_div ?d ns_per_s = ?d div ns_per_s" by (simp add: trunc_div_def ns_per_s_def)
    also have "\<dots> \<le> ten_hours div ns_per_s" using assms(2) by (intro zdiv_mono1) (simp_all add: ns_per_s_def)
    finally show ?thesis by (simp add: ten_hours_def ns_per_s_def)
  next
    case False
    then have "trunc_div ?d ns_per_s \<le> 0"
      by (cases "?d = 0") (simp_all add: trunc_div_def ns_per_s_def pos_imp_zdiv_nonneg_iff)
    then show ?thesis by simp
  qed
  then show ?thesis using assms(1) by (simp add: expired_def expiry_time_def map_find_def)
qed

subsection \<open>One attempt\<close>

lemma waiting_kept: "w \<in> set q \<Longrightarrow> lvl \<le> le_level w \<Longrightarrow> w \<in> set (waiting lvl q)"
  by (induction q) (auto simp: waiting_def)

lemma sink_cycle_refused:
  assumes "\<forall>e. stomp_sink_write order (os_derived s) e = (False, sk')" "w \<in> set q" "os_min_level s \<le> le_level w"
  shows "sink_cycle (os_write (stomp_sink_write order)) tpnow (s, q) =
    (s\<lparr>os_derived := sk'\<rparr>, filter (\<lambda>e. \<not> expired tpnow e) (waiting (os_min_level s) q))"
proof -
  have "snd (write_loop (os_write (stomp_sink_write order)) s q) = (s\<lparr>os_derived := sk'\<rparr>, waiting (os_min_level s) q)"
    using assms(2,3)
  proof (induction q)
    case (Cons e q)
    show ?case
    proof (cases "os_min_level s \<le> le_level e")
      case True
      then have "os_write (stomp_sink_write order) s e = (False, s\<lparr>os_derived := sk'\<rparr>)"
        using assms(1) by (simp add: os_write_def not_less)
      then show ?thesis using True by (simp add: waiting_def not_less)
    next
      case False
      then have "os_write (stomp_sink_write order) s e = (True, s)" by (simp add: os_write_def not_le)
      moreover have "w \<in> set q" using False Cons.prems by auto
      moreover obtain d s1 q1 where "write_loop (os_write (stomp_sink_write order)) s q = (d, s1, q1)"
        by (metis prod.exhaust)
      ultimately show ?thesis using False Cons.IH Cons.prems(2) by (simp add: waiting_def not_le)
    qed
  qed simp
  then show ?thesis
    by (cases "write_loop (os_write (stomp_sink_write order)) s q") (simp add: sink_cycle_def expire_loop_filter)
qed

lemma refusing_notes:
  "refusing p s q t \<Longrightarrow> sink_notes p t = stomp_notes (sk_stream (os_derived s))"
  by (simp add: refusing_def sink_notes_def upcast_def)

lemma hear_keeps:
  "refusing p s q (hear su p now t0 t) = refusing p s q t" "lt_do_terminate (hear su p now t0 t) = lt_do_terminate t"
  "lt_events (hear su p now t0 t) = lt_events t @ own_events su now (sink_notes p t0) (sink_notes p t)"
  by (simp_all add: hear_def refusing_def fold_lt_enqueue)

lemma hear_nothing:
  "refusing p s q t \<Longrightarrow> refusing p s q' t' \<Longrightarrow> lt_events (hear su p now t t') = lt_events t'"
  by (simp add: hear_keeps refusing_notes)

text \<open>A message of the sink about its failure, as an event.\<close>

definition own_warning :: "surroundings \<Rightarrow> time_point \<Rightarrow> log_event \<Rightarrow> bool" where
  "own_warning su now e \<longleftrightarrow> le_level e = Warning \<and> le_subsystem e = su_stomp su \<and> le_time e = now \<and>
     prefix ''Connection failed: '' (le_message e)"

text \<open>The filters let warnings of the subsystem \<^verbatim>\<open>stomp\<close> through, which is the default.\<close>

definition hears_warnings :: "surroundings \<Rightarrow> bool" where
  "hears_warnings su \<longleftrightarrow> su_minlevel su \<le> Warning \<and> (\<forall>time. su_fmt su time \<noteq> None) \<and>
     (case map_find (su_stomp su) (lg_subsystems (su_logger su)) of
        None \<Rightarrow> False | Some info \<Rightarrow> si_min_level info \<le> Warning)"

lemma note_heard:
  assumes "hears_warnings su"
  shows "\<exists>e \<in> set (note_events su now (su_stomp su) [(Warning, ''Connection failed: '' @ msg)]). own_warning su now e"
  using assms by (auto simp: hears_warnings_def note_events_def call_event_def own_warning_def split: option.splits)

lemma own_events_note:
  "sp_log sp' = sp_log sp @ [n] \<Longrightarrow>
     set (note_events su now (su_stomp su) [n]) \<subseteq> set (own_events su now (stomp_notes sp) (stomp_notes sp'))"
  by (simp add: own_events_def stomp_notes_def)

text \<open>Termination is requested, the connect thread is at work, and the event \<open>w\<close> waits for the sink.\<close>

definition stranded ::
  "nat \<Rightarrow> log_level \<Rightarrow> stomp_call list \<Rightarrow> log_event \<Rightarrow> (stdout_stream + stomp_sink) log_thread \<Rightarrow> bool" where
  "stranded p lvl calls w t \<longleftrightarrow> lt_do_terminate t \<and> lt_events t = [] \<and> lvl \<le> le_level w \<and>
     (\<exists>s q. refusing p s q t \<and> os_min_level s = lvl \<and> cut_off (sk_stream (os_derived s)) \<and>
        sk_calls (os_derived s) = calls \<and> w \<in> set q)"

text \<open>The two kinds of steps of an attempt, on a sink that refuses.\<close>

lemma cycle_step:
  assumes "refusing p s q t" "\<forall>e. stomp_sink_write order (os_derived s) e = (False, sk')"
    and "w \<in> set q" "os_min_level s \<le> le_level w" "\<not> expired tpnow w"
  shows "\<exists>t' q'. system_step su (dispatch stdout_class (stomp_class order)) p (S_cycle tpnow) t = Inr (False, t') \<and>
    refusing p (s\<lparr>os_derived := sk'\<rparr>) q' t' \<and> w \<in> set q' \<and> lt_do_terminate t' = lt_do_terminate t \<and>
    lt_events t' = lt_events t @ own_events su tpnow (stomp_notes (sk_stream (os_derived s))) (stomp_notes (sk_stream sk'))"
proof -
  let ?q' = "filter (\<lambda>e. \<not> expired tpnow e) (waiting (os_min_level s) q)"
  note cycle = sink_cycle_refused [OF assms(2-4), of tpnow]
  have w: "w \<in> set ?q'" using waiting_kept [OF assms(3,4)] assms(5) by simp
  then have "q \<noteq> []" "?q' \<noteq> []" using assms(3) by (auto simp only: list.set empty_iff)
  from refusing_cycle [OF assms(1) this(1) cycle this(2)] obtain t1 where
    t1: "retry_thread_cycle (dispatch stdout_class (stomp_class order)) p tpnow t = Inr t1"
      "refusing p (s\<lparr>os_derived := sk'\<rparr>) ?q' t1" "lt_events t1 = lt_events t" "lt_do_terminate t1 = lt_do_terminate t"
    by blast
  then show ?thesis
    using w refusing_notes [OF assms(1)] refusing_notes [OF t1(2)]
    by (intro exI [of _ "hear su p tpnow t t1"] exI [of _ ?q']) (simp add: system_step_def hear_keeps)
qed

lemma round_step:
  assumes "refusing p s q t" "q \<noteq> []" "lt_do_terminate t" "hears_warnings su"
  shows "\<exists>t'. system_step su (dispatch stdout_class (stomp_class order)) p (S_round now) t = Inr (False, t') \<and>
    refusing p s (q @ map (stamp (su_fmt su)) (lt_events t)) t' \<and> lt_do_terminate t' \<and> lt_events t' = []"
proof -
  have fold: "fold (sink_log (os_write (stomp_sink_write order)) True) (map (stamp (su_fmt su)) (lt_events t)) (s, q) =
      (s, q @ map (stamp (su_fmt su)) (lt_events t))"
    by (rule fold_sink_log_waiting [OF assms(2)])
  have fmt: "\<forall>time. su_fmt su time \<noteq> None" using assms(4) by (simp add: hears_warnings_def)
  have "\<forall>e p. no_spawn_error e p = None" by (simp add: no_spawn_error_def)
  from refusing_round [OF assms(1) fmt this assms(3) fold] assms(2) obtain t1 where
    t1: "do_run_round (su_fmt su) (dispatch stdout_class (stomp_class order)) no_spawn_error [] [] t = Inr (Continue, t1)"
      "refusing p s (q @ map (stamp (su_fmt su)) (lt_events t)) t1" "lt_do_terminate t1" "lt_events t1 = []"
    by auto
  then show ?thesis
    using hear_nothing [OF assms(1) t1(2), of su now] by (simp add: system_step_def hear_keeps(1,2))
qed

lemma log_steps:
  "system_run su c p (map S_log es @ xs) t = system_run su c p xs (fold lt_enqueue es t)"
  by (induction es arbitrary: t) (simp_all add: system_step_def)

lemma attempt_strands:
  assumes "stranded p lvl (attempt_calls a @ calls) w t" "attempt_ok a" "\<not> expired (at_failure a) w"
    and "hears_warnings su" "lvl \<le> Warning"
  shows "\<exists>t' w'. system_run su (dispatch stdout_class (stomp_class order)) p (attempt_steps a) t = Inr (False, t') \<and>
    stranded p lvl calls w' t' \<and> own_warning su (at_failure a) w'"
proof -
  let ?c = "dispatch stdout_class (stomp_class order)"
  obtain s q where s: "refusing p s q t" "os_min_level s = lvl" "cut_off (sk_stream (os_derived s))"
    "sk_calls (os_derived s) = failing (at_env a) # idle # calls" "w \<in> set q" "lvl \<le> le_level w"
    "lt_do_terminate t" "lt_events t = []"
    using assms(1) by (auto simp: stranded_def attempt_calls_def)
  have env: "unreachable (at_env a)" using assms(2) by (simp add: attempt_ok_def)
  obtain sk1 msg where sk1: "\<forall>e. stomp_sink_write order (os_derived s) e = (False, sk1)" "given_up (sk_stream sk1)"
    "sk_calls sk1 = idle # calls"
    "sp_log (sk_stream sk1) = sp_log (sk_stream (os_derived s)) @ [(Warning, ''Connection failed: '' @ msg)]"
    using call_finds_failure [OF s(3,4) env, of order] by blast
  obtain sk2 where sk2: "\<forall>e. stomp_sink_write order sk1 e = (False, sk2)" "cut_off (sk_stream sk2)" "sk_calls sk2 = calls"
    using call_starts_attempt [OF sk1(2,3), of order] by blast
  from cycle_step [OF s(1) sk1(1) s(5) _ assms(3), of su] s(2,6) obtain t1 q1 where
    t1: "system_step su ?c p (S_cycle (at_failure a)) t = Inr (False, t1)" "refusing p (s\<lparr>os_derived := sk1\<rparr>) q1 t1"
      "w \<in> set q1" "lt_do_terminate t1" "set (note_events su (at_failure a) (su_stomp su)
        [(Warning, ''Connection failed: '' @ msg)]) \<subseteq> set (lt_events t1)"
    using s(7,8) own_events_note [OF sk1(4), of su "at_failure a"] by fastforce
  obtain e where e: "e \<in> set (lt_events t1)" "own_warning su (at_failure a) e"
    using note_heard [OF assms(4)] t1(5) by blast
  have "q1 \<noteq> []" using t1(3) by auto
  from round_step [OF t1(2) this t1(4) assms(4)] obtain t2 where
    t2: "system_step su ?c p (S_round (at_failure a)) t1 = Inr (False, t2)"
      "refusing p (s\<lparr>os_derived := sk1\<rparr>) (q1 @ map (stamp (su_fmt su)) (lt_events t1)) t2"
      "lt_do_terminate t2" "lt_events t2 = []" by blast
  define w' where "w' = stamp (su_fmt su) e"
  have w': "own_warning su (at_failure a) w'" "w' \<in> set (q1 @ map (stamp (su_fmt su)) (lt_events t1))"
    using e by (simp_all add: w'_def) (simp add: own_warning_def stamp_def split: option.split)
  then have level: "lvl \<le> le_level w'" "\<not> expired (at_restart a) w'"
    using assms(2,5) warning_kept [of w' "at_restart a"] by (auto simp: own_warning_def attempt_ok_def)
  from cycle_step [OF t2(2) _ w'(2) _ level(2), of order sk2] sk2(1) level(1) s(2) obtain t3 q3 where
    t3: "system_step su ?c p (S_cycle (at_restart a)) t2 = Inr (False, t3)" "refusing p (s\<lparr>os_derived := sk2\<rparr>) q3 t3"
      "w' \<in> set q3" "lt_do_terminate t3"
    using t2(3) by fastforce
  let ?t4 = "fold lt_enqueue (at_logged a) t3"
  have t4: "refusing p (s\<lparr>os_derived := sk2\<rparr>) q3 ?t4" "lt_do_terminate ?t4"
    using t3(2,4) refusing_cong [of ?t4 t3] by (simp_all add: fold_lt_enqueue)
  have "q3 \<noteq> []" using t3(3) by auto
  from round_step [OF t4(1) this t4(2) assms(4)] obtain t5 where
    t5: "system_step su ?c p (S_round (at_restart a)) ?t4 = Inr (False, t5)"
      "refusing p (s\<lparr>os_derived := sk2\<rparr>) (q3 @ map (stamp (su_fmt su)) (lt_events ?t4)) t5"
      "lt_do_terminate t5" "lt_events t5 = []" by blast
  have "system_run su ?c p (attempt_steps a) t = Inr (False, t5)"
    using t1(1) t2(1) t3(1) t5(1) by (simp add: attempt_steps_def log_steps)
  moreover have "stranded p lvl calls w' t5"
    unfolding stranded_def
    using t5(2-4) level(1) s(2) sk2(2,3) t3(3)
    by (intro conjI exI [of _ "s\<lparr>os_derived := sk2\<rparr>"] exI [of _ "q3 @ map (stamp (su_fmt su)) (lt_events ?t4)"]) simp_all
  ultimately show ?thesis using w'(1) by blast
qed

lemma attempts_strand:
  assumes "stranded p lvl (concat (map attempt_calls as) @ calls) w t" "own_warning su t0 w" "attempts_follow t0 as"
    and "hears_warnings su" "lvl \<le> Warning"
  shows "\<exists>t' w'. system_run su (dispatch stdout_class (stomp_class order)) p (concat (map attempt_steps as)) t = Inr (False, t') \<and>
    stranded p lvl calls w' t' \<and> own_warning su (last (t0 # map at_failure as)) w'"
  using assms(1-3)
proof (induction as arbitrary: t w t0)
  case (Cons a as)
  have "\<not> expired (at_failure a) w"
    using Cons.prems(2,3) warning_kept [of w "at_failure a"] by (simp add: own_warning_def)
  moreover have "stranded p lvl (attempt_calls a @ concat (map attempt_calls as) @ calls) w t" using Cons.prems(1) by simp
  ultimately obtain t1 w1 where
    one: "system_run su (dispatch stdout_class (stomp_class order)) p (attempt_steps a) t = Inr (False, t1)"
      "stranded p lvl (concat (map attempt_calls as) @ calls) w1 t1" "own_warning su (at_failure a) w1"
    using attempt_strands [of p lvl a "concat (map attempt_calls as) @ calls" w t su order] assms(4,5) Cons.prems(3)
    by auto
  from Cons.IH [OF one(2,3)] Cons.prems(3) show ?case
    using one(1) by (auto simp: system_run_append)
qed auto

text \<open>The first message: the sink is still connecting, so it waits, and the circle begins.\<close>

lemma first_message_strands:
  assumes "lt_retry_map t = []" "distinct (map snd (lt_streams t))" "p \<in> set (map snd (lt_streams t))"
    and "\<forall>p' \<in> set (map snd (lt_streams t)). p' \<noteq> p \<longrightarrow> (\<exists>s0. lt_heap t p' = Some (upcast Inl s0) \<and> console_open s0)"
    and "lt_heap t p = Some (upcast Inr (new_output_stream lvl \<lparr>sk_stream = sp, sk_calls = idle # calls\<rparr>))"
    and "new_stomp_stream order app_name URL hostname user = Inr sp"
    and "e \<in> set (lt_events t)" "lvl \<le> le_level e" "lt_do_terminate t" "hears_warnings su"
  shows "\<exists>t'. system_step su (dispatch stdout_class (stomp_class order)) p (S_round now) t = Inr (False, t') \<and>
    stranded p lvl calls (stamp (su_fmt su) e) t'"
proof -
  let ?es = "map (stamp (su_fmt su)) (lt_events t)"
  define s where "s = new_output_stream lvl \<lparr>sk_stream = sp, sk_calls = idle # calls\<rparr>"
  define s' where "s' = s\<lparr>os_derived := \<lparr>sk_stream = sp, sk_calls = calls\<rparr>\<rparr>"
  have start: "refusing p s [] t" using assms(1-5) by (simp add: refusing_def s_def)
  have connecting: "stomp_connecting sp" "\<not> tcs_connected (sp_socket sp)"
    using new_stomp_connecting(1) [OF assms(6)] assms(6)
    by (auto simp: new_stomp_stream_def init_stomp_stream_def stomp_connect_def stomp_note_def tcs_connected_def
        new_tcp_client_socket_def use_SSL_def Let_def split: if_splits)
  have level: "le_level (stamp fmt x) = le_level x" for fmt x by (simp add: stamp_def split: option.split)
  have "\<exists>x \<in> set ?es. os_min_level s \<le> le_level x"
    using assms(7,8) level by (auto simp: s_def new_output_stream_def)
  then have fold: "fold (sink_log (os_write (stomp_sink_write order)) True) ?es (s, []) = (s', waiting lvl ?es)"
    using stomp_batch_waits [of s idle calls ?es order] connecting(1)
    by (simp add: s_def s'_def new_output_stream_def idle_call_def idle_def)
  have w: "stamp (su_fmt su) e \<in> set (waiting lvl ?es)"
    using assms(7,8) level by (intro waiting_kept) auto
  then have "waiting lvl ?es \<noteq> []" by auto
  moreover have fmt: "\<forall>time. su_fmt su time \<noteq> None" "\<forall>e p. no_spawn_error e p = None"
    using assms(10) by (simp_all add: hears_warnings_def no_spawn_error_def)
  ultimately obtain t1 where
    t1: "do_run_round (su_fmt su) (dispatch stdout_class (stomp_class order)) no_spawn_error [] [] t = Inr (Continue, t1)"
      "refusing p s' (waiting lvl ?es) t1" "lt_do_terminate t1" "lt_events t1 = []"
    using refusing_round [OF start fmt assms(9) fold] by blast
  have "sink_notes p t1 = sink_notes p t"
    using refusing_notes [OF start] refusing_notes [OF t1(2)] by (simp add: s_def s'_def new_output_stream_def)
  then have "lt_events (hear su p now t t1) = []" using t1(4) by (simp add: hear_keeps)
  moreover have "cut_off (sk_stream (os_derived s'))" "os_min_level s' = lvl" "sk_calls (os_derived s') = calls"
    using connecting by (simp_all add: s'_def s_def cut_off_def new_output_stream_def)
  ultimately have "stranded p lvl calls (stamp (su_fmt su) e) (hear su p now t t1)"
    unfolding stranded_def using t1(2,3) w assms(8) level by (auto simp: hear_keeps(1,2))
  then show ?thesis using t1(1) by (simp add: system_step_def)
qed

text \<open>
  C3. A message server that cannot be reached keeps the program from ending. The sink logs every
  failure to connect as a warning, the warning is queued for the sink itself, and a warning is
  kept for ten hours, in which the next attempt fails: so after one message of the application,
  and for any number of attempts, the sink's queue is never empty, and the main loop, which has
  been asked to terminate and waits for the retry threads to become inactive, does not return;
  at every time the queue holds the warning of the last attempt. No step of this goes wrong, the
  other sinks are working consoles, and the levels of the filters are those that let a warning
  through, as they do by default.
\<close>

theorem unreachable_server_blocks_exit:
  assumes "lt_retry_map t = []" "distinct (map snd (lt_streams t))" "p \<in> set (map snd (lt_streams t))"
    and "\<forall>p' \<in> set (map snd (lt_streams t)). p' \<noteq> p \<longrightarrow> (\<exists>s0. lt_heap t p' = Some (upcast Inl s0) \<and> console_open s0)"
    and "lt_heap t p = Some (upcast Inr (new_output_stream lvl \<lparr>sk_stream = sp,
      sk_calls = idle # concat (map attempt_calls (a # as)) @ calls\<rparr>))"
    and "new_stomp_stream order app_name URL hostname user = Inr sp"
    and "e \<in> set (lt_events t)" "lvl \<le> le_level e" "\<not> expired (at_failure a) e"
    and "lt_do_terminate t" "hears_warnings su" "lvl \<le> Warning" "attempt_ok a" "attempts_follow (at_failure a) as"
  shows "\<exists>t' w. system_run su (dispatch stdout_class (stomp_class order)) p
      (S_round now # concat (map attempt_steps (a # as))) t = Inr (False, t') \<and>
    w \<in> set (retry_queue t' p) \<and> own_warning su (last (map at_failure (a # as))) w"
proof -
  let ?c = "dispatch stdout_class (stomp_class order)"
  obtain t1 where t1: "system_step su ?c p (S_round now) t = Inr (False, t1)"
    "stranded p lvl (attempt_calls a @ concat (map attempt_calls as) @ calls) (stamp (su_fmt su) e) t1"
    using first_message_strands [OF assms(1-6,7,8,10,11), of now] by auto
  have "expired now' (stamp (su_fmt su) e) = expired now' e" for now'
    by (simp add: expired_def stamp_def split: option.split)
  then obtain t2 w2 where t2: "system_run su ?c p (attempt_steps a) t1 = Inr (False, t2)"
    "stranded p lvl (concat (map attempt_calls as) @ calls) w2 t2" "own_warning su (at_failure a) w2"
    using attempt_strands [OF t1(2) assms(13) _ assms(11,12), of order] assms(9) by auto
  obtain t3 w3 where t3: "system_run su ?c p (concat (map attempt_steps as)) t2 = Inr (False, t3)"
    "stranded p lvl calls w3 t3" "own_warning su (last (at_failure a # map at_failure as)) w3"
    using attempts_strand [OF t2(2,3) assms(14,11,12), of order] by blast
  have "w3 \<in> set (retry_queue t3 p)" using t3(2) refusing_queue by (force simp: stranded_def)
  then show ?thesis using t1(1) t2(1) t3(1,3) by (auto simp: system_run_append)
qed

text \<open>A host that nobody knows, tried every 32 seconds as the code does: 2 to find out, 30 to start again.\<close>

definition unknown_host :: connect_env where
  "unknown_host = (sample_connect default_URL)\<lparr>ce_resolve := (\<lambda>_ _. Inl ''Name or service not known'')\<rparr>"

fun sample_attempts :: "time_point \<Rightarrow> nat \<Rightarrow> attempt list" where
  "sample_attempts now 0 = []"
| "sample_attempts now (Suc n) =
     \<lparr>at_env = unknown_host, at_failure = now, at_restart = now + 30 * ns_per_s, at_logged = []\<rparr> #
       sample_attempts (now + 32 * ns_per_s) n"

lemma sample_attempts_follow:
  "t0 + 32 * ns_per_s = now \<Longrightarrow> attempts_follow t0 (sample_attempts now n)"
  by (induction n arbitrary: t0 now)
    (auto simp: attempt_ok_def unreachable_def unknown_host_def ten_hours_def ns_per_s_def)

definition sample_surroundings :: surroundings where
  "sample_surroundings = \<lparr>su_fmt = fmt_now, su_minlevel = Finest,
     su_logger = (new_logger 1 (upcast Inl open_console))
       \<lparr>lg_subsystems := [(1, \<lparr>si_name = ''stomp'', si_min_level = Finest\<rparr>)]\<rparr>,
     su_stomp = 1, su_tcp = 2, su_function = (\<lambda>_. ''connect_thread'')\<rparr>"

definition sample_ending :: "stomp_sink \<Rightarrow> (stdout_stream + stomp_sink) log_thread" where
  "sample_ending sk = lt_terminate (lt_enqueue (sample_event Info ''a'' 0)
     ((new_log_thread 1 (upcast Inl open_console))\<lparr>lt_streams := [(''server'', 2), (''stdout'', 1)],
       lt_heap := [1 \<mapsto> upcast Inl open_console, 2 \<mapsto> upcast Inr (new_output_stream Finest sk)]\<rparr>))"

theorem unreachable_server_blocks_exit_witness:
  "\<exists>sp. new_stomp_stream replacements ''app'' ''stomp://broker'' None None = Inr sp \<and>
     (\<forall>n. \<exists>sk t' w. sk_stream sk = sp \<and>
        system_run sample_surroundings (dispatch stdout_class (stomp_class replacements)) 2
          (S_round 0 # concat (map attempt_steps (sample_attempts (2 * ns_per_s) (Suc n)))) (sample_ending sk) = Inr (False, t') \<and>
        w \<in> set (retry_queue t' 2) \<and> le_level w = Warning)"
proof -
  obtain sp where sp: "new_stomp_stream replacements ''app'' ''stomp://broker'' None None = Inr sp"
    using new_stomp_plain [OF sample_URL, where order = replacements and app_name = "''app''" and
        hostname = None and user = None] by (auto simp: default_URL_def)
  have "\<exists>sk t' w. sk_stream sk = sp \<and>
        system_run sample_surroundings (dispatch stdout_class (stomp_class replacements)) 2
          (S_round 0 # concat (map attempt_steps (sample_attempts (2 * ns_per_s) (Suc n)))) (sample_ending sk) = Inr (False, t') \<and>
        w \<in> set (retry_queue t' 2) \<and> le_level w = Warning" for n
  proof -
    obtain a as where as: "sample_attempts (2 * ns_per_s) (Suc n) = a # as" "at_failure a = 2 * ns_per_s" by simp
    have follow: "attempt_ok a" "attempts_follow (at_failure a) as"
      using sample_attempts_follow [of "- 30 * ns_per_s" "2 * ns_per_s" "Suc n"] unfolding as(1)
      by (simp_all add: ns_per_s_def)
    define sk where "sk = \<lparr>sk_stream = sp, sk_calls = idle # concat (map attempt_calls (a # as)) @ []\<rparr>"
    have t: "lt_retry_map (sample_ending sk) = []" "distinct (map snd (lt_streams (sample_ending sk)))"
      "2 \<in> set (map snd (lt_streams (sample_ending sk)))" "lt_do_terminate (sample_ending sk)"
      "lt_events (sample_ending sk) = [sample_event Info ''a'' 0]"
      "lt_heap (sample_ending sk) 2 = Some (upcast Inr (new_output_stream Finest sk))"
      "\<forall>p' \<in> set (map snd (lt_streams (sample_ending sk))). p' \<noteq> 2 \<longrightarrow>
        (\<exists>s0. lt_heap (sample_ending sk) p' = Some (upcast Inl s0) \<and> console_open s0)"
      by (auto simp: sample_ending_def lt_terminate_def lt_enqueue_def new_log_thread_def console_open_def
          open_console_def)
    have heap: "lt_heap (sample_ending sk) 2 = Some (upcast Inr (new_output_stream Finest
        \<lparr>sk_stream = sp, sk_calls = idle # concat (map attempt_calls (a # as)) @ []\<rparr>))"
      using t(6) unfolding sk_def .
    have e: "sample_event Info ''a'' 0 \<in> set (lt_events (sample_ending sk))" "Finest \<le> le_level (sample_event Info ''a'' 0)"
      "\<not> expired (at_failure a) (sample_event Info ''a'' 0)"
      using t(5) as(2)
      by (simp_all add: Finest_least expired_def sample_event_def expiry_time_def map_find_def trunc_div_def ns_per_s_def)
    have su: "hears_warnings sample_surroundings" "Finest \<le> Warning"
      by (simp_all add: hears_warnings_def sample_surroundings_def fmt_now_def map_find_def Finest_least)
    obtain t' w where "system_run sample_surroundings (dispatch stdout_class (stomp_class replacements)) 2
        (S_round 0 # concat (map attempt_steps (a # as))) (sample_ending sk) = Inr (False, t')"
      "w \<in> set (retry_queue t' 2)" "le_level w = Warning"
      using unreachable_server_blocks_exit [OF t(1-3,7) heap sp e t(4) su follow, of 0]
      unfolding own_warning_def by blast
    moreover have "sk_stream sk = sp" by (simp add: sk_def)
    ultimately show ?thesis unfolding as(1) by blast
  qed
  then show ?thesis using sp by blast
qed

end
