(* ===== verification/Removal.thy ===== *)
theory Removal
  imports Logger Stomp_Delivery
begin

section \<open>Removing a sink that has a retry thread (logger.cpp, log_thread.cpp)\<close>

text \<open>
  \<^verbatim>\<open>remove_output_stream\<close> deletes the sink and its name, and leaves its retry thread alone. Here
  this is followed through the virtual destructor and into whatever the log thread and the other
  retry threads do next.
\<close>

subsection \<open>A retry thread whose sink is gone\<close>

definition abandoned :: "nat \<Rightarrow> retry_thread \<Rightarrow> 's log_thread \<Rightarrow> bool" where
  "abandoned p r t \<longleftrightarrow> map_wf (lt_retry_map t) \<and> p \<notin> set (map snd (lt_streams t)) \<and> lt_heap t p = None \<and>
     map_find p (lt_retry_map t) = Some (Some r) \<and> rt_running r"

lemma abandoned_cycle: "abandoned p r t \<Longrightarrow> retry_thread_cycle c p tpnow t = Inl Use_after_free"
  by (simp add: abandoned_def retry_thread_cycle_def)

text \<open>No delivery to another sink and no other retry thread changes that.\<close>

lemma abandoned_write_direct:
  "write_direct c spawn e q t = Inr t' \<Longrightarrow> abandoned p r t \<Longrightarrow> q \<noteq> p \<Longrightarrow> abandoned p r t' \<and> lt_streams t' = lt_streams t"
  by (auto simp: write_direct_def abandoned_def cmap.find_emplace Let_def intro: map_wf_intros
      split: option.splits prod.splits if_splits)

lemma abandoned_erase:
  "abandoned p r t \<Longrightarrow> q \<noteq> p \<Longrightarrow> abandoned p r (t\<lparr>lt_retry_map := map_erase q (lt_retry_map t)\<rparr>)"
  by (auto simp: abandoned_def cmap.find_erase intro: map_wf_intros)

lemma abandoned_log_stream:
  assumes "log_stream c spawn e q t = Inr t'" "abandoned p r t" "q \<noteq> p"
  shows "abandoned p r t' \<and> lt_streams t' = lt_streams t"
proof (cases "\<exists>r'. map_find q (lt_retry_map t) = Some (Some r') \<and> rt_active r'")
  case True
  then obtain r' where r': "map_find q (lt_retry_map t) = Some (Some r')" "rt_active r'" by blast
  then have "t' = t\<lparr>lt_retry_map := map_assign q (Some (rt_enqueue e r')) (lt_retry_map t)\<rparr>"
    using assms(1) by (simp add: log_stream_def)
  then show ?thesis using assms(2,3) r'(1) by (simp add: abandoned_def cmap.find_assign map_wf_intros)
next
  case False
  then have "write_direct c spawn e q t = Inr t' \<or>
      write_direct c spawn e q (t\<lparr>lt_retry_map := map_erase q (lt_retry_map t)\<rparr>) = Inr t'"
    using assms(1) by (auto simp: log_stream_def split: option.splits if_splits)
  then show ?thesis
    using abandoned_write_direct [OF _ assms(2,3)] abandoned_write_direct [OF _ abandoned_erase [OF assms(2,3)] assms(3)]
    by auto
qed

lemma abandoned_log_streams:
  "log_streams c spawn e xs t = Inr t' \<Longrightarrow> abandoned p r t \<Longrightarrow> p \<notin> set (map snd xs) \<Longrightarrow>
     abandoned p r t' \<and> lt_streams t' = lt_streams t"
proof (induction c spawn e xs t rule: log_streams.induct)
  case (2 c spawn e name q xs t)
  then obtain t1 where t1: "log_stream c spawn e q t = Inr t1" "log_streams c spawn e xs t1 = Inr t'" by auto
  have "q \<noteq> p" "p \<notin> set (map snd xs)" using "2.prems"(3) by auto
  then show ?case
    using "2.IH" [OF t1] abandoned_log_stream [OF t1(1) "2.prems"(2)] by simp
qed simp

lemma abandoned_log: "lt_log fmt c spawn e t = Inr t' \<Longrightarrow> abandoned p r t \<Longrightarrow> abandoned p r t'"
  using abandoned_log_streams [of c spawn _ "lt_streams t" t t' p r]
  by (auto simp: lt_log_def abandoned_def split: option.splits)

lemma abandoned_log_all: "log_all fmt c spawn es t = Inr t' \<Longrightarrow> abandoned p r t \<Longrightarrow> abandoned p r t'"
  by (induction fmt c spawn es t rule: log_all.induct) (auto dest: abandoned_log)

lemma abandoned_other_cycle:
  "retry_thread_cycle c q tpnow t = Inr t' \<Longrightarrow> abandoned p r t \<Longrightarrow> q \<noteq> p \<Longrightarrow> abandoned p r t'"
  by (auto simp: retry_thread_cycle_def abandoned_def cmap.find_assign Let_def intro: map_wf_intros
      simp del: rt_run.simps split: option.splits if_splits)

lemma abandoned_history:
  assumes "abandoned p r t" "Op_cycle p tpnow \<in> set xs"
  shows "\<exists>e. lt_run_ops fmt c xs t = Inl e"
  using assms
proof (induction xs arbitrary: t)
  case (Cons x xs)
  show ?case
  proof (cases "lt_run_op fmt c x t")
    case (Inr t1)
    have "x \<noteq> Op_cycle p tpnow" using Inr abandoned_cycle [OF Cons.prems(1), of c tpnow] by auto
    then have "Op_cycle p tpnow \<in> set xs" using Cons.prems(2) by simp
    moreover have "abandoned p r t1"
    proof (cases x)
      case (Op_log spawn e)
      then show ?thesis using Inr abandoned_log [OF _ Cons.prems(1)] by simp
    next
      case (Op_cycle q now)
      then have "q \<noteq> p" using Inr abandoned_cycle [OF Cons.prems(1), of c now] by auto
      then show ?thesis using Inr Op_cycle abandoned_other_cycle [OF _ Cons.prems(1)] by simp
    qed
    ultimately show ?thesis using Cons.IH Inr by simp
  qed simp
qed simp

subsection \<open>The removal\<close>

lemma find_unique_pointer:
  assumes "distinct (map snd xs)" "map_find name xs = Some p"
  shows "p \<notin> set (map snd (map_erase name xs))"
proof -
  have "(n, p) \<notin> set xs" if "n \<noteq> name" for n
    using assms that map_of_SomeD [of xs name p] by (force simp: map_find_def distinct_map inj_on_def)
  then show ?thesis by (auto simp: map_erase_def)
qed

lemma remove_output_stream_result:
  assumes "lg_thread lg = Some t" "lt_wf t" "map_find name (lt_streams t) = Some p" "lt_heap t p = Some s"
    and "vt_destroy c (os_derived s) = Inr d"
  shows "\<exists>t'. remove_output_stream c name lg = Inr (True, lg\<lparr>lg_thread := Some t'\<rparr>) \<and> lt_wf t' \<and>
    lt_streams t' = map_erase name (lt_streams t) \<and> lt_retry_map t' = lt_retry_map t \<and>
    lt_heap t' = (lt_heap t)(p := None) \<and> lt_deleted t' = lt_deleted t @ [(p, d)] \<and>
    p \<notin> set (map snd (lt_streams t'))"
proof -
  have p: "p \<notin> set (map snd (map_erase name (lt_streams t)))"
    using find_unique_pointer [OF _ assms(3)] assms(2) by (simp add: lt_wf_def)
  have "distinct (map snd (map_erase name (lt_streams t)))"
    using assms(2) by (simp add: lt_wf_def map_erase_def distinct_map_filter)
  moreover have "set (map snd (map_erase name (lt_streams t))) \<subseteq> set (map snd (lt_streams t))"
    by (auto simp: map_erase_def)
  moreover define t' where "t' = t\<lparr>lt_heap := (lt_heap t)(p := None), lt_deleted := lt_deleted t @ [(p, d)],
    lt_streams := map_erase name (lt_streams t)\<rparr>"
  ultimately have "lt_wf t'" using assms(2) p unfolding lt_wf_def by force
  moreover have "remove_output_stream c name lg = Inr (True, lg\<lparr>lg_thread := Some t'\<rparr>)"
    using assms(1,3-5) by (simp add: remove_output_stream_def delete_stream_def t'_def)
  ultimately show ?thesis using p by (intro exI [of _ t']) (simp add: t'_def)
qed

text \<open>
  C23. Removing a sink does not end its retry thread. What \<^verbatim>\<open>remove_output_stream\<close> does to a sink
  whose retry thread is running is decided by the sink's destructor. If that ends the program, as
  that of a STOMP sink does while its connect thread has not been joined, then so does the removal.
  Otherwise it reports success, the sink is destroyed, every other name keeps its sink, and the log
  thread goes on: it delivers any further events to the other sinks as if nothing had happened. But
  the retry thread is still there, and its next cycle works on the deleted object, whatever has
  been delivered before; so no history of the log thread in which it gets another cycle can
  succeed.
\<close>

theorem remove_under_retry:
  assumes "lg_thread lg = Some t" "lt_wf t" "map_find name (lt_streams t) = Some p" "lt_heap t p = Some s"
    and "map_find p (lt_retry_map t) = Some (Some r)" "rt_running r"
  shows "case vt_destroy c (os_derived s) of
      Inl e \<Rightarrow> remove_output_stream c name lg = Inl e
    | Inr d \<Rightarrow> \<exists>lg' t'. remove_output_stream c name lg = Inr (True, lg') \<and> lg_thread lg' = Some t' \<and>
        lt_heap t' p = None \<and> lt_deleted t' = lt_deleted t @ [(p, d)] \<and>
        (\<forall>n. map_find n (lt_streams t') = (if n = name then None else map_find n (lt_streams t))) \<and>
        (\<forall>spawn es tpnow. (\<forall>e \<in> set es. fmt (le_time e) \<noteq> None) \<longrightarrow> (\<forall>e p. spawn e p = None) \<longrightarrow>
          (\<exists>t''. log_all fmt c spawn es t' = Inr t'' \<and> retry_thread_cycle c p tpnow t'' = Inl Use_after_free \<and>
            (\<forall>n q. n \<noteq> name \<longrightarrow> map_find n (lt_streams t) = Some q \<longrightarrow> sink_view t'' q =
               map_option (fold (sink_log (os_write (vt_do_write c)) True) (map (stamp fmt) es)) (sink_view t q)))) \<and>
        (\<forall>xs tpnow. Op_cycle p tpnow \<in> set xs \<longrightarrow> (\<exists>e. lt_run_ops fmt c xs t' = Inl e))"
proof (cases "vt_destroy c (os_derived s)")
  case (Inl e)
  then show ?thesis using assms(1,3,4) by (simp add: remove_output_stream_def delete_stream_def)
next
  case (Inr d)
  obtain t' where t': "remove_output_stream c name lg = Inr (True, lg\<lparr>lg_thread := Some t'\<rparr>)" "lt_wf t'"
    "lt_streams t' = map_erase name (lt_streams t)" "lt_retry_map t' = lt_retry_map t"
    "lt_heap t' = (lt_heap t)(p := None)" "lt_deleted t' = lt_deleted t @ [(p, d)]"
    "p \<notin> set (map snd (lt_streams t'))"
    using remove_output_stream_result [OF assms(1-4) Inr] by blast
  have gone: "abandoned p r t'" using t'(2,4,5,7) assms(5,6) by (simp add: abandoned_def lt_wf_def)
  have names: "map_find n (lt_streams t') = (if n = name then None else map_find n (lt_streams t))" for n
    by (simp add: t'(3) cmap.find_erase)
  have others: "q \<in> set (map snd (lt_streams t'))" "q \<noteq> p" if "n \<noteq> name" "map_find n (lt_streams t) = Some q" for n q
  proof -
    have "(n, q) \<in> set (lt_streams t')"
      using map_of_SomeD [of "lt_streams t" n q] that by (simp add: t'(3) map_erase_def map_find_def)
    then show "q \<in> set (map snd (lt_streams t'))" "q \<noteq> p" using t'(7) by force+
  qed
  have delivers: "\<exists>t''. log_all fmt c spawn es t' = Inr t'' \<and> retry_thread_cycle c p tpnow t'' = Inl Use_after_free \<and>
      (\<forall>n q. n \<noteq> name \<longrightarrow> map_find n (lt_streams t) = Some q \<longrightarrow> sink_view t'' q =
         map_option (fold (sink_log (os_write (vt_do_write c)) True) (map (stamp fmt) es)) (sink_view t q))"
    if ok: "\<forall>e \<in> set es. fmt (le_time e) \<noteq> None" "\<forall>e p. spawn e p = None" for spawn es tpnow
  proof -
    obtain t'' where t'': "log_all fmt c spawn es t' = Inr t''"
      "\<forall>q \<in> set (map snd (lt_streams t')). sink_view t'' q =
         map_option (fold (sink_log (os_write (vt_do_write c)) True) (map (stamp fmt) es)) (sink_view t' q)"
      using log_all_view [OF t'(2) ok] by blast
    have same: "sink_view t' q = sink_view t q" if "q \<noteq> p" for q
      using that t'(4,5) by (simp add: sink_view_def retry_queue_def)
    have "sink_view t'' q =
        map_option (fold (sink_log (os_write (vt_do_write c)) True) (map (stamp fmt) es)) (sink_view t q)"
      if "n \<noteq> name" "map_find n (lt_streams t) = Some q" for n q
      using bspec [OF t''(2) others(1) [OF that]] unfolding same [OF others(2) [OF that]] .
    then show ?thesis using t''(1) abandoned_cycle [OF abandoned_log_all [OF t''(1) gone]] by blast
  qed
  show ?thesis
    unfolding Inr sum.case
  proof (rule exI [of _ "lg\<lparr>lg_thread := Some t'\<rparr>"], rule exI [of _ t'], intro conjI allI impI)
    show "lt_heap t' p = None" by (simp add: t'(5))
  qed (fact t'(1,6) names, simp, rule t'(6), rule names, (rule delivers; assumption), (rule abandoned_history [OF gone]; assumption))
qed

text \<open>A console with a retry thread, and a STOMP sink whose connect thread nobody has joined.\<close>

definition retrying :: "'s output_stream \<Rightarrow> 's log_thread" where
  "retrying s = (new_log_thread 1 s)\<lparr>
     lt_retry_map := [(1, Some (rt_enqueue (sample_event Severe ''a'' 0) (new_retry_thread 1)))]\<rparr>"

definition retrying_logger :: "'s output_stream \<Rightarrow> 's logger" where
  "retrying_logger s = (new_logger 1 s)\<lparr>lg_thread := Some (retrying s)\<rparr>"

lemma retrying_fields:
  "lg_thread (retrying_logger s) = Some (retrying s)"
  "lt_wf (retrying s)"
  "map_find ''stdout'' (lt_streams (retrying s)) = Some 1"
  "lt_heap (retrying s) 1 = Some s"
  "map_find 1 (lt_retry_map (retrying s)) = Some (Some (rt_enqueue (sample_event Severe ''a'' 0) (new_retry_thread 1)))"
  "rt_running (rt_enqueue (sample_event Severe ''a'' 0) (new_retry_thread 1))"
  by (simp_all add: retrying_logger_def retrying_def new_log_thread_def lt_wf_def map_wf_def map_find_def
      rt_enqueue_def new_retry_thread_def)

theorem remove_under_retry_witness:
  "(\<exists>lg' t' t''. remove_output_stream stdout_class ''stdout'' (retrying_logger dead_console) = Inr (True, lg') \<and>
      lg_thread lg' = Some t' \<and> log_all fmt_now stdout_class no_spawn_error [sample_event Info ''b'' 1] t' = Inr t'' \<and>
      retry_thread_cycle stdout_class 1 5 t'' = Inl Use_after_free) \<and>
   remove_output_stream (stomp_class replacements) ''stdout''
     (retrying_logger (new_output_stream Finest \<lparr>sk_stream = sample_stomp, sk_calls = []\<rparr>)) = Inl Std_terminate"
proof -
  let ?stomp = "new_output_stream Finest \<lparr>sk_stream = sample_stomp, sk_calls = []\<rparr>"
  have console: "vt_destroy stdout_class (os_derived dead_console) = Inr (os_derived dead_console)"
    by (simp add: stdout_class_def)
  have times: "\<forall>e \<in> set [sample_event Info ''b'' 1]. fmt_now (le_time e) \<noteq> None" "\<forall>e p. no_spawn_error e p = None"
    by (simp_all add: fmt_now_def no_spawn_error_def)
  have first: "\<exists>lg' t' t''. remove_output_stream stdout_class ''stdout'' (retrying_logger dead_console) = Inr (True, lg') \<and>
      lg_thread lg' = Some t' \<and> log_all fmt_now stdout_class no_spawn_error [sample_event Info ''b'' 1] t' = Inr t'' \<and>
      retry_thread_cycle stdout_class 1 5 t'' = Inl Use_after_free"
  proof -
    from remove_under_retry [OF retrying_fields, of stdout_class dead_console fmt_now]
    obtain lg' t' where removed: "remove_output_stream stdout_class ''stdout'' (retrying_logger dead_console) = Inr (True, lg')"
        "lg_thread lg' = Some t'"
      and later: "\<forall>spawn es tpnow. (\<forall>e \<in> set es. fmt_now (le_time e) \<noteq> None) \<longrightarrow> (\<forall>e p. spawn e p = None) \<longrightarrow>
        (\<exists>t''. log_all fmt_now stdout_class spawn es t' = Inr t'' \<and> retry_thread_cycle stdout_class 1 tpnow t'' = Inl Use_after_free)"
      unfolding console sum.case by meson
    from later [rule_format, of "[sample_event Info ''b'' 1]" no_spawn_error 5] times obtain t'' where
      "log_all fmt_now stdout_class no_spawn_error [sample_event Info ''b'' 1] t' = Inr t''"
      "retry_thread_cycle stdout_class 1 5 t'' = Inl Use_after_free" by auto
    then show ?thesis using removed by blast
  qed
  have "vt_destroy (stomp_class replacements) (os_derived ?stomp) = Inl Std_terminate"
    by (simp add: new_output_stream_def stomp_class_def destroy_stomp_stream_def sample_stomp_def)
  then have "remove_output_stream (stomp_class replacements) ''stdout'' (retrying_logger ?stomp) = Inl Std_terminate"
    using remove_under_retry [OF retrying_fields, of "stomp_class replacements" ?stomp fmt_now] by simp
  then show ?thesis using first by blast
qed

end
