(* ===== verification/Event_Queue.thy ===== *)
theory Event_Queue
  imports Log_Event
begin

section \<open>The event queue between the threads (log_thread.cpp, logger.cpp)\<close>

text \<open>
  \<^verbatim>\<open>m_events\<close>, \<^verbatim>\<open>m_mutex\<close> and \<^verbatim>\<open>m_cond\<close>: any number of threads that call
  \<^verbatim>\<open>enqueue\<close> and \<^verbatim>\<open>terminate\<close>, and the log thread in \<^verbatim>\<open>do_run\<close>. Every operation on
  the mutex, the condition variable and the shared members is a step of its own, taken in any
  order. A signal can reach every thread at every point; its handler calls \<^verbatim>\<open>enqueue\<close> and
  \<^verbatim>\<open>terminate\<close> on the thread it has interrupted and does not return there.
\<close>

subsection \<open>Threads and steps\<close>

datatype call = Call_enqueue log_event | Call_terminate

text \<open>
  Control points: outside of any call; in \<^verbatim>\<open>enqueue\<close> before each of its four operations; in
  \<^verbatim>\<open>terminate\<close> before each of its five; behind the \<^verbatim>\<open>join\<close>, when it has returned and when it
  has thrown; in \<^verbatim>\<open>do_run\<close>, in the order of the code; ended by an exception nobody catches.
\<close>

datatype pc =
    Idle
  | Lock log_event | Push log_event | Unlock | Notify
  | Ask | Set_flag | Unlock_flag | Notify_flag | Join | Joined | Thrown
  | M_lock | M_swap | M_unlock | M_work | M_relock | M_test | M_scan | M_sleep | M_last_lock | M_last_test
  | M_wait | M_wake | M_end | M_done
  | Aborted

fun entry :: "call \<Rightarrow> pc" where
  "entry (Call_enqueue e) = Lock e"
| "entry Call_terminate = Ask"

text \<open>
  The shared members and the local queue of the log thread, which is thread 0; for every thread
  its control point and the calls a signal handler on it has still to make. \<open>eq_joinable\<close> is the
  state of \<^verbatim>\<open>m_thread\<close>: a \<^verbatim>\<open>join\<close> that returns leaves it without a thread, and any other \<^verbatim>\<open>join\<close>
  then throws a \<^verbatim>\<open>system_error\<close>. (Two that wait at the same time are not defined; here, as in
  practice, one of them returns and the other one throws.) The last two fields
  are histories: what has been put into the queue, what the log thread has passed to \<^verbatim>\<open>log\<close>.
\<close>

record event_queue =
  eq_owner :: "nat option"
  eq_events :: "log_event list"
  eq_max_size :: nat
  eq_do_terminate :: bool
  eq_joinable :: bool
  eq_local :: "log_event list"
  eq_pc :: "nat \<Rightarrow> pc"
  eq_todo :: "nat \<Rightarrow> call list"
  eq_pushed :: "log_event list"
  eq_logged :: "log_event list"

definition queue_start :: event_queue where
  "queue_start = \<lparr>eq_owner = None, eq_events = [], eq_max_size = 0, eq_do_terminate = False, eq_joinable = True, eq_local = [],
     eq_pc = (\<lambda>_. Idle)(0 := M_lock), eq_todo = (\<lambda>_. []), eq_pushed = [], eq_logged = []\<rparr>"

definition goto :: "nat \<Rightarrow> pc \<Rightarrow> event_queue \<Rightarrow> event_queue" where
  "goto i p s = s\<lparr>eq_pc := (eq_pc s)(i := p)\<rparr>"

definition acquire :: "nat \<Rightarrow> pc \<Rightarrow> event_queue \<Rightarrow> event_queue" where
  "acquire i p s = goto i p (s\<lparr>eq_owner := Some i\<rparr>)"

definition release :: "nat \<Rightarrow> pc \<Rightarrow> event_queue \<Rightarrow> event_queue" where
  "release i p s = goto i p (s\<lparr>eq_owner := None\<rparr>)"

text \<open>\<^verbatim>\<open>notify_one\<close>: the log thread is the only one that ever waits.\<close>

definition notify_one :: "event_queue \<Rightarrow> event_queue" where
  "notify_one s = (if eq_pc s 0 = M_wait then goto 0 M_wake s else s)"

text \<open>
  The application calls (\<open>Begin\<close>), a thread does its next operation (\<open>Act\<close>), the scan of the
  retry threads ends with its result (\<open>Scan\<close>), a waiting thread wakes up without a reason
  (\<open>Spurious\<close>), a signal arrives, with the messages its handler will log (\<open>Signal\<close>).
\<close>

datatype queue_action = Begin nat call | Act nat | Scan bool | Spurious | Signal nat "log_event list"

inductive qstep :: "event_queue \<Rightarrow> queue_action \<Rightarrow> event_queue \<Rightarrow> bool" where
  begin_call: "i \<noteq> 0 \<Longrightarrow> eq_pc s i = Idle \<Longrightarrow> eq_todo s i = [] \<Longrightarrow> qstep s (Begin i cl) (goto i (entry cl) s)"
| next_call: "eq_pc s i = Idle \<Longrightarrow> eq_todo s i = cl # cls \<Longrightarrow>
     qstep s (Act i) (goto i (entry cl) (s\<lparr>eq_todo := (eq_todo s)(i := cls)\<rparr>))"
| lock: "eq_pc s i = Lock e \<Longrightarrow> eq_owner s = None \<Longrightarrow> qstep s (Act i) (acquire i (Push e) s)"
| push: "eq_pc s i = Push e \<Longrightarrow>
     qstep s (Act i) (goto i Unlock (s\<lparr>eq_events := eq_events s @ [e],
       eq_max_size := max (eq_max_size s) (Suc (length (eq_events s))), eq_pushed := eq_pushed s @ [e]\<rparr>))"
| unlock: "eq_pc s i = Unlock \<Longrightarrow> qstep s (Act i) (release i Notify s)"
| notify: "eq_pc s i = Notify \<Longrightarrow> qstep s (Act i) (goto i Idle (notify_one s))"
| ask: "eq_pc s i = Ask \<Longrightarrow> eq_owner s = None \<Longrightarrow> qstep s (Act i) (acquire i Set_flag s)"
| set_flag: "eq_pc s i = Set_flag \<Longrightarrow> qstep s (Act i) (goto i Unlock_flag (s\<lparr>eq_do_terminate := True\<rparr>))"
| unlock_flag: "eq_pc s i = Unlock_flag \<Longrightarrow> qstep s (Act i) (release i Notify_flag s)"
| notify_flag: "eq_pc s i = Notify_flag \<Longrightarrow> qstep s (Act i) (goto i Join (notify_one s))"
| join: "eq_pc s i = Join \<Longrightarrow> i \<noteq> 0 \<Longrightarrow> eq_joinable s \<Longrightarrow> eq_pc s 0 = M_done \<Longrightarrow>
     qstep s (Act i) (goto i Joined (s\<lparr>eq_joinable := False\<rparr>))"
| join_again: "eq_pc s i = Join \<Longrightarrow> i \<noteq> 0 \<Longrightarrow> \<not> eq_joinable s \<Longrightarrow> qstep s (Act i) (goto i Thrown s)"
| join_self: "eq_pc s 0 = Join \<Longrightarrow> qstep s (Act 0) (goto 0 Aborted s)"
| m_lock: "eq_pc s 0 = M_lock \<Longrightarrow> eq_owner s = None \<Longrightarrow> qstep s (Act 0) (acquire 0 M_swap s)"
| m_swap: "eq_pc s 0 = M_swap \<Longrightarrow>
     qstep s (Act 0) (goto 0 M_unlock (s\<lparr>eq_local := eq_events s, eq_events := eq_local s\<rparr>))"
| m_unlock: "eq_pc s 0 = M_unlock \<Longrightarrow> qstep s (Act 0) (release 0 M_work s)"
| m_work: "eq_pc s 0 = M_work \<Longrightarrow> eq_local s = e # es \<Longrightarrow>
     qstep s (Act 0) (s\<lparr>eq_local := es, eq_logged := eq_logged s @ [e]\<rparr>)"
| m_worked: "eq_pc s 0 = M_work \<Longrightarrow> eq_local s = [] \<Longrightarrow> qstep s (Act 0) (goto 0 M_relock s)"
| m_relock: "eq_pc s 0 = M_relock \<Longrightarrow> eq_owner s = None \<Longrightarrow> qstep s (Act 0) (acquire 0 M_test s)"
| m_test_end: "eq_pc s 0 = M_test \<Longrightarrow> eq_do_terminate s \<Longrightarrow> eq_events s = [] \<Longrightarrow>
     qstep s (Act 0) (release 0 M_scan s)"
| m_test_wait: "eq_pc s 0 = M_test \<Longrightarrow> \<not> eq_do_terminate s \<Longrightarrow> eq_events s = [] \<Longrightarrow>
     qstep s (Act 0) (release 0 M_wait s)"
| m_test_more: "eq_pc s 0 = M_test \<Longrightarrow> eq_events s \<noteq> [] \<Longrightarrow> qstep s (Act 0) (goto 0 M_end s)"
| m_scan: "eq_pc s 0 = M_scan \<Longrightarrow> qstep s (Scan still) (goto 0 (if still then M_sleep else M_last_lock) s)"
| m_sleep: "eq_pc s 0 = M_sleep \<Longrightarrow> qstep s (Act 0) (goto 0 M_lock s)"
| m_last_lock: "eq_pc s 0 = M_last_lock \<Longrightarrow> eq_owner s = None \<Longrightarrow> qstep s (Act 0) (acquire 0 M_last_test s)"
| m_return: "eq_pc s 0 = M_last_test \<Longrightarrow> eq_events s = [] \<Longrightarrow> qstep s (Act 0) (release 0 M_done s)"
| m_last_more: "eq_pc s 0 = M_last_test \<Longrightarrow> eq_events s \<noteq> [] \<Longrightarrow> qstep s (Act 0) (release 0 M_lock s)"
| spurious: "eq_pc s 0 = M_wait \<Longrightarrow> qstep s Spurious (goto 0 M_wake s)"
| m_wake: "eq_pc s 0 = M_wake \<Longrightarrow> eq_owner s = None \<Longrightarrow> qstep s (Act 0) (acquire 0 M_end s)"
| m_end: "eq_pc s 0 = M_end \<Longrightarrow> qstep s (Act 0) (release 0 M_lock s)"
| signal: "eq_pc s i \<notin> {Joined, Thrown, M_done, Aborted} \<Longrightarrow>
     qstep s (Signal i msgs) (goto i Idle (s\<lparr>eq_todo := (eq_todo s)(i := map Call_enqueue msgs @ [Call_terminate])\<rparr>))"

code_pred (modes: i \<Rightarrow> i \<Rightarrow> o \<Rightarrow> bool as qstep_out) qstep .

inductive_cases qstepE: "qstep s a s'"

inductive_simps qstep_simps:
  "qstep s (Begin i cl) s'" "qstep s (Act i) s'" "qstep s (Scan b) s'" "qstep s Spurious s'" "qstep s (Signal i msgs) s'"

inductive qrun :: "event_queue \<Rightarrow> queue_action list \<Rightarrow> event_queue \<Rightarrow> bool" where
  qrun_Nil: "qrun s [] s"
| qrun_Cons: "qstep s a s1 \<Longrightarrow> qrun s1 as s' \<Longrightarrow> qrun s (a # as) s'"

inductive_simps qrun_Nil_eq: "qrun s [] s'"
inductive_simps qrun_Cons_eq: "qrun s (a # as) s'"

lemma qrun_append: "qrun s as s1 \<Longrightarrow> qrun s1 bs s' \<Longrightarrow> qrun s (as @ bs) s'"
  by (induction rule: qrun.induct) (auto intro: qrun.intros)

text \<open>What is kept by every step of a class is kept by every run of it.\<close>

lemma qrun_keeps:
  assumes "qrun s as s'" "P s" "\<forall>a \<in> set as. Q a"
    and "\<And>s a s'. qstep s a s' \<Longrightarrow> Q a \<Longrightarrow> P s \<Longrightarrow> P s'"
  shows "P s'"
  using assms(1-3) by (induction rule: qrun.induct) (auto dest: assms(4))

lemmas queue_updates = goto_def acquire_def release_def notify_one_def

subsection \<open>The lock and the order of events\<close>

definition holds :: "pc \<Rightarrow> bool" where
  "holds p \<longleftrightarrow> (\<exists>e. p = Push e) \<or>
     p \<in> {Unlock, Set_flag, Unlock_flag, M_swap, M_unlock, M_test, M_last_test, M_end}"

lemma holds_simps [simp]:
  "\<not> holds Idle" "\<not> holds (Lock e)" "holds (Push e)" "holds Unlock" "\<not> holds Notify" "\<not> holds Ask"
  "holds Set_flag" "holds Unlock_flag" "\<not> holds Notify_flag" "\<not> holds Join" "\<not> holds Joined" "\<not> holds Thrown" "\<not> holds M_lock"
  "holds M_swap" "holds M_unlock" "\<not> holds M_work" "\<not> holds M_relock" "holds M_test" "\<not> holds M_scan"
  "\<not> holds M_sleep" "\<not> holds M_last_lock" "holds M_last_test" "\<not> holds M_wait" "\<not> holds M_wake" "holds M_end"
  "\<not> holds M_done" "\<not> holds Aborted"
  by (simp_all add: holds_def)

definition lock_inv :: "event_queue \<Rightarrow> bool" where
  "lock_inv s \<longleftrightarrow> (\<forall>i. holds (eq_pc s i) \<longrightarrow> eq_owner s = Some i)"

text \<open>Where the log thread's local queue is empty: everywhere but between its swap and its second lock.\<close>

definition before_swap :: "pc \<Rightarrow> bool" where
  "before_swap p \<longleftrightarrow> p \<in> {M_lock, M_swap, M_relock, M_test, M_scan, M_sleep, M_last_lock, M_last_test,
     M_wait, M_wake, M_end, M_done}"

definition chain_inv :: "event_queue \<Rightarrow> bool" where
  "chain_inv s \<longleftrightarrow> eq_logged s @ eq_local s @ eq_events s = eq_pushed s \<and>
     (before_swap (eq_pc s 0) \<longrightarrow> eq_local s = []) \<and> length (eq_events s) \<le> eq_max_size s"

lemma before_swap_simps [simp]:
  "\<not> before_swap Idle" "\<not> before_swap (Lock e)" "\<not> before_swap (Push e)" "\<not> before_swap Unlock"
  "\<not> before_swap Notify" "\<not> before_swap Ask" "\<not> before_swap Set_flag" "\<not> before_swap Unlock_flag"
  "\<not> before_swap Notify_flag" "\<not> before_swap Join" "\<not> before_swap Joined" "\<not> before_swap Thrown" "before_swap M_lock"
  "before_swap M_swap" "\<not> before_swap M_unlock" "\<not> before_swap M_work" "before_swap M_relock"
  "before_swap M_test" "before_swap M_scan" "before_swap M_sleep" "before_swap M_last_lock"
  "before_swap M_last_test" "before_swap M_wait" "before_swap M_wake" "before_swap M_end"
  "before_swap M_done" "\<not> before_swap Aborted"
  by (simp_all add: before_swap_def)

lemma entry_simps [simp]: "\<not> holds (entry cl)" "\<not> before_swap (entry cl)"
  by (cases cl; simp add: before_swap_def)+

lemma lock_inv_unique: "lock_inv s \<Longrightarrow> holds (eq_pc s i) \<Longrightarrow> holds (eq_pc s j) \<Longrightarrow> i = j"
  unfolding lock_inv_def by (metis option.inject)

lemma lock_inv_updates:
  "lock_inv s \<Longrightarrow> holds p \<longrightarrow> eq_owner s = Some i \<Longrightarrow> lock_inv (goto i p s)"
  "lock_inv s \<Longrightarrow> eq_owner s = None \<Longrightarrow> lock_inv (acquire i p s)"
  "lock_inv s \<Longrightarrow> holds (eq_pc s i) \<Longrightarrow> \<not> holds p \<Longrightarrow> lock_inv (release i p s)"
  "lock_inv s \<Longrightarrow> lock_inv (notify_one s)"
proof -
  assume s: "lock_inv s"
  show "lock_inv (goto i p s)" if "holds p \<longrightarrow> eq_owner s = Some i"
    using s that by (simp add: lock_inv_def goto_def)
  show "lock_inv (acquire i p s)" if "eq_owner s = None"
    using s that by (auto simp: lock_inv_def acquire_def goto_def)
  show "lock_inv (release i p s)" if "holds (eq_pc s i)" "\<not> holds p"
    using lock_inv_unique [OF s that(1)] that(2) by (auto simp: lock_inv_def release_def goto_def)
  show "lock_inv (notify_one s)"
    using s by (simp add: lock_inv_def notify_one_def goto_def)
qed

lemma lock_inv_members [simp]:
  "lock_inv (s\<lparr>eq_events := es\<rparr>) = lock_inv s" "lock_inv (s\<lparr>eq_max_size := n\<rparr>) = lock_inv s"
  "lock_inv (s\<lparr>eq_do_terminate := b\<rparr>) = lock_inv s" "lock_inv (s\<lparr>eq_local := es\<rparr>) = lock_inv s"
  "lock_inv (s\<lparr>eq_todo := f\<rparr>) = lock_inv s" "lock_inv (s\<lparr>eq_pushed := es\<rparr>) = lock_inv s"
  "lock_inv (s\<lparr>eq_logged := es\<rparr>) = lock_inv s" "lock_inv (s\<lparr>eq_joinable := b\<rparr>) = lock_inv s"
  by (simp_all add: lock_inv_def)

lemma lock_inv_step:
  assumes "qstep s a s'" "lock_inv s"
  shows "lock_inv s'"
  using assms
proof cases
  case (push i e)
  then show ?thesis using assms(2) by (auto intro!: lock_inv_updates) (auto simp: lock_inv_def)
qed (auto intro!: lock_inv_updates simp: lock_inv_def [THEN iffD1, rule_format])

lemma chain_inv_step: "qstep s a s' \<Longrightarrow> lock_inv s \<Longrightarrow> chain_inv s \<Longrightarrow> chain_inv s'"
  by (elim qstepE) (auto simp: chain_inv_def queue_updates split: if_splits)

lemma queue_start_inv: "lock_inv queue_start" "chain_inv queue_start"
  by (auto simp: lock_inv_def chain_inv_def queue_start_def before_swap_def)

lemma queue_inv_run:
  assumes "qrun queue_start as s"
  shows "lock_inv s" "chain_inv s"
proof -
  have "lock_inv s \<and> chain_inv s"
    by (rule qrun_keeps [OF assms, where Q = "\<lambda>_. True"])
      (use queue_start_inv lock_inv_step chain_inv_step in blast)+
  then show "lock_inv s" "chain_inv s" by simp_all
qed

text \<open>
  C7. The queue between the threads loses, repeats and reorders nothing, whatever the schedule,
  signals included: what the log thread has passed to \<^verbatim>\<open>log\<close>, what it has taken, and what
  is still queued are, in this order, all events that were put into the queue. At most one thread
  is ever between a lock and its unlock, and \<^verbatim>\<open>m_max_event_queue_size\<close> bounds the queue.
\<close>

theorem queue_every_event_once:
  assumes "qrun queue_start as s"
  shows "eq_logged s @ eq_local s @ eq_events s = eq_pushed s \<and> length (eq_events s) \<le> eq_max_size s \<and>
    (holds (eq_pc s i) \<and> holds (eq_pc s j) \<longrightarrow> i = j)"
  using queue_inv_run [OF assms] lock_inv_unique by (auto simp: chain_inv_def)

theorem queue_every_event_once_witness:
  "\<exists>s. qrun queue_start ([Begin 1 (Call_enqueue (sample_event Info ''a'' 0)), Begin 2 (Call_enqueue (sample_event Info ''b'' 0)),
       Act 2, Act 2, Signal 1 [], Act 2, Act 0]) s \<and> eq_events s = [sample_event Info ''b'' 0] \<and>
     eq_logged s @ eq_local s @ eq_events s = eq_pushed s"
proof -
  have "\<exists>s. qrun queue_start ([Begin 1 (Call_enqueue (sample_event Info ''a'' 0)), Begin 2 (Call_enqueue (sample_event Info ''b'' 0)),
       Act 2, Act 2, Signal 1 [], Act 2, Act 0]) s \<and> eq_events s = [sample_event Info ''b'' 0]"
    by (simp add: qrun_Cons_eq qrun_Nil_eq qstep_simps queue_start_def queue_updates)
  then show ?thesis using queue_every_event_once by blast
qed

subsection \<open>No wake-up is lost\<close>

definition is_main :: "pc \<Rightarrow> bool" where
  "is_main p \<longleftrightarrow> before_swap p \<or> p = M_unlock \<or> p = M_work"

definition ending :: "pc \<Rightarrow> bool" where
  "ending p \<longleftrightarrow> p \<in> {Unlock_flag, Notify_flag, Join, Joined, Thrown, M_scan, M_sleep, M_last_lock, M_last_test, M_done}"

text \<open>A thread that will notify the log thread without having to wait for the lock.\<close>

definition notifier :: "pc \<Rightarrow> bool" where
  "notifier p \<longleftrightarrow> p \<in> {Unlock, Notify, Unlock_flag, Notify_flag}"

lemma entry_plain [simp]: "\<not> is_main (entry cl)" "\<not> ending (entry cl)" "entry cl \<noteq> Aborted" "\<not> notifier (entry cl)"
  by (cases cl; simp add: is_main_def ending_def notifier_def)+

lemma is_main_simps [simp]:
  "\<not> is_main Idle" "\<not> is_main (Lock e)" "\<not> is_main (Push e)" "\<not> is_main Unlock" "\<not> is_main Notify"
  "\<not> is_main Ask" "\<not> is_main Set_flag" "\<not> is_main Unlock_flag" "\<not> is_main Notify_flag" "\<not> is_main Join"
  "\<not> is_main Joined" "\<not> is_main Thrown" "\<not> is_main Aborted" "is_main M_lock" "is_main M_swap" "is_main M_unlock" "is_main M_work"
  "is_main M_relock" "is_main M_test" "is_main M_scan" "is_main M_sleep" "is_main M_last_lock"
  "is_main M_last_test" "is_main M_wait" "is_main M_wake" "is_main M_end" "is_main M_done"
  by (simp_all add: is_main_def)

lemma ending_simps [simp]:
  "ending Unlock_flag" "ending Notify_flag" "ending Join" "ending Joined" "ending Thrown" "ending M_scan" "ending M_sleep"
  "ending M_last_lock" "ending M_last_test" "ending M_done" "\<not> ending Idle" "\<not> ending (Lock e)"
  "\<not> ending (Push e)" "\<not> ending Unlock" "\<not> ending Notify" "\<not> ending Ask" "\<not> ending Set_flag"
  "\<not> ending M_lock" "\<not> ending M_swap" "\<not> ending M_unlock" "\<not> ending M_work" "\<not> ending M_relock"
  "\<not> ending M_test" "\<not> ending M_wait" "\<not> ending M_wake" "\<not> ending M_end" "\<not> ending Aborted"
  by (simp_all add: ending_def)

lemma notifier_simps [simp]:
  "notifier Unlock" "notifier Notify" "notifier Unlock_flag" "notifier Notify_flag"
  "\<not> notifier Idle" "\<not> notifier (Lock e)" "\<not> notifier (Push e)" "\<not> notifier Ask" "\<not> notifier Set_flag"
  "\<not> notifier Join"
  by (simp_all add: notifier_def)

text \<open>
  Without signals: every thread runs its own code, a lock that is taken has its owner inside,
  nobody is past a request to terminate that has not been made, and when the log thread waits,
  what there is to do has its notifier.
\<close>

definition roles :: "event_queue \<Rightarrow> bool" where
  "roles s \<longleftrightarrow> (\<forall>i. is_main (eq_pc s i) \<longleftrightarrow> i = 0) \<and> (\<forall>i. eq_todo s i = [] \<and> eq_pc s i \<noteq> Aborted)"

definition owned :: "event_queue \<Rightarrow> bool" where
  "owned s \<longleftrightarrow> (\<forall>i. eq_owner s = Some i \<longrightarrow> holds (eq_pc s i))"

definition end_requested :: "event_queue \<Rightarrow> bool" where
  "end_requested s \<longleftrightarrow> (\<forall>i. ending (eq_pc s i) \<longrightarrow> eq_do_terminate s)"

definition noticed :: "event_queue \<Rightarrow> bool" where
  "noticed s \<longleftrightarrow> (eq_pc s 0 = M_wait \<and> (eq_events s \<noteq> [] \<or> eq_do_terminate s) \<longrightarrow> (\<exists>i. notifier (eq_pc s i)))"

definition no_signal :: "queue_action \<Rightarrow> bool" where
  "no_signal a \<longleftrightarrow> (\<forall>i msgs. a \<noteq> Signal i msgs)"

lemma roles_who: "roles s \<Longrightarrow> \<not> is_main (eq_pc s i) \<Longrightarrow> 0 < i"
  by (auto simp: roles_def)

lemma roles_goto:
  "roles s \<Longrightarrow> is_main p = is_main (eq_pc s i) \<Longrightarrow> p \<noteq> Aborted \<Longrightarrow> roles (goto i p s)"
  by (simp add: roles_def goto_def)

lemma roles_updates:
  "roles s \<Longrightarrow> is_main p = is_main (eq_pc s i) \<Longrightarrow> p \<noteq> Aborted \<Longrightarrow> roles (acquire i p s)"
  "roles s \<Longrightarrow> is_main p = is_main (eq_pc s i) \<Longrightarrow> p \<noteq> Aborted \<Longrightarrow> roles (release i p s)"
  "roles s \<Longrightarrow> roles (notify_one s)"
  by (auto simp: roles_def queue_updates)

lemma roles_step: "qstep s a s' \<Longrightarrow> no_signal a \<Longrightarrow> roles s \<Longrightarrow> roles s'"
  by (elim qstepE)
    (auto simp: no_signal_def intro!: roles_goto roles_updates,
     auto simp: roles_def queue_updates split: if_splits, metis is_main_simps(10))

lemma owned_step: "qstep s a s' \<Longrightarrow> no_signal a \<Longrightarrow> roles s \<Longrightarrow> owned s \<Longrightarrow> owned s'"
  by (elim qstepE) (auto simp: owned_def roles_def queue_updates no_signal_def split: if_splits)

lemma end_requested_step: "qstep s a s' \<Longrightarrow> no_signal a \<Longrightarrow> end_requested s \<Longrightarrow> end_requested s'"
  by (elim qstepE) (auto simp: end_requested_def queue_updates no_signal_def split: if_splits, (metis ending_simps)+)

lemma noticed_keep:
  assumes "noticed s" "eq_events s' = eq_events s" "eq_do_terminate s' = eq_do_terminate s"
    and "eq_pc s' = (eq_pc s)(i := p)" "notifier (eq_pc s i) \<Longrightarrow> notifier p" "i = 0 \<Longrightarrow> p \<noteq> M_wait"
  shows "noticed s'"
  unfolding noticed_def
proof
  assume wait: "eq_pc s' 0 = M_wait \<and> (eq_events s' \<noteq> [] \<or> eq_do_terminate s')"
  then have "eq_pc s 0 = M_wait" using assms(4,6) by (auto split: if_splits)
  then obtain j where "notifier (eq_pc s j)" using assms(1-3) wait unfolding noticed_def by auto
  then have "notifier (eq_pc s' j)" using assms(4,5) by auto
  then show "\<exists>j. notifier (eq_pc s' j)" ..
qed

lemma noticed_intros:
  "eq_pc s' 0 \<noteq> M_wait \<Longrightarrow> noticed s'"
  "notifier (eq_pc s' i) \<Longrightarrow> noticed s'"
  "eq_events s' = [] \<Longrightarrow> \<not> eq_do_terminate s' \<Longrightarrow> noticed s'"
  by (auto simp: noticed_def)

lemma noticed_step:
  assumes "qstep s a s'" "no_signal a" "roles s" "noticed s"
  shows "noticed s'"
  using assms(1)
proof cases
  case (begin_call i cl)
  then show ?thesis by (intro noticed_keep [OF assms(4), of s' i]) (simp_all add: queue_updates)
next
  case (lock i e)
  then have "0 < i" using roles_who [OF assms(3)] by simp
  then show ?thesis using lock by (intro noticed_keep [OF assms(4), of s' i]) (simp_all add: queue_updates)
next
  case (push i e)
  then show ?thesis by (intro noticed_intros(2) [of _ i]) (simp add: queue_updates)
next
  case (unlock i)
  then show ?thesis by (intro noticed_intros(2) [of _ i]) (simp add: queue_updates)
next
  case (notify i)
  then have "0 < i" using roles_who [OF assms(3)] by simp
  then show ?thesis using notify by (intro noticed_intros(1)) (simp add: queue_updates)
next
  case (ask i)
  then have "0 < i" using roles_who [OF assms(3)] by simp
  then show ?thesis using ask by (intro noticed_keep [OF assms(4), of s' i]) (simp_all add: queue_updates)
next
  case (set_flag i)
  then show ?thesis by (intro noticed_intros(2) [of _ i]) (simp add: queue_updates)
next
  case (unlock_flag i)
  then show ?thesis by (intro noticed_intros(2) [of _ i]) (simp add: queue_updates)
next
  case (notify_flag i)
  then have "0 < i" using roles_who [OF assms(3)] by simp
  then show ?thesis using notify_flag by (intro noticed_intros(1)) (simp add: queue_updates)
next
  case (join i)
  then show ?thesis by (intro noticed_intros(1)) (simp add: queue_updates)
next
  case (join_again i)
  then have "0 < i" using roles_who [OF assms(3)] by simp
  then show ?thesis using join_again by (intro noticed_keep [OF assms(4), of s' i]) (simp_all add: queue_updates)
next
  case m_test_wait
  then show ?thesis by (intro noticed_intros(3)) (simp_all add: queue_updates)
next
  case next_call
  then show ?thesis using assms(3) by (simp add: roles_def)
next
  case signal
  then show ?thesis using assms(2) by (simp add: no_signal_def)
qed (intro noticed_intros(1), simp add: queue_updates)+

definition quiet_inv :: "event_queue \<Rightarrow> bool" where
  "quiet_inv s \<longleftrightarrow> lock_inv s \<and> chain_inv s \<and> roles s \<and> owned s \<and> end_requested s \<and> noticed s"

lemma quiet_inv_start: "quiet_inv queue_start"
  using queue_start_inv
  by (auto simp: quiet_inv_def queue_start_def roles_def owned_def end_requested_def noticed_def)

lemma quiet_inv_step: "qstep s a s' \<Longrightarrow> no_signal a \<Longrightarrow> quiet_inv s \<Longrightarrow> quiet_inv s'"
  unfolding quiet_inv_def
  using lock_inv_step chain_inv_step roles_step owned_step end_requested_step noticed_step by blast

lemma quiet_inv_run: "qrun queue_start as s \<Longrightarrow> \<forall>a \<in> set as. no_signal a \<Longrightarrow> quiet_inv s"
  by (rule qrun_keeps [where Q = no_signal]) (auto intro: quiet_inv_start quiet_inv_step)

lemma notifier_wakes:
  assumes "eq_pc s 0 = M_wait" "0 < i" "eq_pc s i = Notify \<or> eq_pc s i = Notify_flag"
  shows "\<exists>s'. qstep s (Act i) s' \<and> eq_pc s' 0 = M_wake"
  using assms(3)
proof
  assume "eq_pc s i = Notify"
  then show ?thesis using notify [of s i] assms(1,2) by (auto simp: queue_updates intro!: exI)
next
  assume "eq_pc s i = Notify_flag"
  then show ?thesis using notify_flag [of s i] assms(1,2) by (auto simp: queue_updates intro!: exI)
qed

lemma unlocker_wakes:
  assumes "eq_pc s 0 = M_wait" "0 < i" "eq_pc s i = Unlock \<or> eq_pc s i = Unlock_flag"
  shows "\<exists>s1 s'. qstep s (Act i) s1 \<and> qstep s1 (Act i) s' \<and> eq_pc s' 0 = M_wake"
proof -
  define s1 where "s1 = release i (if eq_pc s i = Unlock then Notify else Notify_flag) s"
  have "qstep s (Act i) s1" using unlock [of s i] unlock_flag [of s i] assms(3) by (auto simp: s1_def)
  moreover have "\<exists>s'. qstep s1 (Act i) s' \<and> eq_pc s' 0 = M_wake"
    by (rule notifier_wakes) (use assms in \<open>auto simp: s1_def queue_updates\<close>)
  ultimately show ?thesis by blast
qed

text \<open>
  C8. No wake-up is lost (the comment at the wait in \<^verbatim>\<open>do_run\<close> is right): whenever the log
  thread waits although events are queued or termination has been requested, some other thread
  is just before its \<^verbatim>\<open>notify_one\<close>, and at most two operations of that thread, which nothing
  can block, wake the log thread up. Spurious wake-ups do not spoil this.
\<close>

theorem no_lost_wakeup:
  assumes "qrun queue_start as s" "\<forall>a \<in> set as. no_signal a"
    and "eq_pc s 0 = M_wait" "eq_events s \<noteq> [] \<or> eq_do_terminate s"
  shows "\<exists>i n s'. i \<noteq> 0 \<and> n \<le> 2 \<and> qrun s (replicate n (Act i)) s' \<and> eq_pc s' 0 = M_wake"
proof -
  have inv: "roles s" "noticed s" using quiet_inv_run [OF assms(1,2)] by (simp_all add: quiet_inv_def)
  obtain i where i: "notifier (eq_pc s i)" using inv(2) assms(3,4) by (auto simp: noticed_def)
  then have "\<not> is_main (eq_pc s i)" by (auto simp: notifier_def)
  then have "0 < i" by (rule roles_who [OF inv(1)])
  consider "eq_pc s i = Notify \<or> eq_pc s i = Notify_flag" | "eq_pc s i = Unlock \<or> eq_pc s i = Unlock_flag"
    using i by (auto simp: notifier_def)
  then show ?thesis
  proof cases
    case 1
    then obtain s' where "qstep s (Act i) s'" "eq_pc s' 0 = M_wake"
      using notifier_wakes [OF assms(3) \<open>0 < i\<close>] by blast
    then have "qrun s (replicate 1 (Act i)) s' \<and> eq_pc s' 0 = M_wake" by (auto intro: qrun.intros)
    then show ?thesis using \<open>0 < i\<close> by (intro exI [of _ i] exI [of _ 1] exI [of _ s']) simp
  next
    case 2
    then obtain s1 s' where "qstep s (Act i) s1" "qstep s1 (Act i) s'" "eq_pc s' 0 = M_wake"
      using unlocker_wakes [OF assms(3) \<open>0 < i\<close>] by blast
    then have "qrun s (replicate 2 (Act i)) s' \<and> eq_pc s' 0 = M_wake"
      by (auto simp: numeral_2_eq_2 intro: qrun.intros)
    then show ?thesis using \<open>0 < i\<close> by (intro exI [of _ i] exI [of _ 2] exI [of _ s']) simp
  qed
qed

text \<open>The log thread waits, an event is pushed, and only then the other thread notifies.\<close>

definition sample_schedule :: "queue_action list" where
  "sample_schedule = [Act 0, Act 0, Act 0, Act 0, Act 0, Begin 1 (Call_enqueue (sample_event Info ''a'' 0)), Act 0, Act 1, Act 1]"

lemma sample_schedule_run:
  "\<exists>s. qrun queue_start sample_schedule s \<and> eq_pc s 0 = M_wait \<and> eq_events s \<noteq> [] \<and> eq_owner s = Some 1"
  by (simp add: sample_schedule_def qrun_Cons_eq qrun_Nil_eq qstep_simps queue_start_def queue_updates)

theorem no_lost_wakeup_witness:
  "\<exists>s i n s'. qrun queue_start sample_schedule s \<and> eq_pc s 0 = M_wait \<and> eq_events s \<noteq> [] \<and>
     i \<noteq> 0 \<and> n \<le> 2 \<and> qrun s (replicate n (Act i)) s' \<and> eq_pc s' 0 = M_wake"
proof -
  obtain s where s: "qrun queue_start sample_schedule s" "eq_pc s 0 = M_wait" "eq_events s \<noteq> []"
    using sample_schedule_run by blast
  have "\<forall>a \<in> set sample_schedule. no_signal a" by (simp add: sample_schedule_def no_signal_def)
  from no_lost_wakeup [OF s(1) this s(2)] show ?thesis using s by blast
qed

subsection \<open>Progress\<close>



















text \<open>The one thread is joined once.\<close>

definition joined_once :: "event_queue \<Rightarrow> bool" where
  "joined_once s \<longleftrightarrow> (\<forall>i j. eq_pc s i = Joined \<longrightarrow> eq_pc s j = Joined \<longrightarrow> i = j) \<and>
     (eq_joinable s \<longleftrightarrow> (\<forall>i. eq_pc s i \<noteq> Joined)) \<and> (eq_joinable s \<longrightarrow> (\<forall>i. eq_pc s i \<noteq> Thrown))"

lemma entry_open: "entry cl \<noteq> Joined" "entry cl \<noteq> Thrown"
  by (cases cl; simp)+

lemma joined_once_goto:
  assumes "joined_once s" "eq_pc s' = f(i := p)" "f = eq_pc s \<or> f = (eq_pc s)(0 := M_wake) \<and> eq_pc s 0 = M_wait"
    and "eq_joinable s' = eq_joinable s" "eq_pc s i \<notin> {Joined, Thrown}" "p \<notin> {Joined, Thrown}"
  shows "joined_once s'"
proof -
  have "eq_pc s' j = Joined \<longleftrightarrow> eq_pc s j = Joined" "eq_pc s' j = Thrown \<longleftrightarrow> eq_pc s j = Thrown" for j
    using assms(2,3,5,6) by (cases "j = 0"; auto)+
  then show ?thesis using assms(1,4) by (simp add: joined_once_def)
qed

lemma joined_once_step:
  assumes "qstep s a s'" "joined_once s"
  shows "joined_once s'"
proof -
  note keep = joined_once_goto [OF assms(2)]
  show ?thesis using assms(1)
  proof cases
    case (join i)
    then show ?thesis using assms(2) by (auto simp: joined_once_def queue_updates)
  next
    case (join_again i)
    then have "eq_pc s' j = Joined \<longleftrightarrow> eq_pc s j = Joined" for j by (auto simp: queue_updates)
    moreover have "eq_joinable s' = eq_joinable s" using join_again by (simp add: queue_updates)
    ultimately show ?thesis using assms(2) join_again by (simp add: joined_once_def)
  next
    case (notify i)
    then show ?thesis by (intro keep [of _ "eq_pc (notify_one s)" i Idle]) (simp_all add: queue_updates)
  next
    case (notify_flag i)
    then show ?thesis by (intro keep [of _ "eq_pc (notify_one s)" i Join]) (simp_all add: queue_updates)
  next
    case (m_work e es)
    then show ?thesis using assms(2) by (simp add: joined_once_def)
  next
    case (m_scan still)
    then show ?thesis
      by (intro keep [of _ "eq_pc s" 0 "if still then M_sleep else M_last_lock"]) (simp_all add: queue_updates)
  next
    case (signal i msgs)
    then show ?thesis by (intro keep [of _ "eq_pc s" i Idle]) (simp_all add: queue_updates)
  qed (simp_all add: keep [OF _ disjI1 [OF refl]] queue_updates entry_open)
qed

lemma joined_once_run:
  assumes "qrun queue_start as s"
  shows "joined_once s"
proof (rule qrun_keeps [OF assms, where Q = "\<lambda>_. True"])
  show "joined_once queue_start" by (simp add: joined_once_def queue_start_def)
qed (simp_all add: joined_once_step)



text \<open>
  A second \<^verbatim>\<open>terminate\<close> throws: once one has returned, the \<^verbatim>\<open>join\<close> of any other, whenever it is
  called, can only end in a \<^verbatim>\<open>system_error\<close>. This happens when two threads crash, or one crashes
  while another one is in the destructor of the logger.
\<close>

theorem terminate_twice_throws:
  assumes "qrun queue_start as s" "eq_pc s i = Joined" "qrun s bs s'" "j \<noteq> i" "j \<noteq> 0"
  shows "eq_pc s' j \<noteq> Joined \<and>
    (eq_pc s' j = Join \<longrightarrow> (\<forall>s''. qstep s' (Act j) s'' \<longleftrightarrow> s'' = goto j Thrown s'))"
proof -
  have kept: "eq_pc s1 i = Joined" if "qstep s0 a s1" "eq_pc s0 i = Joined" for s0 a s1
  proof -
    have other: "(i = k) = False" if "eq_pc s0 k \<noteq> Joined" for k using that \<open>eq_pc s0 i = Joined\<close> by auto
    show ?thesis using that(1) by cases (simp_all add: queue_updates other that(2))
  qed
  have joined: "eq_pc s' i = Joined"
    by (rule qrun_keeps [OF assms(3), where Q = "\<lambda>_. True"]) (use kept assms(2) in auto)
  have "joined_once s'" by (rule joined_once_run [OF qrun_append [OF assms(1,3)]])
  then have "eq_pc s' j \<noteq> Joined" "\<not> eq_joinable s'" using joined assms(4) by (auto simp: joined_once_def)
  then show ?thesis using assms(5) by (auto simp: qstep_simps)
qed

theorem terminate_twice_throws_witness:
  "\<exists>as s s'. qrun queue_start as s \<and> eq_pc s 1 = Joined \<and> eq_pc s 2 = Join \<and> qstep s (Act 2) s' \<and> eq_pc s' 2 = Thrown"
proof -
  define as where "as = Begin 1 Call_terminate # replicate 4 (Act 1) @ Begin 2 Call_terminate # replicate 4 (Act 2) @
    replicate 6 (Act 0) @ Scan False # replicate 2 (Act 0) @ [Act 1]"
  have "\<exists>s. qrun queue_start as s \<and> eq_pc s 1 = Joined \<and> eq_pc s 2 = Join"
    by (simp add: as_def numeral_eq_Suc qrun_Cons_eq qrun_Nil_eq qstep_simps queue_start_def queue_updates)
  then obtain s where s: "qrun queue_start as s" "eq_pc s 1 = Joined" "eq_pc s 2 = Join" by blast
  have "qstep s (Act 2) (goto 2 Thrown s)"
    using terminate_twice_throws [OF s(1,2) qrun_Nil, of 2] s(3) by simp
  moreover have "eq_pc (goto 2 Thrown s) 2 = Thrown" by (simp add: goto_def)
  ultimately show ?thesis using s by blast
qed

subsection \<open>A crash inside the library\<close>

text \<open>Thread \<open>i\<close> was interrupted between a lock and its unlock, and is in its handler.\<close>

definition lock_orphaned :: "nat \<Rightarrow> event_queue \<Rightarrow> bool" where
  "lock_orphaned i s \<longleftrightarrow> eq_owner s = Some i \<and> (\<forall>j. \<not> holds (eq_pc s j)) \<and>
     (eq_pc s i = Idle \<and> eq_todo s i \<noteq> [] \<or> eq_pc s i = Ask \<or> (\<exists>e. eq_pc s i = Lock e))"

lemma lock_orphaned_signal:
  assumes "lock_inv s" "holds (eq_pc s i)" "qstep s (Signal i msgs) s'"
  shows "lock_orphaned i s'"
proof -
  have "\<not> holds (eq_pc s j)" if "j \<noteq> i" for j using lock_inv_unique [OF assms(1,2)] that by blast
  then show ?thesis using assms by (auto simp: qstep_simps lock_orphaned_def queue_updates lock_inv_def)
qed

text \<open>What a step of another thread leaves as it is, if it does not use the lock.\<close>

lemma lock_orphaned_other:
  assumes "lock_orphaned i s" "k \<noteq> i" "\<not> holds p" "eq_owner s' = eq_owner s" "eq_todo s' i = eq_todo s i"
    and "eq_pc s' = f(k := p)" "f = eq_pc s \<or> f = (eq_pc s)(0 := M_wake) \<and> eq_pc s 0 = M_wait"
  shows "lock_orphaned i s'"
proof -
  have "\<not> holds (eq_pc s' j)" for j using assms(1,3,6,7) by (auto simp: lock_orphaned_def split: if_splits)
  moreover have "eq_pc s' i = eq_pc s i"
  proof (cases "i = 0")
    case True
    then have "eq_pc s 0 \<noteq> M_wait" using assms(1) by (auto simp: lock_orphaned_def)
    then show ?thesis using assms(2,6,7) True by auto
  qed (use assms(2,6,7) in auto)
  ultimately show ?thesis using assms(1,4,5) by (simp add: lock_orphaned_def)
qed

lemma lock_orphaned_step:
  assumes "qstep s a s'" "lock_orphaned i s"
  shows "lock_orphaned i s'" "eq_pushed s' = eq_pushed s" "eq_pc s' 0 = M_done \<longleftrightarrow> eq_pc s 0 = M_done"
proof -
  have owner: "eq_owner s = Some i" and no: "\<not> holds (eq_pc s j)" for j
    using assms(2) by (auto simp: lock_orphaned_def)
  have who: "k \<noteq> i" if "eq_pc s k \<noteq> Idle \<or> eq_todo s k = []" "eq_pc s k \<noteq> Ask" "\<forall>e. eq_pc s k \<noteq> Lock e" for k
    using that assms(2) by (auto simp: lock_orphaned_def)
  have entry: "entry cl = Ask \<or> (\<exists>e. entry cl = Lock e)" for cl by (cases cl) simp_all
  note other = lock_orphaned_other [OF assms(2)]
  show "lock_orphaned i s'" using assms(1)
  proof cases
    case (begin_call k cl)
    then show ?thesis using who [of k] by (intro other [of k "entry cl" _ "eq_pc s"]) (simp_all add: queue_updates)
  next
    case (next_call k cl cls)
    show ?thesis
    proof (cases "k = i")
      case True
      then show ?thesis using next_call entry [of cl] owner no by (auto simp: lock_orphaned_def queue_updates)
    next
      case False
      then show ?thesis using next_call by (intro other [of k "entry cl" _ "eq_pc s"]) (simp_all add: queue_updates)
    qed
  next
    case (notify k)
    then show ?thesis using who [of k]
      by (intro other [of k Idle _ "eq_pc (notify_one s)"]) (simp_all add: queue_updates)
  next
    case (notify_flag k)
    then show ?thesis using who [of k]
      by (intro other [of k Join _ "eq_pc (notify_one s)"]) (simp_all add: queue_updates)
  next
    case (join k)
    then show ?thesis using who [of k] by (intro other [of k Joined _ "eq_pc s"]) (simp_all add: queue_updates)
  next
    case (join_again k)
    then show ?thesis using who [of k] by (intro other [of k Thrown _ "eq_pc s"]) (simp_all add: queue_updates)
  next
    case (signal k msgs)
    then show ?thesis
      using assms(2) by (cases "k = i") (auto simp: lock_orphaned_def queue_updates)
  next
    case m_work
    then show ?thesis using assms(2) by (simp add: lock_orphaned_def)
  next
    case (m_scan still)
    then show ?thesis using who [of 0]
      by (intro other [of 0 "if still then M_sleep else M_last_lock" _ "eq_pc s"]) (simp_all add: queue_updates)
  next
    case join_self
    then show ?thesis using who [of 0] by (intro other [of 0 Aborted _ "eq_pc s"]) (simp_all add: queue_updates)
  next
    case m_worked
    then show ?thesis using who [of 0] by (intro other [of 0 M_relock _ "eq_pc s"]) (simp_all add: queue_updates)
  next
    case m_sleep
    then show ?thesis using who [of 0] by (intro other [of 0 M_lock _ "eq_pc s"]) (simp_all add: queue_updates)
  next
    case spurious
    then show ?thesis using who [of 0] by (intro other [of 0 M_wake _ "eq_pc s"]) (simp_all add: queue_updates)
  qed (use owner no in \<open>metis holds_simps option.distinct(1)\<close>)+
  have plain: "entry cl \<noteq> M_done" for cl by (cases cl) simp_all
  show "eq_pushed s' = eq_pushed s" using assms(1)
  proof cases
    case (push k e)
    then show ?thesis using no [of k] by simp
  qed (simp_all add: queue_updates)
  show "eq_pc s' 0 = M_done \<longleftrightarrow> eq_pc s 0 = M_done" using assms(1)
  proof cases
    case m_return
    then show ?thesis using no [of 0] by simp
  qed (auto simp: queue_updates plain)
qed

text \<open>
  C16. A signal that arrives while its thread holds the lock of the event queue hangs the
  program: the handler's first log call waits for the lock of its own thread for ever. In every
  continuation, no further event is put into the queue, neither by the handler nor by anybody
  else, the handler never comes to the end of its \<^verbatim>\<open>terminate\<close>, and the log thread does not return.
\<close>

theorem crash_in_enqueue_hangs:
  assumes "qrun queue_start as s" "holds (eq_pc s i)" "qstep s (Signal i msgs) s1" "qrun s1 bs s2"
  shows "eq_pushed s2 = eq_pushed s \<and> eq_pc s2 i \<noteq> Joined \<and> (eq_pc s2 0 = M_done \<longrightarrow> eq_pc s 0 = M_done)"
proof -
  have start: "lock_orphaned i s1"
    by (rule lock_orphaned_signal [OF queue_inv_run(1) [OF assms(1)] assms(2,3)])
  have "lock_orphaned i s2 \<and> eq_pushed s2 = eq_pushed s1 \<and> (eq_pc s2 0 = M_done \<longleftrightarrow> eq_pc s1 0 = M_done)"
    by (rule qrun_keeps [OF assms(4), where Q = "\<lambda>_. True"]) (use start lock_orphaned_step in auto)
  moreover have "eq_pushed s1 = eq_pushed s" "eq_pc s1 0 = M_done \<longrightarrow> eq_pc s 0 = M_done"
    using assms(3) by (auto simp: qstep_simps queue_updates)
  ultimately show ?thesis by (auto simp: lock_orphaned_def)
qed

theorem crash_in_enqueue_hangs_witness:
  "\<exists>s s1. qrun queue_start sample_schedule s \<and> qstep s (Signal 1 [sample_event Severe ''SIGNAL'' 0]) s1 \<and>
     (\<forall>bs s2. qrun s1 bs s2 \<longrightarrow> eq_pushed s2 = eq_pushed s \<and> eq_pc s2 1 \<noteq> Joined \<and> eq_pc s2 0 \<noteq> M_done)"
proof -
  obtain s where s: "qrun queue_start sample_schedule s" "eq_pc s 0 = M_wait" "eq_pc s 1 = Unlock"
    by (simp add: sample_schedule_def qrun_Cons_eq qrun_Nil_eq qstep_simps queue_start_def queue_updates)
  then obtain s1 where s1: "qstep s (Signal 1 [sample_event Severe ''SIGNAL'' 0]) s1"
    by (simp add: qstep_simps)
  have "holds (eq_pc s 1)" using s(3) by simp
  from crash_in_enqueue_hangs [OF s(1) this s1] show ?thesis using s s1 by force
qed

text \<open>
  C17. A crash of the log thread itself, in a sink for example, loses what it has not passed on:
  its handler queues its messages and then waits for its own thread, which ends the program. In
  every continuation nothing more is passed on, and nobody's \<^verbatim>\<open>terminate\<close> returns.
\<close>

theorem crash_in_log_thread_loses:
  assumes "qrun queue_start as s" "qstep s (Signal 0 msgs) s1" "qrun s1 bs s2"
  shows "eq_logged s2 = eq_logged s \<and> (\<forall>i. eq_pc s2 i = Joined \<longrightarrow> eq_pc s1 i = Joined) \<and>
    eq_logged s2 @ eq_local s2 @ eq_events s2 = eq_pushed s2"
proof -
  have crashed: "\<not> is_main (eq_pc s1 0)" "eq_logged s1 = eq_logged s"
    using assms(2) by (auto simp: qstep_simps queue_updates)
  have step: "\<not> is_main (eq_pc s' 0) \<and> eq_logged s' = eq_logged s \<and> (\<forall>i. eq_pc s' i = Joined \<longrightarrow> eq_pc s1 i = Joined)"
    if "qstep s0 a s'" "\<not> is_main (eq_pc s0 0) \<and> eq_logged s0 = eq_logged s \<and>
      (\<forall>i. eq_pc s0 i = Joined \<longrightarrow> eq_pc s1 i = Joined)" for s0 a s'
  proof -
    have plain: "entry cl \<noteq> Joined" for cl by (cases cl) simp_all
    show ?thesis using that by cases (auto simp: queue_updates plain)
  qed
  have "\<not> is_main (eq_pc s2 0) \<and> eq_logged s2 = eq_logged s \<and> (\<forall>i. eq_pc s2 i = Joined \<longrightarrow> eq_pc s1 i = Joined)"
    by (rule qrun_keeps [OF assms(3), where Q = "\<lambda>_. True"]) (use crashed step in auto)
  moreover have "qrun queue_start (as @ Signal 0 msgs # bs) s2"
    using assms qrun_append qrun.intros by blast
  from queue_inv_run(2) [OF this] have "eq_logged s2 @ eq_local s2 @ eq_events s2 = eq_pushed s2"
    by (simp add: chain_inv_def)
  ultimately show ?thesis by blast
qed

theorem crash_in_log_thread_loses_witness:
  "\<exists>s s1. qrun queue_start sample_schedule s \<and> qstep s (Signal 0 []) s1 \<and> eq_events s1 \<noteq> [] \<and>
     (\<forall>bs s2. qrun s1 bs s2 \<longrightarrow> eq_logged s2 = eq_logged s)"
proof -
  obtain s where s: "qrun queue_start sample_schedule s" "eq_pc s 0 = M_wait" "eq_events s \<noteq> []"
    using sample_schedule_run by blast
  then obtain s1 where s1: "qstep s (Signal 0 []) s1" "eq_events s1 \<noteq> []"
    by (auto simp: qstep_simps queue_updates)
  show ?thesis using crash_in_log_thread_loses [OF s(1) s1(1)] s s1 by blast
qed

end
