(* ===== verification/Event_Queue_Refinement.thy ===== *)
theory Event_Queue_Refinement
  imports Event_Queue Application Delivery_Refinement
begin

section \<open>The main loop as a part of the interleavings (log_thread.cpp)\<close>

text \<open>
  \<^verbatim>\<open>do_run\<close> is modelled twice: round by round in the theory \<open>Log_Thread\<close>, where delivering is
  spelled out, and operation by operation in the theory \<open>Event_Queue\<close>, where the threads
  interleave. Here every sequence of rounds is shown to be one of the runs of the second model, and
  what the rounds deliver to the sinks to be what that run passes to \<^verbatim>\<open>log\<close>.
\<close>

subsection \<open>Corresponding states\<close>

text \<open>
  Between two operations of the log thread on the queue: nobody holds the lock, and the threads
  1 and from \<open>n\<close> on are outside of any call. Thread 1 makes the calls of \<^verbatim>\<open>enqueue\<close>; every call
  of \<^verbatim>\<open>terminate\<close>, which does not return yet, is made by a thread of its own.
\<close>

definition matches :: "nat \<Rightarrow> event_queue \<Rightarrow> 's log_thread \<Rightarrow> bool" where
  "matches n s t \<longleftrightarrow> 2 \<le> n \<and> eq_owner s = None \<and> eq_local s = [] \<and> (\<forall>i. eq_todo s i = []) \<and>
     eq_pc s 1 = Idle \<and> (\<forall>i \<ge> n. eq_pc s i = Idle) \<and> lt_input t = (eq_events s, eq_do_terminate s)"

lemma qrun_step: "qrun s as s1 \<Longrightarrow> qstep s1 a s' \<Longrightarrow> qrun s (as @ [a]) s'"
  by (auto intro: qrun_append qrun.intros)

text \<open>The calls of the library a run begins, and what the other threads of the main loop call and queue.\<close>

definition begun :: "queue_action list \<Rightarrow> call list" where
  "begun as = concat (map (\<lambda>a. case a of Begin i cl \<Rightarrow> [cl] | _ \<Rightarrow> []) as)"

definition env_calls :: "env_action list \<Rightarrow> call list" where
  "env_calls xs = concat (map (\<lambda>x. case x of
      Env_enqueue e \<Rightarrow> [Call_enqueue e] | Env_terminate \<Rightarrow> [Call_terminate] | Env_retry _ _ \<Rightarrow> []) xs)"

definition env_events :: "env_action list \<Rightarrow> log_event list" where
  "env_events xs = concat (map (\<lambda>x. case x of Env_enqueue e \<Rightarrow> [e] | _ \<Rightarrow> []) xs)"

lemma call_simps [simp]:
  "begun [] = []" "begun (as @ bs) = begun as @ begun bs" "begun (Begin i cl # as) = cl # begun as"
  "begun (Act i # as) = begun as" "begun (Scan b # as) = begun as" "begun (Spurious # as) = begun as"
  "env_calls [] = []" "env_calls (xs @ ys) = env_calls xs @ env_calls ys"
  "env_events [] = []" "env_events (xs @ ys) = env_events xs @ env_events ys"
  by (simp_all add: begun_def env_calls_def env_events_def)

text \<open>
  From \<open>s\<close> the threads can come, without a signal, to a state that corresponds to \<open>t\<close>, the log
  thread at \<open>p\<close>, when the calls of \<open>xs\<close> have been made and the events \<open>es\<close> have been passed on; the
  end of the log thread is the last step.
\<close>

definition comes_to ::
  "event_queue \<Rightarrow> env_action list \<Rightarrow> log_event list \<Rightarrow> pc \<Rightarrow> 's log_thread \<Rightarrow> bool" where
  "comes_to s xs es p t \<longleftrightarrow> (\<exists>as s1 n. qrun s as s1 \<and> (\<forall>a \<in> set as. no_signal a) \<and> matches n s1 t \<and> eq_pc s1 0 = p \<and>
     eq_logged s1 = eq_logged s @ es \<and> begun as = env_calls xs \<and> eq_pushed s1 = eq_pushed s @ env_events xs \<and>
     (p = M_done \<longrightarrow> (\<exists>bs. as = bs @ [Act 0])))"

lemma comes_toI:
  "qrun s as s1 \<Longrightarrow> \<forall>a \<in> set as. no_signal a \<Longrightarrow> matches n s1 t \<Longrightarrow> eq_pc s1 0 = p \<Longrightarrow>
   eq_logged s1 = eq_logged s @ es \<Longrightarrow> begun as = env_calls xs \<Longrightarrow> eq_pushed s1 = eq_pushed s @ env_events xs \<Longrightarrow>
   p = M_done \<longrightarrow> (\<exists>bs. as = bs @ [Act 0]) \<Longrightarrow> comes_to s xs es p t"
  unfolding comes_to_def by blast

lemma comes_to_refl: "matches n s t \<Longrightarrow> eq_pc s 0 = p \<Longrightarrow> p \<noteq> M_done \<Longrightarrow> comes_to s [] [] p t"
  by (rule comes_toI [OF qrun_Nil]) simp_all

lemma comes_to_trans:
  assumes "comes_to s xs es p t" "\<And>n s1. matches n s1 t \<Longrightarrow> eq_pc s1 0 = p \<Longrightarrow> comes_to s1 ys es' p' t'"
  shows "comes_to s (xs @ ys) (es @ es') p' t'"
proof -
  obtain as s1 n where s1: "qrun s as s1" "\<forall>a \<in> set as. no_signal a" "matches n s1 t" "eq_pc s1 0 = p"
    "eq_logged s1 = eq_logged s @ es" "begun as = env_calls xs" "eq_pushed s1 = eq_pushed s @ env_events xs"
    using assms(1) unfolding comes_to_def by blast
  obtain bs s2 n2 where s2: "qrun s1 bs s2" "\<forall>a \<in> set bs. no_signal a" "matches n2 s2 t'" "eq_pc s2 0 = p'"
    "eq_logged s2 = eq_logged s1 @ es'" "begun bs = env_calls ys" "eq_pushed s2 = eq_pushed s1 @ env_events ys"
    "p' = M_done \<longrightarrow> (\<exists>cs. bs = cs @ [Act 0])"
    using assms(2) [OF s1(3,4)] unfolding comes_to_def by blast
  have "p' = M_done \<longrightarrow> (\<exists>cs. as @ bs = cs @ [Act 0])" using s2(8) append_assoc by metis
  then show ?thesis
    using s1(2,5-7) s2(2-7) by (intro comes_toI [OF qrun_append [OF s1(1) s2(1)]]) auto
qed

text \<open>Taking the events and passing them on.\<close>

abbreviation worked :: "event_queue \<Rightarrow> event_queue" where
  "worked s \<equiv> goto 0 M_relock (s\<lparr>eq_logged := eq_logged s @ eq_local s, eq_local := []\<rparr>)"

lemma work_run:
  "eq_pc s 0 = M_work \<Longrightarrow> \<exists>n. qrun s (replicate n (Act 0)) (worked s)"
proof (induction "eq_local s" arbitrary: s)
  case Nil
  then have "qstep s (Act 0) (goto 0 M_relock s)" by (intro m_worked) simp_all
  moreover have "s\<lparr>eq_logged := eq_logged s @ eq_local s, eq_local := []\<rparr> = s"
    using Nil(1) by (cases s) simp
  ultimately have "qrun s (replicate 1 (Act 0)) (worked s)" by (auto intro: qrun.intros)
  then show ?case ..
next
  case (Cons e es)
  let ?s1 = "s\<lparr>eq_local := es, eq_logged := eq_logged s @ [e]\<rparr>"
  have step: "qstep s (Act 0) ?s1" using Cons.hyps(2) Cons.prems by (intro m_work) simp_all
  obtain n where n: "qrun ?s1 (replicate n (Act 0)) (worked ?s1)"
    using Cons.hyps(1) [of ?s1] Cons.prems by auto
  have "worked ?s1 = worked s" using Cons.hyps(2) [symmetric] by simp
  then have "qrun s (replicate (Suc n) (Act 0)) (worked s)" using step n by (metis qrun_Cons replicate_Suc)
  then show ?case ..
qed

lemma begun_act [simp]: "begun (replicate n (Act i)) = []"
  by (simp add: begun_def)

lemma take_run:
  assumes "matches n s t" "eq_pc s 0 = M_lock" "lt_input t1 = ([], lt_do_terminate t)"
  shows "comes_to s [] (lt_events t) M_relock t1"
proof -
  let ?s1 = "release 0 M_work (s\<lparr>eq_local := eq_events s, eq_events := []\<rparr>)"
  have run1: "qrun s [Act 0, Act 0, Act 0] ?s1"
    using assms(1,2) by (simp add: qrun_Cons_eq qrun_Nil_eq qstep_simps queue_updates matches_def)
  obtain k where k: "qrun ?s1 (replicate k (Act 0)) (worked ?s1)"
    using work_run [of ?s1] by (auto simp: queue_updates)
  have "matches n (worked ?s1) t1" using assms by (auto simp: matches_def queue_updates lt_input_def)
  moreover have "eq_events s = lt_events t" using assms(1) by (simp add: matches_def lt_input_def)
  ultimately show ?thesis
    by (intro comes_toI [OF qrun_append [OF run1 k]]) (simp_all add: queue_updates no_signal_def)
qed

text \<open>What the other threads do in between.\<close>

lemma env_run:
  assumes "matches n s t" "env_step c x t = Inr t'" "is_main p" "p \<notin> {M_wait, M_done}" "eq_pc s 0 = p"
  shows "comes_to s [x] [] p t'"
proof (cases x)
  case (Env_enqueue e)
  let ?s1 = "s\<lparr>eq_events := eq_events s @ [e], eq_max_size := max (eq_max_size s) (Suc (length (eq_events s))),
    eq_pushed := eq_pushed s @ [e]\<rparr>"
  have run: "qrun s (Begin 1 (Call_enqueue e) # replicate 4 (Act 1)) ?s1"
    using assms(1,4,5)
    by (simp add: numeral_eq_Suc qrun_Cons_eq qrun_Nil_eq qstep_simps queue_updates matches_def fun_upd_idem)
  moreover have "matches n ?s1 t'"
    using assms(1,2) Env_enqueue by (auto simp: matches_def lt_input_def lt_enqueue_def Let_def)
  ultimately show ?thesis
    using assms(4,5) Env_enqueue
    by (intro comes_toI [OF run]) (simp_all add: no_signal_def env_calls_def env_events_def)
next
  case Env_terminate
  let ?s1 = "goto n Join (s\<lparr>eq_do_terminate := True\<rparr>)"
  have n: "2 \<le> n" "eq_pc s n = Idle" using assms(1) by (simp_all add: matches_def)
  have run: "qrun s (Begin n Call_terminate # replicate 4 (Act n)) ?s1"
    using assms(1,4,5) n
    by (simp add: numeral_eq_Suc qrun_Cons_eq qrun_Nil_eq qstep_simps queue_updates matches_def)
  moreover have "matches (Suc n) ?s1 t'"
    using assms(1,2) Env_terminate n by (auto simp: matches_def lt_input_def lt_terminate_def queue_updates)
  ultimately show ?thesis
    using n assms(4,5) Env_terminate
    by (intro comes_toI [OF run]) (simp_all add: no_signal_def queue_updates env_calls_def env_events_def)
next
  case (Env_retry q tpnow)
  then have "matches n s t'"
    using assms(1,2) retry_thread_cycle_keeps(2,3) [of c q tpnow t t'] by (simp add: matches_def lt_input_def)
  then have "comes_to s [] [] p t'" using assms(4,5) by (intro comes_to_refl) simp_all
  then show ?thesis using Env_retry by (simp add: comes_to_def env_calls_def env_events_def)
qed

lemma env_steps_run:
  "matches n s t \<Longrightarrow> env_steps c xs t = Inr t' \<Longrightarrow> is_main p \<Longrightarrow> p \<notin> {M_wait, M_done} \<Longrightarrow> eq_pc s 0 = p \<Longrightarrow>
     comes_to s xs [] p t'"
proof (induction xs arbitrary: n s t)
  case Nil
  then show ?case by (auto intro: comes_to_refl)
next
  case (Cons x xs)
  obtain t1 where t1: "env_step c x t = Inr t1" "env_steps c xs t1 = Inr t'" using Cons.prems(2) by auto
  have "comes_to s ([x] @ xs) ([] @ []) p t'"
    using env_run [OF Cons.prems(1) t1(1) Cons.prems(3-5)] Cons.IH [OF _ t1(2) Cons.prems(3,4)]
    by (rule comes_to_trans)
  then show ?case by simp
qed

text \<open>The operations of the log thread at the end of a round.\<close>

lemma main_run:
  assumes "matches n s t"
  shows "eq_pc s 0 = M_relock \<Longrightarrow> lt_do_terminate t \<Longrightarrow> lt_events t = [] \<Longrightarrow>
      comes_to s [] [] (if still then M_sleep else M_last_lock) t"
    and "eq_pc s 0 = M_relock \<Longrightarrow> \<not> lt_do_terminate t \<Longrightarrow> lt_events t = [] \<Longrightarrow> comes_to s [] [] M_lock t"
    and "eq_pc s 0 = M_relock \<Longrightarrow> lt_events t \<noteq> [] \<Longrightarrow> comes_to s [] [] M_lock t"
    and "eq_pc s 0 = M_sleep \<Longrightarrow> comes_to s [] [] M_lock t"
    and "eq_pc s 0 = M_last_lock \<Longrightarrow> comes_to s [] [] (if lt_events t = [] then M_done else M_lock) t"
proof -
  have input: "eq_events s = lt_events t" "eq_do_terminate s = lt_do_terminate t" "eq_owner s = None"
    using assms by (simp_all add: matches_def lt_input_def)
  have keep: "matches n (release 0 p s) t" "matches n (goto 0 p s) t" for p
    using assms by (simp_all add: matches_def queue_updates)
  note run = qrun_Cons_eq qrun_Nil_eq qstep_simps queue_updates input
  show "comes_to s [] [] (if still then M_sleep else M_last_lock) t"
    if "eq_pc s 0 = M_relock" "lt_do_terminate t" "lt_events t = []"
  proof (rule comes_toI [OF _ _ keep(1)])
    show "qrun s [Act 0, Act 0, Scan still] (release 0 (if still then M_sleep else M_last_lock) s)"
      using that by (simp add: run)
  qed (simp_all add: no_signal_def queue_updates)
  show "comes_to s [] [] M_lock t" if "eq_pc s 0 = M_relock" "\<not> lt_do_terminate t" "lt_events t = []"
  proof (rule comes_toI [OF _ _ keep(1)])
    show "qrun s [Act 0, Act 0, Spurious, Act 0, Act 0] (release 0 M_lock s)" using that by (simp add: run)
  qed (simp_all add: no_signal_def queue_updates)
  show "comes_to s [] [] M_lock t" if "eq_pc s 0 = M_relock" "lt_events t \<noteq> []"
  proof (rule comes_toI [OF _ _ keep(1)])
    show "qrun s [Act 0, Act 0, Act 0] (release 0 M_lock s)" using that by (simp add: run)
  qed (simp_all add: no_signal_def queue_updates)
  show "comes_to s [] [] M_lock t" if "eq_pc s 0 = M_sleep"
  proof (rule comes_toI [OF _ _ keep(2)])
    show "qrun s [Act 0] (goto 0 M_lock s)" using that by (simp add: run)
  qed (simp_all add: no_signal_def queue_updates)
  show "comes_to s [] [] (if lt_events t = [] then M_done else M_lock) t" if "eq_pc s 0 = M_last_lock"
  proof (rule comes_toI [OF _ _ keep(1)])
    show "qrun s [Act 0, Act 0] (release 0 (if lt_events t = [] then M_done else M_lock) s)"
      using that by (simp add: run)
  qed (simp_all add: no_signal_def queue_updates)
qed


subsection \<open>What the rounds deliver\<close>

text \<open>
  The sinks exist, and a retry thread with events to write is running and works for one of them.
  (During shutdown there may also be entries set to null.)
\<close>

definition retries_ok :: "(string \<times> nat) list \<Rightarrow> 's log_thread \<Rightarrow> bool" where
  "retries_ok xs t \<longleftrightarrow> lt_streams t = xs \<and> map_wf (lt_retry_map t) \<and> (\<forall>p r. map_find p (lt_retry_map t) = Some (Some r) \<longrightarrow>
     p \<in> set (map snd xs) \<and> (rt_queue r \<noteq> [] \<longrightarrow> rt_running r))"

lemma retries_ok_erase: "retries_ok xs t \<Longrightarrow> retries_ok xs (t\<lparr>lt_retry_map := map_erase p (lt_retry_map t)\<rparr>)"
  by (auto simp: retries_ok_def cmap.find_erase intro: map_wf_intros split: if_splits)

lemma retries_ok_assign:
  "retries_ok xs t \<Longrightarrow> map_find p (lt_retry_map t) = Some x0 \<Longrightarrow> p \<in> set (map snd xs) \<Longrightarrow> rt_queue r \<noteq> [] \<longrightarrow> rt_running r \<Longrightarrow>
   retries_ok xs (t\<lparr>lt_retry_map := map_assign p (Some r) (lt_retry_map t)\<rparr>)"
  unfolding retries_ok_def by (simp add: cmap.find_assign map_wf_intros)

lemma write_direct_retries:
  "write_direct c spawn e p t = Inr t' \<Longrightarrow> retries_ok xs t \<Longrightarrow> p \<in> set (map snd xs) \<Longrightarrow> retries_ok xs t'"
  by (auto simp: write_direct_def retries_ok_def cmap.find_emplace rt_enqueue_def
      new_retry_thread_def Let_def intro: map_wf_intros split: option.splits prod.splits if_splits) force+

lemma log_stream_retries:
  assumes "log_stream c spawn e p t = Inr t'" "retries_ok xs t" "p \<in> set (map snd xs)"
  shows "retries_ok xs t'"
proof (cases "\<exists>r. map_find p (lt_retry_map t) = Some (Some r) \<and> rt_active r")
  case True
  then obtain r where r: "map_find p (lt_retry_map t) = Some (Some r)" "rt_active r" by blast
  then have "rt_running r" using assms(2) by (simp add: retries_ok_def rt_active_def)
  moreover have "t' = t\<lparr>lt_retry_map := map_assign p (Some (rt_enqueue e r)) (lt_retry_map t)\<rparr>"
    using assms(1) r by (simp add: log_stream_def)
  ultimately show ?thesis using retries_ok_assign [OF assms(2) r(1) assms(3)] by (simp add: rt_enqueue_def)
next
  case False
  then have "write_direct c spawn e p t = Inr t' \<or>
      write_direct c spawn e p (t\<lparr>lt_retry_map := map_erase p (lt_retry_map t)\<rparr>) = Inr t'"
    using assms(1) by (auto simp: log_stream_def split: option.splits if_splits)
  then show ?thesis using write_direct_retries [OF _ _ assms(3)] retries_ok_erase assms(2) by blast
qed

lemma log_streams_retries:
  "log_streams c spawn e ys t = Inr t' \<Longrightarrow> retries_ok xs t \<Longrightarrow> set ys \<subseteq> set xs \<Longrightarrow> retries_ok xs t'"
proof (induction c spawn e ys t rule: log_streams.induct)
  case (2 c spawn e name p ys t)
  then obtain t1 where t1: "log_stream c spawn e p t = Inr t1" "log_streams c spawn e ys t1 = Inr t'" by auto
  have "p \<in> set (map snd xs)" using "2.prems"(3) by force
  then show ?case
    using "2.IH" [OF t1] log_stream_retries [OF t1(1) "2.prems"(2)] "2.prems"(3) by simp
qed simp

text \<open>
  From \<open>t\<close> to \<open>t'\<close> the operations \<open>xs\<close> have been done: for each sink, what the specification of a
  single sink says (\<open>sink_op\<close>).
\<close>

definition delivers ::
  "(time_point \<Rightarrow> string option) \<Rightarrow> 's stream_class \<Rightarrow> 's log_thread \<Rightarrow> lt_op list \<Rightarrow> 's log_thread \<Rightarrow> bool" where
  "delivers fmt c t xs t' \<longleftrightarrow> (lt_wf t \<and> retries_ok (lt_streams t) t \<longrightarrow>
     lt_wf t' \<and> retries_ok (lt_streams t) t' \<and> (\<forall>p \<in> set (map snd (lt_streams t)).
       sink_view t' p = map_option (fold (sink_op fmt (os_write (vt_do_write c)) p) xs) (sink_view t p)))"

lemma delivers_trans:
  assumes "delivers fmt c t xs t1" "delivers fmt c t1 ys t2"
  shows "delivers fmt c t (xs @ ys) t2"
  unfolding delivers_def
proof (intro impI)
  assume start: "lt_wf t \<and> retries_ok (lt_streams t) t"
  then have t1: "lt_wf t1" "retries_ok (lt_streams t) t1" "\<forall>p \<in> set (map snd (lt_streams t)).
      sink_view t1 p = map_option (fold (sink_op fmt (os_write (vt_do_write c)) p) xs) (sink_view t p)"
    using assms(1) by (simp_all add: delivers_def)
  then have "lt_streams t1 = lt_streams t" by (simp add: retries_ok_def)
  then show "lt_wf t2 \<and> retries_ok (lt_streams t) t2 \<and> (\<forall>p \<in> set (map snd (lt_streams t)).
      sink_view t2 p = map_option (fold (sink_op fmt (os_write (vt_do_write c)) p) (xs @ ys)) (sink_view t p))"
    using assms(2) t1 unfolding delivers_def by (simp add: option.map_comp comp_def)
qed

lemma delivers_same:
  assumes "lt_streams t' = lt_streams t" "lt_heap t' = lt_heap t" "lt_retry_map t' = lt_retry_map t"
  shows "delivers fmt c t [] t'"
  using assms by (simp add: delivers_def lt_wf_def retries_ok_def sink_view_def retry_queue_def option.map_ident id_def)

lemma log_delivers:
  assumes "lt_log fmt c spawn e t = Inr t'"
  shows "delivers fmt c t [Op_log spawn e] t'"
  unfolding delivers_def
proof (intro impI)
  assume start: "lt_wf t \<and> retries_ok (lt_streams t) t"
  obtain ts where ts: "fmt (le_time e) = Some ts" using assms by (auto simp: lt_log_def split: option.splits)
  then have stamp: "stamp fmt e = e\<lparr>le_time_string := ts\<rparr>" by (simp add: stamp_def)
  from lt_log_view [where t = t and fmt = fmt and e = e and ts = ts and spawn = spawn and c = c] ts start assms
  have t': "lt_wf t'" "lt_streams t' = lt_streams t" "\<forall>p. sink_view t' p = (if p \<in> set (map snd (lt_streams t))
       then map_option (sink_log (os_write (vt_do_write c)) (spawn (stamp fmt e) p = None) (stamp fmt e)) (sink_view t p)
       else sink_view t p)"
    unfolding stamp by auto
  have "retries_ok (lt_streams t) t'"
    using log_streams_retries [of c spawn "stamp fmt e" "lt_streams t" t t' "lt_streams t"] assms start
    by (simp add: lt_log_def ts stamp)
  then show "lt_wf t' \<and> retries_ok (lt_streams t) t' \<and> (\<forall>p \<in> set (map snd (lt_streams t)).
      sink_view t' p = map_option (fold (sink_op fmt (os_write (vt_do_write c)) p) [Op_log spawn e]) (sink_view t p))"
    using t' by simp
qed

lemma log_all_delivers:
  "log_all fmt c spawn es t = Inr t' \<Longrightarrow> delivers fmt c t (map (Op_log spawn) es) t'"
proof (induction es arbitrary: t)
  case Nil
  then show ?case by (simp add: delivers_same)
next
  case (Cons e es)
  then obtain t1 where t1: "lt_log fmt c spawn e t = Inr t1" "log_all fmt c spawn es t1 = Inr t'" by auto
  from delivers_trans [OF log_delivers [OF t1(1)] Cons.IH [OF t1(2)]] show ?case by simp
qed

lemma cycle_delivers:
  assumes "retry_thread_cycle c q tpnow t = Inr t'"
  shows "delivers fmt c t [Op_cycle q tpnow] t'"
  unfolding delivers_def
proof (intro impI)
  assume start: "lt_wf t \<and> retries_ok (lt_streams t) t"
  let ?w = "os_write (vt_do_write c)"
  show "lt_wf t' \<and> retries_ok (lt_streams t) t' \<and> (\<forall>p \<in> set (map snd (lt_streams t)).
      sink_view t' p = map_option (fold (sink_op fmt ?w p) [Op_cycle q tpnow]) (sink_view t p))"
  proof (cases "\<exists>r. map_find q (lt_retry_map t) = Some (Some r) \<and> rt_running r")
    case False
    then have "t' = t" using assms by (auto simp: retry_thread_cycle_def split: option.splits if_splits)
    moreover have "retry_queue t q = []"
      using False start by (auto simp: retry_queue_def retries_ok_def split: option.splits)
    ultimately show ?thesis using start by (simp add: sink_view_def option.map_comp comp_def id_def option.map_ident)
  next
    case True
    then obtain r where r: "map_find q (lt_retry_map t) = Some (Some r)" "rt_running r" by blast
    then have q: "q \<in> set (map snd (lt_streams t))" using start by (simp add: retries_ok_def)
    obtain s where s: "lt_heap t q = Some s" using start q by (auto simp: lt_wf_def)
    obtain s' q' where cycle: "sink_cycle ?w tpnow (s, rt_queue r) = (s', q')" by fastforce
    define run0 where "run0 = \<lparr>run_stream = s, run_thread = r, run_done = [], run_cout = lt_cout t, run_cerr = lt_cerr t\<rparr>"
    define run1 where "run1 = rt_run c [([], tpnow)] run0"
    have run1: "run_stream run1 = s'" "rt_queue (run_thread run1) = q'" "rt_running (run_thread run1) \<longleftrightarrow> q' \<noteq> []"
      using rt_run_one [of c tpnow run0 s' q'] cycle r(2) by (simp_all add: run1_def run0_def del: rt_run.simps)
    have t': "t' = t\<lparr>lt_heap := (lt_heap t)(q \<mapsto> s'), lt_retry_map := map_assign q (Some (run_thread run1)) (lt_retry_map t),
        lt_cout := run_cout run1, lt_cerr := run_cerr run1\<rparr>"
      using assms r s run1(1)
      by (simp add: retry_thread_cycle_def Let_def del: rt_run.simps flip: run0_def run1_def)
    have "lt_wf t'" using start by (auto simp: t' lt_wf_def intro: map_wf_intros)
    moreover have "retries_ok (lt_streams t) t'"
      using start r q run1(2,3) unfolding t' retries_ok_def by (simp add: cmap.find_assign map_wf_intros)
    moreover have "sink_view t' p = map_option (fold (sink_op fmt ?w p) [Op_cycle q tpnow]) (sink_view t p)" for p
      using r s run1(2) cycle by (simp add: t' sink_view_def retry_queue_def cmap.find_assign option.map_ident comp_def id_def)
    ultimately show ?thesis by blast
  qed
qed

text \<open>The cycles of the retry threads in a gap.\<close>

definition env_cycles :: "env_action list \<Rightarrow> lt_op list" where
  "env_cycles xs = concat (map (\<lambda>x. case x of Env_retry p tpnow \<Rightarrow> [Op_cycle p tpnow] | _ \<Rightarrow> []) xs)"

lemma env_cycles_simps [simp]: "env_cycles [] = []" "env_cycles (xs @ ys) = env_cycles xs @ env_cycles ys"
  by (simp_all add: env_cycles_def)

lemma env_step_delivers: "env_step c x t = Inr t' \<Longrightarrow> delivers fmt c t (env_cycles [x]) t'"
  by (cases x) (auto simp: env_cycles_def lt_enqueue_def lt_terminate_def Let_def intro: delivers_same cycle_delivers)

lemma env_steps_delivers: "env_steps c xs t = Inr t' \<Longrightarrow> delivers fmt c t (env_cycles xs) t'"
proof (induction xs arbitrary: t)
  case Nil
  then show ?case by (simp add: delivers_same)
next
  case (Cons x xs)
  then obtain t1 where t1: "env_step c x t = Inr t1" "env_steps c xs t1 = Inr t'" by auto
  have "delivers fmt c t (env_cycles [x] @ env_cycles xs) t'"
    using env_step_delivers [OF t1(1)] Cons.IH [OF t1(2)] by (rule delivers_trans)
  then show ?case by (simp flip: env_cycles_simps(2))
qed

lemma scan_delivers:
  assumes "retry_scan (lt_retry_map t) = Inr (m, still)"
  shows "delivers fmt c t [] (t\<lparr>lt_retry_map := m\<rparr>)"
proof -
  let ?f = "\<lambda>r. case r of Some x \<Rightarrow> if rt_active x then r else None | None \<Rightarrow> None"
  have m: "m = map (\<lambda>(p, r). (p, ?f r)) (lt_retry_map t)"
    using retry_scan_result [OF assms] by blast
  have find: "map_find p m = map_option ?f (map_find p (lt_retry_map t))" for p
    by (simp add: m map_find_def map_of_map)
  have "retry_queue (t\<lparr>lt_retry_map := m\<rparr>) p = retry_queue t p" for p
    by (auto simp: retry_queue_def find rt_active_def split: option.splits)
  moreover have "map_wf m \<longleftrightarrow> map_wf (lt_retry_map t)"
    by (simp add: m map_wf_def comp_def case_prod_unfold)
  ultimately show ?thesis
    by (auto simp: delivers_def lt_wf_def retries_ok_def sink_view_def find option.map_ident id_def
        split: option.splits if_splits)
qed

subsection \<open>Rounds\<close>

text \<open>
  What the other threads do in a round: the second gap is there only if the log thread scans the
  retry threads. And what they do in the rounds up to the loop's return, with the operations on
  the sinks.
\<close>

definition scans ::
  "(time_point \<Rightarrow> string option) \<Rightarrow> 's stream_class \<Rightarrow>
     (log_event \<Rightarrow> nat \<Rightarrow> (string \<times> string) option) \<Rightarrow> env_action list \<Rightarrow> 's log_thread \<Rightarrow> bool" where
  "scans fmt c spawn env1 t =
     (case bind_exn (log_all fmt c spawn (lt_events t) (t\<lparr>lt_events := []\<rparr>)) (env_steps c env1) of
        Inl _ \<Rightarrow> False
      | Inr t2 \<Rightarrow> lt_do_terminate t2 \<and> lt_events t2 = [])"

definition round_taken ::
  "(time_point \<Rightarrow> string option) \<Rightarrow> 's stream_class \<Rightarrow>
     (log_event \<Rightarrow> nat \<Rightarrow> (string \<times> string) option) \<Rightarrow> env_action list \<Rightarrow> env_action list \<Rightarrow> 's log_thread \<Rightarrow>
     env_action list" where
  "round_taken fmt c spawn env1 env2 t = env1 @ (if scans fmt c spawn env1 t then env2 else [])"

fun env_taken ::
  "(time_point \<Rightarrow> string option) \<Rightarrow> 's stream_class \<Rightarrow> round_env list \<Rightarrow> 's log_thread \<Rightarrow> env_action list" where
  "env_taken fmt c [] t = []"
| "env_taken fmt c ((spawn, env1, env2) # rounds) t =
     round_taken fmt c spawn env1 env2 t @ (case do_run_round fmt c spawn env1 env2 t of
         Inl _ \<Rightarrow> []
       | Inr (outcome, t1) \<Rightarrow> if outcome = Return then [] else env_taken fmt c rounds t1)"

lemma round_run:
  assumes "do_run_round fmt c spawn env1 env2 t = Inr (outcome, t')"
  shows "matches n s t \<Longrightarrow> eq_pc s 0 = M_lock \<Longrightarrow>
      comes_to s (round_taken fmt c spawn env1 env2 t) (lt_events t) (if outcome = Return then M_done else M_lock) t'"
    and "delivers fmt c t (map (Op_log spawn) (lt_events t) @ env_cycles (round_taken fmt c spawn env1 env2 t)) t'"
proof -
  let ?stop = "if outcome = Return then M_done else M_lock"
  obtain t1 t2 where t2: "log_all fmt c spawn (lt_events t) (t\<lparr>lt_events := []\<rparr>) = Inr t1" "env_steps c env1 t1 = Inr t2"
    using assms by (auto simp: do_run_round_def)
  have scans: "scans fmt c spawn env1 t \<longleftrightarrow> lt_do_terminate t2 \<and> lt_events t2 = []"
    by (simp add: scans_def t2)
  define env where "env = (if scans fmt c spawn env1 t then env2 else [])"
  have last: "(\<forall>n1 s1. matches n1 s1 t2 \<longrightarrow> eq_pc s1 0 = M_relock \<longrightarrow> comes_to s1 env [] ?stop t') \<and>
      delivers fmt c t2 (env_cycles env) t'"
  proof (cases "scans fmt c spawn env1 t")
    case True
    then obtain m still where m: "retry_scan (lt_retry_map t2) = Inr (m, still)"
      "env_steps c env2 (t2\<lparr>lt_retry_map := m\<rparr>) = Inr t'" "outcome = (if \<not> still \<and> lt_events t' = [] then Return else Continue)"
      using assms t2 scans by (auto simp: do_run_round_def split: if_splits)
    have "comes_to s1 env [] ?stop t'" if s1: "matches n1 s1 t2" "eq_pc s1 0 = M_relock" for n1 s1
    proof -
      have "matches n1 s1 (t2\<lparr>lt_retry_map := m\<rparr>)" using s1(1) by (simp add: matches_def lt_input_def)
      then have "comes_to s1 [] [] (if still then M_sleep else M_last_lock) (t2\<lparr>lt_retry_map := m\<rparr>)"
        using s1(2) True scans by (intro main_run(1)) simp_all
      then have "comes_to s1 ([] @ env2) ([] @ []) (if still then M_sleep else M_last_lock) t'"
        by (rule comes_to_trans) (use m(2) in \<open>auto intro: env_steps_run\<close>)
      then have "comes_to s1 (([] @ env2) @ []) (([] @ []) @ []) ?stop t'"
        by (rule comes_to_trans) (use main_run(4) main_run(5) [of _ _ t'] m(3) in \<open>auto split: if_splits\<close>)
      then show ?thesis using True by (simp add: env_def)
    qed
    moreover have "delivers fmt c t2 ([] @ env_cycles env2) t'"
      using scan_delivers [OF m(1)] env_steps_delivers [OF m(2)] by (rule delivers_trans)
    ultimately show ?thesis using True by (simp add: env_def)
  next
    case False
    then have "t' = t2" "outcome \<noteq> Return" using assms t2 scans by (auto simp: do_run_round_def split: if_splits)
    moreover have "comes_to s1 [] [] M_lock t2" if "matches n1 s1 t2" "eq_pc s1 0 = M_relock" for n1 s1
      using False scans main_run(2,3) [OF that] by (cases "lt_events t2 = []") simp_all
    ultimately show ?thesis using False by (simp add: env_def delivers_same)
  qed
  have "lt_input t1 = ([], lt_do_terminate t)" using log_all_input [OF t2(1)] by (simp add: lt_input_def)
  then have first: "comes_to s [] (lt_events t) M_relock t1" if "matches n s t" "eq_pc s 0 = M_lock" for n s
    using that take_run by blast
  show "comes_to s (round_taken fmt c spawn env1 env2 t) (lt_events t) ?stop t'" if "matches n s t" "eq_pc s 0 = M_lock"
  proof -
    have "comes_to s ([] @ env1) (lt_events t @ []) M_relock t2"
      using first [OF that] by (rule comes_to_trans) (use t2(2) in \<open>auto intro: env_steps_run\<close>)
    then have "comes_to s (([] @ env1) @ env) ((lt_events t @ []) @ []) ?stop t'"
      by (rule comes_to_trans) (use last in blast)
    then show ?thesis by (simp add: round_taken_def env_def)
  qed
  have "delivers fmt c t [] (t\<lparr>lt_events := []\<rparr>)" by (simp add: delivers_same)
  from delivers_trans [OF delivers_trans [OF delivers_trans [OF this log_all_delivers [OF t2(1)]]
      env_steps_delivers [OF t2(2)]] conjunct2 [OF last]]
  show "delivers fmt c t (map (Op_log spawn) (lt_events t) @ env_cycles (round_taken fmt c spawn env1 env2 t)) t'"
    by (simp add: round_taken_def env_def)
qed

text \<open>The events a list of operations delivers, and its cycles.\<close>

definition ops_events :: "lt_op list \<Rightarrow> log_event list" where
  "ops_events xs = concat (map (\<lambda>x. case x of Op_log _ e \<Rightarrow> [e] | Op_cycle _ _ \<Rightarrow> []) xs)"

definition ops_cycles :: "lt_op list \<Rightarrow> lt_op list" where
  "ops_cycles xs = filter (\<lambda>x. case x of Op_log _ _ \<Rightarrow> False | Op_cycle _ _ \<Rightarrow> True) xs"

lemma ops_simps [simp]:
  "ops_events [] = []" "ops_events (xs @ ys) = ops_events xs @ ops_events ys"
  "ops_cycles [] = []" "ops_cycles (xs @ ys) = ops_cycles xs @ ops_cycles ys"
  "ops_events (map (Op_log spawn) es) = es" "ops_cycles (map (Op_log spawn) es) = []"
  "ops_events (env_cycles env) = []" "ops_cycles (env_cycles env) = env_cycles env"
proof -
  show "ops_events (map (Op_log spawn) es) = es" "ops_cycles (map (Op_log spawn) es) = []"
    by (induction es) (simp_all add: ops_events_def ops_cycles_def)
  show "ops_events (env_cycles env) = []" "ops_cycles (env_cycles env) = env_cycles env"
    by (induction env) (auto simp: ops_events_def ops_cycles_def env_cycles_def split: env_action.split)
qed (simp_all add: ops_events_def ops_cycles_def)

lemma rounds_run:
  assumes "do_run fmt c rounds t = Inr (ended, t')"
  shows "\<exists>xs. delivers fmt c t xs t' \<and> ops_cycles xs = env_cycles (env_taken fmt c rounds t) \<and>
    (\<forall>spawn e. Op_log spawn e \<in> set xs \<longrightarrow> spawn \<in> fst ` set rounds) \<and>
    (\<forall>n s. matches n s t \<longrightarrow> eq_pc s 0 = M_lock \<longrightarrow>
      comes_to s (env_taken fmt c rounds t) (ops_events xs) (if ended then M_done else M_lock) t')"
  using assms
proof (induction rounds arbitrary: t)
  case Nil
  then show ?case by (auto simp: delivers_same intro!: exI [of _ "[]"] comes_to_refl)
next
  case (Cons x rounds)
  obtain spawn env1 env2 where x: "x = (spawn, env1, env2)" by (cases x)
  obtain outcome t1 where t1: "do_run_round fmt c spawn env1 env2 t = Inr (outcome, t1)"
    "if outcome = Return then ended \<and> t1 = t' else do_run fmt c rounds t1 = Inr (ended, t')"
    using Cons.prems x by (auto split: if_splits)
  let ?taken = "round_taken fmt c spawn env1 env2 t"
  let ?xs = "map (Op_log spawn) (lt_events t) @ env_cycles ?taken"
  note one = round_run [OF t1(1)]
  have no_log: "Op_log spawn' e \<notin> set (env_cycles env)" for spawn' e env
    by (auto simp: env_cycles_def split: env_action.splits)
  show ?case
  proof (cases "outcome = Return")
    case True
    then have "ended" "t1 = t'" using t1(2) by simp_all
    then show ?thesis using True one no_log t1(1) unfolding x by (intro exI [of _ ?xs]) auto
  next
    case False
    then obtain ys where ys: "delivers fmt c t1 ys t'" "ops_cycles ys = env_cycles (env_taken fmt c rounds t1)"
      "\<forall>spawn e. Op_log spawn e \<in> set ys \<longrightarrow> spawn \<in> fst ` set rounds"
      "\<forall>n s. matches n s t1 \<longrightarrow> eq_pc s 0 = M_lock \<longrightarrow>
        comes_to s (env_taken fmt c rounds t1) (ops_events ys) (if ended then M_done else M_lock) t'"
      using Cons.IH [of t1] t1(2) by auto
    have "delivers fmt c t (?xs @ ys) t'" using one(2) ys(1) by (rule delivers_trans)
    moreover have "comes_to s (?taken @ env_taken fmt c rounds t1) (lt_events t @ ops_events ys)
        (if ended then M_done else M_lock) t'" if "matches n s t" "eq_pc s 0 = M_lock" for n s
      using one(1) [OF that] False ys(4) by (auto intro: comes_to_trans)
    ultimately show ?thesis using False t1(1) ys(2,3) no_log unfolding x by (intro exI [of _ "?xs @ ys"]) auto
  qed
qed

text \<open>
  C10. The main loop, round by round with what the other threads do in the two gaps of each
  round, is one of the schedules of the interleaving threads: for any rounds there is a run of
  the queue's threads, without a signal, in which the other threads begin the same calls in the
  same order and nobody any other. The events these calls queue are those the run has passed to
  \<^verbatim>\<open>log\<close> and those it leaves, and it leaves what the loop leaves, with the same request to end; and
  when the loop has returned, the return of the log thread is the last step. What the run has
  passed on is what the rounds have delivered: every sink is, with the events waiting for it, in
  the state into which these events in this order and the cycles of the retry threads take it
  by the specification of a single sink (C4), where the starts of retry threads fail only as
  they do in the rounds. So what is shown of all schedules and of all deliveries holds of the loop.
\<close>

theorem do_run_is_a_schedule:
  assumes "do_run fmt c rounds t = Inr (ended, t')"
    and "lt_wf t" "lt_retry_map t = []" "lt_events t = []" "\<not> lt_do_terminate t"
  shows "\<exists>as q xs. qrun queue_start as q \<and> (\<forall>a \<in> set as. no_signal a) \<and>
    begun as = env_calls (env_taken fmt c rounds t) \<and> eq_pushed q = env_events (env_taken fmt c rounds t) \<and>
    eq_logged q @ eq_events q = eq_pushed q \<and> eq_events q = lt_events t' \<and> eq_do_terminate q = lt_do_terminate t' \<and>
    (if ended then eq_pc q 0 = M_done \<and> (\<exists>bs. as = bs @ [Act 0]) else eq_pc q 0 = M_lock) \<and>
    ops_events xs = eq_logged q \<and> ops_cycles xs = env_cycles (env_taken fmt c rounds t) \<and>
    (\<forall>spawn e. Op_log spawn e \<in> set xs \<longrightarrow> spawn \<in> fst ` set rounds) \<and>
    (\<forall>p \<in> set (map snd (lt_streams t)). sink_view t' p =
       map_option (fold (sink_op fmt (os_write (vt_do_write c)) p) xs) (sink_view t p))"
proof -
  have start: "matches 2 queue_start t" "eq_pc queue_start 0 = M_lock"
    using assms(4,5) by (simp_all add: matches_def queue_start_def lt_input_def)
  obtain xs where xs: "delivers fmt c t xs t'" "ops_cycles xs = env_cycles (env_taken fmt c rounds t)"
    "\<forall>spawn e. Op_log spawn e \<in> set xs \<longrightarrow> spawn \<in> fst ` set rounds"
    "comes_to queue_start (env_taken fmt c rounds t) (ops_events xs) (if ended then M_done else M_lock) t'"
    using rounds_run [OF assms(1)] start by blast
  obtain as q n where q: "qrun queue_start as q" "\<forall>a \<in> set as. no_signal a" "matches n q t'"
    "eq_pc q 0 = (if ended then M_done else M_lock)" "eq_logged q = eq_logged queue_start @ ops_events xs"
    "begun as = env_calls (env_taken fmt c rounds t)"
    "eq_pushed q = eq_pushed queue_start @ env_events (env_taken fmt c rounds t)"
    "(if ended then M_done else M_lock) = M_done \<longrightarrow> (\<exists>bs. as = bs @ [Act 0])"
    using xs(4) unfolding comes_to_def by blast
  have empty: "eq_logged queue_start = []" "eq_pushed queue_start = []" by (simp_all add: queue_start_def)
  have all: "eq_logged q @ eq_events q = eq_pushed q"
    using queue_inv_run(2) [OF q(1)] q(3) by (simp add: chain_inv_def matches_def)
  have "retries_ok (lt_streams t) t" by (simp add: retries_ok_def assms(3))
  then have "\<forall>p \<in> set (map snd (lt_streams t)). sink_view t' p =
       map_option (fold (sink_op fmt (os_write (vt_do_write c)) p) xs) (sink_view t p)"
    using xs(1) assms(2) unfolding delivers_def by blast
  moreover have "eq_events q = lt_events t'" "eq_do_terminate q = lt_do_terminate t'"
    using q(3) by (simp_all add: matches_def lt_input_def)
  ultimately show ?thesis using q empty all xs(2,3) by (intro exI [of _ as] exI [of _ q] exI [of _ xs]) simp
qed

definition sample_rounds :: "round_env list" where
  "sample_rounds =
     [(no_spawn_error, [Env_enqueue (sample_event Info ''a'' 0)], []),
      (no_spawn_error, [Env_terminate], [Env_enqueue (sample_event Info ''b'' 0)]),
      (no_spawn_error, [], [])]"

theorem do_run_is_a_schedule_witness:
  "\<exists>as q t'. do_run fmt_now stdout_class sample_rounds (new_log_thread 1 open_console) = Inr (True, t') \<and>
     qrun queue_start as q \<and> begun as = [Call_enqueue (sample_event Info ''a'' 0), Call_terminate,
       Call_enqueue (sample_event Info ''b'' 0)] \<and>
     eq_logged q = [sample_event Info ''a'' 0, sample_event Info ''b'' 0] \<and> eq_pc q 0 = M_done \<and> lt_events t' = []"
proof -
  let ?t = "new_log_thread 1 open_console"
  note computes = sample_rounds_def lt_enqueue_def new_log_thread_def do_run_round_def lt_log_def fmt_now_def
    log_stream_def write_direct_def open_console_def stdout_class_def os_write_def
    stdout_do_write_def ostr_put_def lt_terminate_def sample_event_def level_order Let_def
  obtain t' where run: "do_run fmt_now stdout_class sample_rounds ?t = Inr (True, t')" "lt_events t' = []"
    by (simp add: computes)
  have taken: "env_taken fmt_now stdout_class sample_rounds ?t =
      [Env_enqueue (sample_event Info ''a'' 0), Env_terminate, Env_enqueue (sample_event Info ''b'' 0)]"
    by (simp add: computes round_taken_def scans_def)
  have "lt_wf ?t" "lt_retry_map ?t = []" "lt_events ?t = []" "\<not> lt_do_terminate ?t"
    by (simp_all add: lt_wf_def new_log_thread_def)
  from do_run_is_a_schedule [OF run(1) this] obtain as q where
    "qrun queue_start as q" "begun as = env_calls (env_taken fmt_now stdout_class sample_rounds ?t)"
    "eq_pushed q = env_events (env_taken fmt_now stdout_class sample_rounds ?t)"
    "eq_logged q @ eq_events q = eq_pushed q" "eq_events q = lt_events t'" "eq_pc q 0 = M_done"
    by auto
  then have "qrun queue_start as q" "begun as = [Call_enqueue (sample_event Info ''a'' 0), Call_terminate,
       Call_enqueue (sample_event Info ''b'' 0)]"
    "eq_logged q = [sample_event Info ''a'' 0, sample_event Info ''b'' 0]" "eq_pc q 0 = M_done"
    using run(2) unfolding taken by (simp_all add: env_calls_def env_events_def)
  then show ?thesis using run by blast
qed

end
