(* ===== verification/Thread_Name.thy ===== *)
theory Thread_Name
  imports Log_Thread
begin

section \<open>The entry of the log thread and its name (log_thread.cpp: run)\<close>

text \<open>
  The thread function gives the thread a name of its own before it enters the main loop. The
  name is put together in a buffer of 17 bytes that starts with indeterminate content;
  \<^verbatim>\<open>prctl\<close> fills in up to 16 bytes and terminates only a shorter name, and takes 15 bytes
  of the name it is given. Reading or writing outside the buffer is an error value.
\<close>

definition pr_get_name :: "string \<Rightarrow> string \<Rightarrow> string" where
  "pr_get_name name buf = (let w = take 16 (name @ [nul]) in w @ drop (length w) buf)"

definition pr_set_name :: "string \<Rightarrow> string" where
  "pr_set_name buf = take 15 (takeWhile (\<lambda>ch. ch \<noteq> nul) buf)"

definition c_strlen :: "string \<Rightarrow> nat throws" where
  "c_strlen buf = (if nul \<in> set buf then Inr (length (takeWhile (\<lambda>ch. ch \<noteq> nul) buf)) else Inl Indeterminate_value)"

definition c_strncat :: "string \<Rightarrow> string \<Rightarrow> nat \<Rightarrow> string throws" where
  "c_strncat buf src n = bind_exn (c_strlen buf) (\<lambda>k.
     let w = take n src @ [nul]
     in if k + length w \<le> length buf then Inr (take k buf @ w @ drop (k + length w) buf) else Inl Indeterminate_value)"

definition log_thread_name :: "string \<Rightarrow> string \<Rightarrow> string throws" where
  "log_thread_name name buf =
     (let buf1 = (pr_get_name name buf)[16 := nul]
      in bind_exn (c_strlen buf1) (\<lambda>k. bind_exn (c_strncat buf1 '' (log)'' (16 - k)) (\<lambda>buf2. Inr (pr_set_name buf2))))"

text \<open>\<open>name\<close> is the name the new thread inherits, \<open>buf\<close> what the stack holds.\<close>

definition log_thread_run ::
  "(time_point \<Rightarrow> string option) \<Rightarrow> 's stream_class \<Rightarrow> round_env list \<Rightarrow> string \<Rightarrow> string \<Rightarrow>
     's log_thread \<Rightarrow> (string \<times> bool \<times> 's log_thread) throws" where
  "log_thread_run fmt c rounds name buf t =
     bind_exn (log_thread_name name buf) (\<lambda>nm. bind_exn (do_run fmt c rounds t) (\<lambda>r. Inr (nm, r)))"

lemma buffer_filled:
  assumes "length buf = 17" "nul \<notin> set name"
  shows "\<exists>rest. (pr_get_name name buf)[16 := nul] = take 16 name @ nul # rest \<and> length (take 16 name @ nul # rest) = 17"
proof (cases "length name < 16")
  case True
  then have "16 - length name = Suc (15 - length name)" by simp
  then have "(pr_get_name name buf)[16 := nul] = name @ nul # (drop (Suc (length name)) buf)[15 - length name := nul]"
    using True assms(1) by (simp add: pr_get_name_def Let_def list_update_append)
  then show ?thesis using True assms(1) by simp
next
  case False
  then have "(pr_get_name name buf)[16 := nul] = take 16 name @ [nul]"
    using assms(1) by (simp add: pr_get_name_def Let_def list_update_append min_def Cons_nth_drop_Suc [of 16 buf, symmetric])
  then show ?thesis using False by simp
qed

lemma takeWhile_nul: "nul \<notin> set w \<Longrightarrow> takeWhile (\<lambda>ch. ch \<noteq> nul) (w @ nul # rest) = w"
  by (induction w) auto

lemma c_strlen_at: "nul \<notin> set w \<Longrightarrow> c_strlen (w @ nul # rest) = Inr (length w)"
  by (simp add: c_strlen_def takeWhile_nul)

lemma c_strncat_at:
  assumes "nul \<notin> set w" "length (take n src) \<le> length rest"
  shows "\<exists>rest2. c_strncat (w @ nul # rest) src n = Inr ((w @ take n src) @ nul # rest2)"
  using assms by (simp add: c_strncat_def c_strlen_at Let_def)

text \<open>The name stays inside the buffer whatever the buffer and the inherited name are.\<close>

lemma log_thread_name_value:
  assumes "length buf = 17" "nul \<notin> set name"
  shows "log_thread_name name buf = Inr (take 15 (name @ '' (log)''))"
proof -
  obtain rest where rest: "(pr_get_name name buf)[16 := nul] = take 16 name @ nul # rest"
    "length (take 16 name @ nul # rest) = 17" using buffer_filled [OF assms] by blast
  have name: "nul \<notin> set (take 16 name)" using assms(2) by (auto dest: in_set_takeD)
  have len: "c_strlen (take 16 name @ nul # rest) = Inr (min (length name) 16)"
    using c_strlen_at [OF name, of rest] by (simp add: min.commute)
  have suffix: "nul \<notin> set (take 16 name @ take (16 - min (length name) 16) '' (log)'')"
    using name by (auto dest!: in_set_takeD)
  define w where "w = take 16 name @ take (16 - min (length name) 16) '' (log)''"
  have room: "length (take (16 - min (length name) 16) '' (log)'') \<le> length rest"
    using rest(2) by auto
  obtain rest2 where "c_strncat (take 16 name @ nul # rest) '' (log)'' (16 - min (length name) 16) = Inr (w @ nul # rest2)"
    using c_strncat_at [OF name room] unfolding w_def by blast
  moreover have "pr_set_name (w @ nul # rest2) = take 15 w"
    using suffix by (simp add: pr_set_name_def takeWhile_nul flip: w_def)
  moreover have "take 15 w = take 15 (name @ '' (log)'')"
    by (cases "length name \<le> 16") (simp_all add: w_def min_def)
  ultimately show ?thesis unfolding log_thread_name_def rest(1) by (simp add: len Let_def)
qed

text \<open>
  So the entry of the thread is the main loop under the name of the program with \<open>(log)\<close> behind
  it, as far as 15 bytes go; nothing of it depends on what the buffer held.
\<close>

theorem log_thread_run_named:
  assumes "length buf = 17" "nul \<notin> set name"
  shows "log_thread_run fmt c rounds name buf t =
    bind_exn (do_run fmt c rounds t) (\<lambda>r. Inr (take 15 (name @ '' (log)''), r))"
  by (simp add: log_thread_run_def log_thread_name_value [OF assms])

end
