(* ===== verification/Epics_Shell.thy ===== *)
theory Epics_Shell
  imports Logger
begin

section \<open>The EPICS shell commands (EPICS/EPICSLog.cpp, EPICS/iocCommands.c)\<close>

text \<open>
  The functions behind the commands of the IOC shell, and the registration of the commands.
  The sinks the first two commands make are given as objects and addresses, \<open>None\<close> for a
  constructor that throws; the texts on \<^verbatim>\<open>std::cout\<close> and \<^verbatim>\<open>std::cerr\<close> are returned.
\<close>

definition LogfileAddStream ::
  "'s stream_class \<Rightarrow> nat \<Rightarrow> 's output_stream throws \<Rightarrow> 's logger \<Rightarrow> 's logger throws" where
  "LogfileAddStream c p made lg =
     bind_exn made (\<lambda>s.
       case lg_thread lg of
         None \<Rightarrow> Inl Null_deref
       | Some t \<Rightarrow> add_output_stream c p [] (lg\<lparr>lg_thread := Some (t\<lparr>lt_heap := (lt_heap t)(p \<mapsto> s)\<rparr>)\<rparr>))"

definition LogfileAddFileStream ::
  "'s stream_class \<Rightarrow> nat \<Rightarrow> (string \<Rightarrow> 's output_stream throws) \<Rightarrow> string \<Rightarrow> 's logger \<Rightarrow> 's logger throws" where
  "LogfileAddFileStream c p new_file filename lg = LogfileAddStream c p (new_file filename) lg"

definition LogfileAddStompStream ::
  "'s stream_class \<Rightarrow> nat \<Rightarrow> (string \<Rightarrow> string \<Rightarrow> 's output_stream throws) \<Rightarrow> string \<Rightarrow> string \<Rightarrow>
     's logger \<Rightarrow> 's logger throws" where
  "LogfileAddStompStream c p new_stomp appname server lg = LogfileAddStream c p (new_stomp appname server) lg"

definition LogfileDump :: "log_level \<Rightarrow> 's stream_class \<Rightarrow> 's logger \<Rightarrow> string throws" where
  "LogfileDump minlevel c lg = dump_configuration minlevel c lg"

definition quote_name :: "string \<Rightarrow> string" where
  "quote_name s = [squote] @ s @ [squote]"

definition LogfileSetMinLevel :: "string \<Rightarrow> string \<Rightarrow> 's logger \<Rightarrow> (string \<times> 's logger) throws" where
  "LogfileSetMinLevel streamname level lg =
     (case level_by_name level of
        Inr l \<Rightarrow>
          bind_exn (set_min_log_level streamname l lg) (\<lambda>(found, lg1).
            Inr (if found then [] else ''Unknown output stream '' @ quote_name streamname @ [newline], lg1))
      | Inl (Invalid_argument _) \<Rightarrow>
          Inr (''Unknown log level '' @ quote_name level @ [newline] @ ''Known levels are:'' @
               concat (map (\<lambda>i. ''   - '' @ level_name i @ [newline]) all_levels), lg)
      | Inl e \<Rightarrow> Inl e)"

text \<open>Unknown names are ignored without a message.\<close>

definition LogfileSetSubsystemMinLevel :: "string \<Rightarrow> string \<Rightarrow> 's logger \<Rightarrow> 's logger throws" where
  "LogfileSetSubsystemMinLevel subsystem level lg =
     (case bind_exn (level_by_name level) (\<lambda>l. bind_exn (find_subsystem subsystem lg) (\<lambda>k.
             set_subsystem_min_log_level k l lg)) of
        Inl (Invalid_argument _) \<Rightarrow> Inr lg
      | r \<Rightarrow> r)"

subsection \<open>The commands\<close>

text \<open>
  A command is registered with its name and the number of its string arguments. An argument
  the user leaves out is a null pointer, from which a \<^verbatim>\<open>std::string\<close> must not be made; the
  constructors of the sinks make one of each of their arguments.
\<close>

definition log_commands :: "(string \<times> nat) list" where
  "log_commands =
     [(''logAddFileStream'', 1), (''logAddStompStream'', 2), (''logDump'', 0), (''logSetMinLevel'', 2),
      (''logSetSubsystemMinLevel'', 2)]"

record ioc_shell =
  ioc_first_time :: bool
  ioc_registered :: "(string \<times> nat) list"

definition logRegisterCommands :: "ioc_shell \<Rightarrow> ioc_shell" where
  "logRegisterCommands sh =
     (if ioc_first_time sh
      then sh\<lparr>ioc_registered := ioc_registered sh @ log_commands, ioc_first_time := False\<rparr>
      else sh)"

definition ioc_string :: "string option \<Rightarrow> string throws" where
  "ioc_string arg = (case arg of None \<Rightarrow> Inl Null_deref | Some s \<Rightarrow> Inr s)"

definition logAddFileStreamCallFunc ::
  "'s stream_class \<Rightarrow> nat \<Rightarrow> (string \<Rightarrow> 's output_stream throws) \<Rightarrow> string option list \<Rightarrow>
     's logger \<Rightarrow> 's logger throws" where
  "logAddFileStreamCallFunc c p new_file args lg =
     bind_exn (ioc_string (args ! 0)) (\<lambda>filename. LogfileAddFileStream c p new_file filename lg)"

definition logAddStompStreamCallFunc ::
  "'s stream_class \<Rightarrow> nat \<Rightarrow> (string \<Rightarrow> string \<Rightarrow> 's output_stream throws) \<Rightarrow> string option list \<Rightarrow>
     's logger \<Rightarrow> 's logger throws" where
  "logAddStompStreamCallFunc c p new_stomp args lg =
     bind_exn (ioc_string (args ! 0)) (\<lambda>appname.
     bind_exn (ioc_string (args ! 1)) (\<lambda>server. LogfileAddStompStream c p new_stomp appname server lg))"

definition logDumpCallFunc :: "log_level \<Rightarrow> 's stream_class \<Rightarrow> 's logger \<Rightarrow> string throws" where
  "logDumpCallFunc minlevel c lg = LogfileDump minlevel c lg"

definition logSetMinLevelCallFunc ::
  "string option list \<Rightarrow> 's logger \<Rightarrow> (string \<times> 's logger) throws" where
  "logSetMinLevelCallFunc args lg =
     bind_exn (ioc_string (args ! 1)) (\<lambda>level.
     bind_exn (if args ! 0 = None \<and> level \<in> set (map level_name all_levels) then Inl Null_deref
               else Inr (case args ! 0 of Some s \<Rightarrow> s | None \<Rightarrow> [])) (\<lambda>streamname.
       LogfileSetMinLevel streamname level lg))"

definition logSetSubsystemMinLevelCallFunc :: "string option list \<Rightarrow> 's logger \<Rightarrow> 's logger throws" where
  "logSetSubsystemMinLevelCallFunc args lg =
     bind_exn (ioc_string (args ! 1)) (\<lambda>level.
     bind_exn (if args ! 0 = None \<and> level \<in> set (map level_name all_levels) then Inl Null_deref
               else Inr (case args ! 0 of Some s \<Rightarrow> s | None \<Rightarrow> [])) (\<lambda>subsystem.
       LogfileSetSubsystemMinLevel subsystem level lg))"

lemma logRegisterCommands_once:
  "logRegisterCommands (logRegisterCommands sh) = logRegisterCommands sh"
  by (simp add: logRegisterCommands_def)

subsection \<open>Setting a level by name\<close>

lemma level_by_name_cases:
  obtains (known) l where "level = level_name l" "level_by_name level = Inr l"
    | (unknown) "level \<notin> range level_name" "level_by_name level = Inl (Invalid_argument ''Unknown level name.'')"
proof (cases "level_by_name level")
  case (Inr l)
  then show thesis using known level_by_name_Inr by blast
next
  case (Inl e)
  have "level \<notin> range level_name"
  proof
    assume "level \<in> range level_name"
    then obtain l where "level = level_name l" ..
    then show False using Inl level_by_name_level_name [of l] by (metis Inl_Inr_False)
  qed
  then show thesis using unknown Inl level_by_name_Inl by blast
qed

text \<open>
  The shell command that sets a sink's level, for every name and level: an unknown level
  changes nothing and prints the list of the seven known ones; a known level for an unknown sink
  changes nothing and says so; and otherwise nothing is printed, exactly the named sink gets
  the level, and no other object, name, event or subsystem changes.
\<close>

theorem LogfileSetMinLevel_spec:
  assumes "lg_thread lg = Some t" "\<forall>p. map_find streamname (lt_streams t) = Some p \<longrightarrow> lt_heap t p \<noteq> None"
  shows "\<exists>msg lg'. LogfileSetMinLevel streamname level lg = Inr (msg, lg') \<and>
    (msg = [] \<longleftrightarrow> level \<in> range level_name \<and> map_find streamname (lt_streams t) \<noteq> None) \<and>
    (case map_find streamname (lt_streams t) of
       Some p \<Rightarrow>
         (\<forall>l. level = level_name l \<longrightarrow>
            lg' = lg\<lparr>lg_thread := Some (t\<lparr>lt_heap := (lt_heap t)(p \<mapsto> (the (lt_heap t p))\<lparr>os_min_level := l\<rparr>)\<rparr>)\<rparr>) \<and>
         (level \<notin> range level_name \<longrightarrow> lg' = lg)
     | None \<Rightarrow> lg' = lg)"
proof (cases level rule: level_by_name_cases)
  case (known l)
  have inj: "level_name l = level_name k \<Longrightarrow> k = l" for k
    by (metis level_by_name_level_name sum.inject(2))
  show ?thesis
  proof (cases "map_find streamname (lt_streams t)")
    case None
    have "LogfileSetMinLevel streamname level lg =
        Inr (''Unknown output stream '' @ quote_name streamname @ [newline], lg)"
      unfolding LogfileSetMinLevel_def set_min_log_level_def known(2) assms(1) by (simp add: None)
    then show ?thesis using None by simp
  next
    case (Some p)
    then obtain s where s: "lt_heap t p = Some s" using assms(2) by auto
    let ?lg = "lg\<lparr>lg_thread := Some (t\<lparr>lt_heap := (lt_heap t)(p \<mapsto> s\<lparr>os_min_level := l\<rparr>)\<rparr>)\<rparr>"
    have run: "LogfileSetMinLevel streamname level lg = Inr ([], ?lg)"
      unfolding LogfileSetMinLevel_def set_min_log_level_def known(2) assms(1)
      by (simp add: Some s os_set_min_log_level_def)
    have "level \<in> range level_name" using known(1) by simp
    moreover have "\<forall>k. level = level_name k \<longrightarrow> k = l"
      using inj unfolding known(1) by (intro allI impI)
    ultimately show ?thesis
      unfolding run Some option.case s option.sel
      by (intro exI [of _ "[]"] exI [of _ ?lg] conjI refl) blast+
  qed
next
  case unknown
  have "LogfileSetMinLevel streamname level lg =
      Inr (''Unknown log level '' @ quote_name level @ [newline] @ ''Known levels are:'' @
        concat (map (\<lambda>i. ''   - '' @ level_name i @ [newline]) all_levels), lg)"
    unfolding LogfileSetMinLevel_def unknown(2) by simp
  moreover have "level \<noteq> level_name l" for l using unknown(1) by blast
  ultimately show ?thesis using unknown(1) by (simp split: option.split)
qed

theorem LogfileSetMinLevel_spec_witness:
  "\<exists>msg lg'. LogfileSetMinLevel ''c'' ''fatal'' sample_logger = Inr (msg, lg') \<and> msg \<noteq> [] \<and> lg' = sample_logger"
proof -
  have t: "lg_thread sample_logger = Some (new_log_thread 1 open_console)"
    "map_find ''c'' (lt_streams (new_log_thread 1 open_console)) = None"
    by (simp_all add: sample_logger_def register_subsystem_def find_subsystem_def new_logger_def
        new_log_thread_def map_find_def Let_def)
  have "''fatal'' \<notin> range level_name"
  proof
    assume "''fatal'' \<in> range level_name"
    then obtain l where "''fatal'' = level_name l" by blast
    then show False by (cases l) simp_all
  qed
  then show ?thesis
    using LogfileSetMinLevel_spec [OF t(1), of "''c''" "''fatal''"] t(2) by auto
qed

end
