(* ===== verification/Qt_Log_List.thy ===== *)
theory Qt_Log_List
  imports Logger
begin

section \<open>The Qt sink (Qt/QLogList.h, Qt/QLogList.cpp)\<close>

text \<open>
  The list model that is a sink, its expiry every 30 seconds and what it shows to its views. A
  \<^verbatim>\<open>QVariant\<close> is one of the values the code puts into it.
\<close>

record log_list =
  ql_log_events :: "log_event list"

definition ql_name :: string where "ql_name = ''QLogList''"

definition ql_do_write :: "log_list \<Rightarrow> log_event \<Rightarrow> bool \<times> log_list" where
  "ql_do_write q le = (True, q\<lparr>ql_log_events := ql_log_events q @ [le]\<rparr>)"

interpretation qt_list: sink ql_do_write ql_log_events "\<lambda>_ le. [le]"
  by unfold_locales (auto simp: ql_do_write_def)

definition qt_class :: "log_list stream_class" where
  "qt_class = \<lparr>vt_name = (\<lambda>_. ql_name), vt_retry_time = (\<lambda>_. os_retry_time), vt_do_write = ql_do_write,
     vt_destroy = Inr\<rparr>"

text \<open>
  The constructor puts the new list, at address \<open>p\<close>, among the sinks of the logger. The
  logger's sinks are of a type \<open>'s\<close> with the functions \<open>c\<close>, of which \<open>obj\<close> makes the
  list one. (The timer that calls \<^verbatim>\<open>expire\<close> is Qt's.)
\<close>

definition new_log_list ::
  "(log_list \<Rightarrow> 's) \<Rightarrow> 's stream_class \<Rightarrow> log_level \<Rightarrow> nat \<Rightarrow> 's logger \<Rightarrow> 's logger throws" where
  "new_log_list obj c minlevel p lg =
     (case lg_thread lg of
        None \<Rightarrow> Inl Null_deref
      | Some t \<Rightarrow>
          add_output_stream c p []
            (lg\<lparr>lg_thread := Some (t\<lparr>lt_heap :=
              (lt_heap t)(p \<mapsto> new_output_stream minlevel (obj \<lparr>ql_log_events = []\<rparr>))\<rparr>)\<rparr>))"

subsection \<open>expire\<close>

definition debug_level :: "log_event \<Rightarrow> bool" where
  "debug_level e \<longleftrightarrow> le_level e = Finest \<or> le_level e = Finer \<or> le_level e = Fine"

text \<open>
  The loop over the rows, with the first row of the current run of debug entries.
  \<^verbatim>\<open>QList::erase\<close> invalidates the iterators of the list, so going on with \<^verbatim>\<open>i\<close> after it is
  a use of a dangling pointer.
\<close>

function expire_rows :: "time_point \<Rightarrow> nat \<Rightarrow> nat option \<Rightarrow> log_event list \<Rightarrow> log_event list throws" where
  "expire_rows now row first_row evs =
     (if length evs \<le> row
      then Inr (case first_row of Some f \<Rightarrow> take f evs | None \<Rightarrow> evs)
      else if trunc_div (le_time (evs ! row) - now) ns_per_s > 3600
      then Inr (case first_row of Some f \<Rightarrow> take f evs @ drop row evs | None \<Rightarrow> evs)
      else if debug_level (evs ! row)
      then expire_rows now (row + 1) (case first_row of None \<Rightarrow> Some row | Some f \<Rightarrow> Some f) evs
      else
        case first_row of
          Some f \<Rightarrow> Inl Use_after_free
        | None \<Rightarrow> expire_rows now (row + 1) None evs)"
  by pat_completeness auto
termination
  by (relation "measure (\<lambda>(now, row, first_row, evs). length evs - row)") auto

declare expire_rows.simps [simp del]

definition ql_expire :: "time_point \<Rightarrow> log_list \<Rightarrow> log_list throws" where
  "ql_expire now q =
     bind_exn (expire_rows now 0 None (ql_log_events q)) (\<lambda>evs. Inr (q\<lparr>ql_log_events := evs\<rparr>))"

subsection \<open>What the model shows\<close>

datatype qcolor = Gray | Black | Yellow | Red | White

datatype qvariant = Q_invalid | Q_string string | Q_brush qcolor

datatype qrole = Display_role | Foreground_role | Background_role | Other_role

definition column_count :: nat where "column_count = 4"

definition row_count :: "log_list \<Rightarrow> nat" where "row_count q = length (ql_log_events q)"

text \<open>\<^verbatim>\<open>data\<close> for a row and column, \<open>None\<close> for an invalid index.\<close>

definition ql_data :: "log_list \<Rightarrow> (nat \<times> nat) option \<Rightarrow> qrole \<Rightarrow> qvariant" where
  "ql_data q index role =
     (case index of
        None \<Rightarrow> Q_invalid
      | Some (row, column) \<Rightarrow>
          if row \<ge> length (ql_log_events q) then Q_invalid
          else
            let le = ql_log_events q ! row
            in case role of
                Display_role \<Rightarrow>
                  if column = 0 then Q_string (le_time_string le)
                  else if column = 1 then Q_string (level_name (le_level le))
                  else if column = 2 then Q_string (le_subsystem_string le)
                  else if column = 3 then Q_string (le_message le)
                  else Q_invalid
              | Foreground_role \<Rightarrow> if le_level le < Info then Q_brush Gray else Q_brush Black
              | Background_role \<Rightarrow>
                  if le_level le = Warning then Q_brush Yellow
                  else if le_level le = Severe then Q_brush Red else Q_brush White
              | Other_role \<Rightarrow> Q_invalid)"

definition header_data :: "nat \<Rightarrow> qrole \<Rightarrow> qvariant" where
  "header_data sect role =
     (if role \<noteq> Display_role then Q_invalid
      else if sect = 0 then Q_string ''Time'' else if sect = 1 then Q_string ''Severity''
      else if sect = 2 then Q_string ''Component'' else if sect = 3 then Q_string ''Message''
      else Q_invalid)"

subsection \<open>What expire does\<close>

lemma bind_exn_if: "bind_exn (if b then x else y) f = (if b then bind_exn x f else bind_exn y f)"
  by simp

lemma not_future: "le_time e \<le> now \<Longrightarrow> trunc_div (le_time e - now) ns_per_s \<le> 3600"
proof -
  assume "le_time e \<le> now"
  then have "sgn (le_time e - now) * sgn ns_per_s * (\<bar>le_time e - now\<bar> div \<bar>ns_per_s\<bar>) \<le> 0"
    by (cases "le_time e = now") (simp_all add: ns_per_s_def pos_imp_zdiv_nonneg_iff)
  then show ?thesis by (simp add: trunc_div_def)
qed

lemma expire_rows_run:
  assumes "\<forall>e \<in> set evs. le_time e \<le> now" "f \<le> row"
  shows "expire_rows now row (Some f) evs =
    (if \<forall>e \<in> set (drop row evs). debug_level e then Inr (take f evs) else Inl Use_after_free)"
  using assms(2)
proof (induction "length evs - row" arbitrary: row)
  case 0
  then show ?case by (simp add: expire_rows.simps [of now row])
next
  case (Suc n)
  then have row: "row < length evs" by simp
  then have split: "drop row evs = evs ! row # drop (Suc row) evs" by (simp add: Cons_nth_drop_Suc)
  have "trunc_div (le_time (evs ! row) - now) ns_per_s \<le> 3600"
    using row assms(1) by (intro not_future) simp
  then show ?case
    using Suc row by (simp add: expire_rows.simps [of now row "Some f" evs] split)
qed

lemma expire_rows_start:
  assumes "\<forall>e \<in> set evs. le_time e \<le> now" "row \<le> length evs" "\<forall>e \<in> set (take row evs). \<not> debug_level e"
  shows "expire_rows now row None evs =
    (if \<forall>e \<in> set (dropWhile (\<lambda>e. \<not> debug_level e) (drop row evs)). debug_level e
     then Inr (filter (\<lambda>e. \<not> debug_level e) evs) else Inl Use_after_free)"
  using assms(2,3)
proof (induction "length evs - row" arbitrary: row)
  case 0
  then show ?case by (simp add: expire_rows.simps [of now row])
next
  case (Suc n)
  then have row: "row < length evs" by simp
  then have split: "drop row evs = evs ! row # drop (Suc row) evs" by (simp add: Cons_nth_drop_Suc)
  have past: "trunc_div (le_time (evs ! row) - now) ns_per_s \<le> 3600"
    using row assms(1) by (intro not_future) simp
  show ?case
  proof (cases "debug_level (evs ! row)")
    case True
    let ?all = "\<forall>e \<in> set (drop (Suc row) evs). debug_level e"
    have kept: "filter (\<lambda>e. \<not> debug_level e) evs = take row evs" if ?all
    proof -
      have "filter (\<lambda>e. \<not> debug_level e) (drop row evs) = []"
        using that True by (simp only: split filter_empty_conv) auto
      moreover have "filter (\<lambda>e. \<not> debug_level e) (take row evs) = take row evs"
        using Suc.prems(2) by (intro filter_True)
      ultimately show ?thesis by (metis append_Nil2 append_take_drop_id filter_append)
    qed
    have "expire_rows now row None evs = expire_rows now (Suc row) (Some row) evs"
      using True past row by (simp add: expire_rows.simps [of now row None evs])
    also have "\<dots> = (if ?all then Inr (take row evs) else Inl Use_after_free)"
      using expire_rows_run [OF assms(1), of row "Suc row"] by simp
    finally show ?thesis
      using True kept by (simp add: split)
  next
    case False
    have "take (Suc row) evs = take row evs @ [evs ! row]" using row by (simp add: take_Suc_conv_app_nth)
    then show ?thesis
      using False past row Suc.hyps(1) [of "Suc row"] Suc.hyps(2) Suc.prems
      by (simp add: expire_rows.simps [of now row None evs] split)
  qed
qed

text \<open>
  What \<^verbatim>\<open>expire\<close> does to entries that are not from the future: the age plays no role. If
  the debug entries are all at the end they are all removed, also those logged a moment ago; if
  any debug entry has another entry after it, the loop goes on with an iterator that
  \<^verbatim>\<open>erase\<close> has invalidated.
\<close>

theorem expire_ignores_age:
  assumes "\<forall>e \<in> set (ql_log_events q). le_time e \<le> now"
  shows "ql_expire now q =
    (if \<forall>e \<in> set (dropWhile (\<lambda>e. \<not> debug_level e) (ql_log_events q)). debug_level e
     then Inr (q\<lparr>ql_log_events := filter (\<lambda>e. \<not> debug_level e) (ql_log_events q)\<rparr>)
     else Inl Use_after_free)"
proof -
  have none: "\<forall>e \<in> set (take 0 (ql_log_events q)). \<not> debug_level e" by simp
  show ?thesis
    unfolding ql_expire_def expire_rows_start [OF assms le0 none] drop_0
    by (simp only: bind_exn_if bind_exn_simps)
qed

theorem expire_ignores_age_witness:
  "ql_expire 100 \<lparr>ql_log_events = [sample_event Info ''a'' 98, sample_event Fine ''b'' 99]\<rparr> =
     Inr \<lparr>ql_log_events = [sample_event Info ''a'' 98]\<rparr>"
  using expire_ignores_age [of "\<lparr>ql_log_events = [sample_event Info ''a'' 98, sample_event Fine ''b'' 99]\<rparr>" 100]
  by (simp add: sample_event_def debug_level_def)

end
