(* ===== verification/Qt_Viewers.thy ===== *)
theory Qt_Viewers
  imports Qt_Log_List
begin

section \<open>The Qt viewers (Qt/QLogViewer.cpp, Qt/QFilteredLogViewer.cpp)\<close>

text \<open>
  The list view with its automatic scrolling, and the viewer with a check box for every level.
  Widgets, layouts and the timer are Qt's; what a regular expression matches is a parameter.
\<close>

subsection \<open>Automatic scrolling\<close>

record log_viewer =
  lv_auto_scroll :: bool
  lv_value :: int
  lv_maximum :: int

definition new_log_viewer :: "int \<Rightarrow> log_viewer" where
  "new_log_viewer maximum = \<lparr>lv_auto_scroll = True, lv_value = 0, lv_maximum = maximum\<rparr>"

definition viewer_scrolled :: "int \<Rightarrow> log_viewer \<Rightarrow> log_viewer" where
  "viewer_scrolled val v = v\<lparr>lv_auto_scroll := (val = lv_maximum v)\<rparr>"

text \<open>\<^verbatim>\<open>setValue\<close> emits \<^verbatim>\<open>valueChanged\<close>, which is connected to \<^verbatim>\<open>scrolled\<close>.\<close>

definition viewer_timeout :: "log_viewer \<Rightarrow> log_viewer" where
  "viewer_timeout v =
     (if \<not> lv_auto_scroll v then v
      else let v1 = v\<lparr>lv_value := lv_maximum v\<rparr>
           in if lv_value v = lv_maximum v then v1 else viewer_scrolled (lv_value v1) v1)"

lemma viewer_timeout_stays: "lv_auto_scroll (viewer_timeout v) = lv_auto_scroll v"
  by (simp add: viewer_timeout_def viewer_scrolled_def Let_def)

text \<open>
  The view follows the end of the list exactly as long as the user has last left the scroll bar
  there: new entries and timer ticks do not change the mode, and a tick moves to the end or not
  at all.
\<close>

definition viewer_grows :: "int \<Rightarrow> log_viewer \<Rightarrow> log_viewer" where
  "viewer_grows maximum v = v\<lparr>lv_maximum := maximum\<rparr>"

lemma viewer_timeout_value:
  "lv_value (viewer_timeout v) = (if lv_auto_scroll v then lv_maximum v else lv_value v)"
  "lv_maximum (viewer_timeout v) = lv_maximum v"
  by (simp_all add: viewer_timeout_def viewer_scrolled_def Let_def)

theorem viewer_follows_end:
  "lv_value (viewer_timeout (viewer_grows m (viewer_scrolled val v))) =
     (if val = lv_maximum v then m else lv_value v) \<and>
   lv_auto_scroll (viewer_timeout (viewer_grows m (viewer_scrolled val v))) = (val = lv_maximum v)"
  by (simp add: viewer_timeout_value viewer_timeout_stays viewer_grows_def) (simp add: viewer_scrolled_def)

subsection \<open>The filter by level\<close>

text \<open>The check boxes: a text for every level and whether it is checked.\<close>

definition level_boxes :: "(string \<times> bool) list" where
  "level_boxes = map (\<lambda>i. (level_name i, True)) all_levels"

fun join_with :: "string \<Rightarrow> string list \<Rightarrow> string" where
  "join_with sep [] = []"
| "join_with sep [s] = s"
| "join_with sep (s # t # ss) = s @ sep @ join_with sep (t # ss)"

definition box_toggled :: "(string \<times> bool) list \<Rightarrow> string" where
  "box_toggled boxes = ''^('' @ join_with ''|'' (map fst (filter snd boxes)) @ '')$''"

text \<open>
  The viewer: the list it shows, the boxes, and the key column and expression of the
  \<^verbatim>\<open>QSortFilterProxyModel\<close> between them.
\<close>

record filtered_viewer =
  fv_loglist :: log_list
  fv_boxes :: "(string \<times> bool) list"
  fv_column :: nat
  fv_regexp :: string

definition new_filtered_viewer :: "log_list \<Rightarrow> filtered_viewer" where
  "new_filtered_viewer q = \<lparr>fv_loglist = q, fv_boxes = level_boxes, fv_column = 1, fv_regexp = box_toggled level_boxes\<rparr>"

text \<open>The user toggles box \<open>i\<close>, which emits \<^verbatim>\<open>toggled\<close>.\<close>

definition toggle_box :: "nat \<Rightarrow> filtered_viewer \<Rightarrow> filtered_viewer" where
  "toggle_box i v =
     (if i < length (fv_boxes v)
      then let boxes = (fv_boxes v)[i := (fst (fv_boxes v ! i), \<not> snd (fv_boxes v ! i))]
           in v\<lparr>fv_boxes := boxes, fv_regexp := box_toggled boxes\<rparr>
      else v)"

text \<open>The rows the proxy model lets through: those whose text in the key column matches.\<close>

definition shown_rows :: "(string \<Rightarrow> string \<Rightarrow> bool) \<Rightarrow> filtered_viewer \<Rightarrow> nat list" where
  "shown_rows matches v = filter (\<lambda>row. case ql_data (fv_loglist v) (Some (row, fv_column v)) Display_role of
      Q_string s \<Rightarrow> matches (fv_regexp v) s | _ \<Rightarrow> matches (fv_regexp v) []) [0..<row_count (fv_loglist v)]"

text \<open>What Qt documents of an expression that lists words: it matches these words.\<close>

definition matches_words :: "(string \<Rightarrow> string \<Rightarrow> bool) \<Rightarrow> bool" where
  "matches_words matches \<longleftrightarrow> (\<forall>ws s. (\<forall>w \<in> set ws. w \<noteq> [] \<and> (\<forall>c \<in> set w. CHR ''a'' \<le> c \<and> c \<le> CHR ''z'')) \<longrightarrow>
     s \<noteq> [] \<longrightarrow> matches (''^('' @ join_with ''|'' ws @ '')$'') s = (s \<in> set ws))"

definition box_state :: "filtered_viewer \<Rightarrow> log_level \<Rightarrow> bool" where
  "box_state v l \<longleftrightarrow> (level_name l, True) \<in> set (fv_boxes v)"

text \<open>Every level has its box, and the filter is always that of the boxes.\<close>

definition viewer_ok :: "filtered_viewer \<Rightarrow> bool" where
  "viewer_ok v \<longleftrightarrow> map fst (fv_boxes v) = map level_name all_levels \<and> fv_column v = 1 \<and>
     fv_regexp v = box_toggled (fv_boxes v)"

lemma viewer_ok_new: "viewer_ok (new_filtered_viewer q)"
  by (simp add: viewer_ok_def new_filtered_viewer_def level_boxes_def comp_def)

lemma viewer_ok_toggle: "viewer_ok v \<Longrightarrow> viewer_ok (toggle_box i v)"
  by (simp add: viewer_ok_def toggle_box_def Let_def map_update)
    (metis length_map list_update_id nth_map)

lemma viewer_ok_toggles: "viewer_ok v \<Longrightarrow> viewer_ok (fold toggle_box is v)"
  by (induction "is" arbitrary: v) (simp_all add: viewer_ok_toggle)

lemma toggles_keep_list: "fv_loglist (fold toggle_box is v) = fv_loglist v"
proof (induction "is" arbitrary: v)
  case (Cons i "is")
  have "fv_loglist (toggle_box i v) = fv_loglist v" by (simp add: toggle_box_def Let_def)
  then show ?case using Cons by simp
qed simp

lemma level_name_word: "level_name l \<noteq> [] \<and> (\<forall>c \<in> set (level_name l). CHR ''a'' \<le> c \<and> c \<le> CHR ''z'')"
  by (cases l) (simp_all add: less_eq_char_def)

text \<open>With the filter of its boxes, a viewer shows the rows whose box is checked.\<close>

lemma viewer_ok_shows:
  assumes "matches_words matches" and ok: "viewer_ok v"
  shows "shown_rows matches v = filter (\<lambda>row. box_state v (le_level (ql_log_events (fv_loglist v) ! row)))
    [0..<row_count (fv_loglist v)]"
proof -
  let ?ws = "map fst (filter snd (fv_boxes v))"
  have boxes: "w \<in> level_name ` UNIV" if "(w, b) \<in> set (fv_boxes v)" for w b
  proof -
    have "w \<in> set (map fst (fv_boxes v))" using that by force
    then have "w \<in> set (map level_name all_levels)" using ok by (simp only: viewer_ok_def)
    then show ?thesis by auto
  qed
  have words: "\<forall>w \<in> set ?ws. w \<noteq> [] \<and> (\<forall>c \<in> set w. CHR ''a'' \<le> c \<and> c \<le> CHR ''z'')"
  proof
    fix w
    assume "w \<in> set ?ws"
    then have "w \<in> level_name ` UNIV" using boxes by auto
    then obtain l where "w = level_name l" by auto
    then show "w \<noteq> [] \<and> (\<forall>c \<in> set w. CHR ''a'' \<le> c \<and> c \<le> CHR ''z'')" using level_name_word by simp
  qed
  have match: "matches (fv_regexp v) (level_name l) = box_state v l" for l
  proof -
    have "matches (fv_regexp v) (level_name l) = (level_name l \<in> set ?ws)"
      using assms words level_name_word [of l] ok by (simp add: matches_words_def viewer_ok_def box_toggled_def)
    also have "\<dots> = box_state v l" by (force simp: box_state_def)
    finally show ?thesis .
  qed
  have column: "fv_column v = 1" using ok by (simp add: viewer_ok_def)
  show ?thesis unfolding shown_rows_def column
  proof (rule filter_cong [OF refl])
    fix row
    assume "row \<in> set [0..<row_count (fv_loglist v)]"
    then have "ql_data (fv_loglist v) (Some (row, 1)) Display_role =
        Q_string (level_name (le_level (ql_log_events (fv_loglist v) ! row)))"
      by (simp add: ql_data_def row_count_def Let_def)
    then show "(case ql_data (fv_loglist v) (Some (row, 1)) Display_role of Q_string s \<Rightarrow> matches (fv_regexp v) s
        | _ \<Rightarrow> matches (fv_regexp v) []) = box_state v (le_level (ql_log_events (fv_loglist v) ! row))"
      by (simp add: match)
  qed
qed

text \<open>
  C40. The filtered view shows what its boxes say: after any clicks on the boxes, the rows shown are
  exactly those of the list whose level's box is checked, in order; a new viewer shows all.
\<close>

theorem filtered_viewer_shows:
  assumes "matches_words matches"
  shows "shown_rows matches (fold toggle_box is (new_filtered_viewer q)) =
      filter (\<lambda>row. box_state (fold toggle_box is (new_filtered_viewer q)) (le_level (ql_log_events q ! row)))
        [0..<row_count q] \<and>
    shown_rows matches (new_filtered_viewer q) = [0..<row_count q]"
proof -
  have "l \<in> set all_levels" for l by (cases l) (simp_all add: all_levels_def s_level_names_def)
  then have new: "box_state (new_filtered_viewer q) l" for l
    unfolding box_state_def new_filtered_viewer_def level_boxes_def by auto
  have list: "fv_loglist (new_filtered_viewer q) = q" by (simp add: new_filtered_viewer_def)
  show ?thesis
    using viewer_ok_shows [OF assms viewer_ok_toggles [OF viewer_ok_new [of q]], of "is"]
      viewer_ok_shows [OF assms viewer_ok_new [of q]]
    unfolding toggles_keep_list list by (simp add: new)
qed

text \<open>An engine for such expressions, for the witness: it takes the words apart again.\<close>

fun split_words :: "string \<Rightarrow> string \<Rightarrow> string list" where
  "split_words w [] = [w]"
| "split_words w (c # cs) = (if c = CHR ''|'' then w # split_words [] cs else split_words (w @ [c]) cs)"

definition word_match :: "string \<Rightarrow> string \<Rightarrow> bool" where
  "word_match re s \<longleftrightarrow> s \<in> set (split_words [] (take (length re - 4) (drop 2 re)))"

lemma split_words_word:
  "CHR ''|'' \<notin> set w \<Longrightarrow> split_words v w = [v @ w]"
  "CHR ''|'' \<notin> set w \<Longrightarrow> split_words v (w @ CHR ''|'' # r) = (v @ w) # split_words [] r"
  by (induction w arbitrary: v) auto

lemma split_words_join:
  "\<forall>w \<in> set ws. CHR ''|'' \<notin> set w \<Longrightarrow> ws \<noteq> [] \<Longrightarrow> split_words [] (join_with ''|'' ws) = ws"
proof (induction "''|''" ws rule: join_with.induct)
  case (3 s t ss)
  then show ?case by (simp add: split_words_word(2) del: split_words.simps)
qed (simp_all add: split_words_word)

lemma word_match_words: "matches_words word_match"
  unfolding matches_words_def
proof (intro allI impI)
  fix ws s
  assume ws: "\<forall>w \<in> set ws. w \<noteq> [] \<and> (\<forall>c \<in> set w. CHR ''a'' \<le> c \<and> c \<le> CHR ''z'')" and s: "s \<noteq> ([] :: string)"
  have "\<not> CHR ''|'' \<le> CHR ''z''" by (simp add: less_eq_char_def)
  then have "\<forall>w \<in> set ws. CHR ''|'' \<notin> set w" using ws by blast
  then show "word_match (''^('' @ join_with ''|'' ws @ '')$'') s = (s \<in> set ws)"
    using s split_words_join [of ws] by (cases "ws = []") (simp_all add: word_match_def)
qed

theorem filtered_viewer_shows_witness:
  "shown_rows word_match (fold toggle_box [2, 4, 2] (new_filtered_viewer
     \<lparr>ql_log_events = [sample_event Info ''a'' 0, sample_event Fine ''b'' 1, sample_event Severe ''c'' 2]\<rparr>)) = [1, 2]"
proof -
  let ?q = "\<lparr>ql_log_events = [sample_event Info ''a'' 0, sample_event Fine ''b'' 1, sample_event Severe ''c'' 2]\<rparr>"
  let ?v = "fold toggle_box [2, 4, 2] (new_filtered_viewer ?q)"
  have "fv_boxes ?v = [(''finest'', True), (''finer'', True), (''fine'', True), (''config'', True), (''info'', False),
      (''warning'', True), (''severe'', True)]"
    by (simp add: new_filtered_viewer_def level_boxes_def all_levels_def s_level_names_def toggle_box_def Let_def)
  then have "\<not> box_state ?v Info" "box_state ?v Fine" "box_state ?v Severe"
    by (simp_all add: box_state_def)
  moreover have "[0..<row_count ?q] = [0, 1, 2]" by (simp add: row_count_def upt_rec)
  ultimately show ?thesis
    using filtered_viewer_shows [OF word_match_words, of "[2, 4, 2]" ?q]
    by (simp add: sample_event_def del: fold_simps)
qed

end
