(* ===== verification/Spec2Isabelle.thy ===== *)
theory Spec2Isabelle
  imports Unreachable_Server Removal Event_Queue_Refinement Thread_Name Epics_Shell Qt_Viewers Parse_Url
begin

text \<open>
  Verification of the Logfile library: log messages of an application go through the filters of
  \<^verbatim>\<open>logger\<close> into the queue of \<^verbatim>\<open>log_thread\<close>, which distributes them to the sinks
  (classes derived from \<^verbatim>\<open>output_stream\<close>: console, file, STOMP server, Qt list); what a
  sink refuses waits in a \<^verbatim>\<open>retry_thread\<close> of its own. Around this core: a URL parser, a TCP
  client with SOCKS and SSL, a line splitter, and shell commands for EPICS.

  \<^bold>\<open>The theories\<close>, in the order of their imports; the file and function names are those
  under \<^verbatim>\<open>src/\<close>, and most definitions have the name of the function they translate.

  \<^item> \<open>Prelude\<close>: results of functions that can throw (\<open>throws\<close>, with the exceptions and
    the undefined behaviour that occur, such as following a null pointer or using a deleted
    object, as values of \<open>exn\<close>). \<open>Cpp_Map\<close>: \<^verbatim>\<open>std::map\<close> as a sorted association list, with
    its laws as a locale. \<open>Cpp_String\<close>: \<^verbatim>\<open>std::string\<close> searching, \<^verbatim>\<open>strtol\<close>,
    \<^verbatim>\<open>stoi\<close>, \<^verbatim>\<open>atoi\<close> and number output. \<open>Chunked\<close>: the locales for consumers of
    a byte stream that do not depend on how it is cut into buffers.
  \<^item> \<open>Log_Level\<close> (logger.h, logger_private.cpp): the levels, their order and names.
    \<open>Log_Event\<close> (log_event.cpp): the event and its two time formats.
    \<open>Line_Splitter\<close> (line_splitter.cpp). \<open>Parse_Url\<close> (parse_url.cpp).
  \<^item> \<open>Output_Stream\<close> (output_stream.cpp): the base class of the sinks. A sink is the base
    class's level and a state of the derived class; the virtual functions, the destructor
    included, are the record \<open>stream_class\<close>. The locale \<open>sink\<close> is the contract of \<^verbatim>\<open>do_write\<close>, on which the
    delivery lemmas rest; the console and the Qt list are interpretations of it.
    \<open>Stdout_Stream\<close> (output_stream_stdout.cpp), \<open>File_Stream\<close> (output_stream_file.cpp, on a
    model of directory, files and \<^verbatim>\<open>std::ofstream\<close>).
  \<^item> \<open>Retry_Thread\<close> (retry_thread.cpp), \<open>Log_Thread\<close> (log_thread.cpp): queues, fan-out,
    start of retry threads, main loop and shutdown. Sinks are objects on a heap and the maps
    hold addresses, so that a deleted sink that is still referred to shows; \<^verbatim>\<open>delete\<close> runs the
    sink's destructor, which can end the program, and \<open>lt_deleted\<close> records what it left. \<open>Thread_Name\<close>: the
    entry of the log thread, which names it.
    \<open>Delivery\<close>: the same two threads and the application as a step relation, every access
    to shared data a step of its own. \<open>Delivery_Refinement\<close>: any history of the functions of
    \<open>Log_Thread\<close> and \<open>Retry_Thread\<close> is, for each sink, a run of that relation.
    \<open>Event_Queue\<close>: the queue between the threads of the application and the log thread, with
    its mutex, its condition variable, its one joinable thread and signals, as a step relation
    of its own; \<open>Event_Queue_Refinement\<close>: the rounds of the main loop of \<open>Log_Thread\<close> are
    schedules of it, and deliver what these pass on.
  \<^item> \<open>Logger\<close> (logger.cpp, subsystem_registrator.cpp): subsystems, filters and macros,
    administration of sinks, termination, crash handler, \<^verbatim>\<open>string_format\<close>.
    \<open>Application\<close>: the composition of logger, log thread and console. \<open>Removal\<close>: removing a
    sink that has a retry thread.
  \<^item> \<open>Tcp_Socket\<close> (tcp_client_socket.cpp), \<open>Stomp_Text\<close>, \<open>Stomp_Frame\<close> and \<open>Stomp_Stream\<close>
    (output_stream_stomp.cpp: quoting; incoming frames and negotiation; connecting and
    writing). \<open>Stomp_Delivery\<close>: the same sink as a class of sinks the log thread drives, with
    what the network and the server do in each call as a part of its state.
  \<^item> \<open>Crash_Handler\<close>: the whole library together, a console and a message server behind one
    logger when the program crashes, and the program \<^verbatim>\<open>examples/stomp/stomp.cpp\<close>. What the
    STOMP sink logs itself goes back into the queue, as events of its subsystems.
    \<open>Unreachable_Server\<close>: that library behind a message server that never answers.
  \<^item> \<open>Qt_Log_List\<close> (Qt/QLogList.cpp), \<open>Qt_Viewers\<close> (Qt/QLogViewer.cpp,
    Qt/QFilteredLogViewer.cpp), \<open>Epics_Shell\<close> (EPICS/).

  \<^bold>\<open>What is shown.\<close> The properties are numbered C1 to C40, each in the theory of the code it
  is about.

  \<^item> The whole library (\<open>Application\<close>, \<open>Crash_Handler\<close>, \<open>Unreachable_Server\<close>): logged
    messages reach the console exactly as filtered and in order (C1); a crash loses none of them
    on the console or on a message server, although the handler then ends in
    \<^verbatim>\<open>std::terminate\<close> (C2); with a server that cannot be reached the program
    never ends (C3).
  \<^item> Delivery (\<open>Log_Thread\<close>, \<open>Delivery_Refinement\<close>, \<open>Delivery\<close>, \<open>Retry_Thread\<close>): one
    delivery refines the specification \<open>sink_log\<close> of a single sink (C4), a history of
    deliveries and retry cycles refines the step relation (C5) and so keeps all severe events
    (C6); under every interleaving nothing is duplicated, reordered or, if severe, lost, direct
    writes are exclusive, and every schedule without refusals is bounded and delivers everything,
    except when the gap between \<^verbatim>\<open>active()\<close> and \<^verbatim>\<open>enqueue()\<close> has cut the sink off
    (C11 to C15); a retry thread accounts for every event it is fed (C18); what holds when the
    main loop returns, and two ways in which shutdown fails (C19 to C21).
  \<^item> The queue between the threads (\<open>Event_Queue\<close>, \<open>Event_Queue_Refinement\<close>):
    under every schedule it loses, repeats and reorders nothing (C7), no wake-up is lost (C8) and
    the log thread gets on (C9); the rounds of the main loop are some of these schedules, and
    deliver to every sink what the schedule passes on (C10);
    what a signal does that arrives inside \<^verbatim>\<open>enqueue\<close> or on the log thread (C16, C17).
  \<^item> Logger and administration (C22, C23, C38); the file sink: size limit, what a rotation
    keeps and what it replaces, a rotation that fails, quoting (C24 to C26).
  \<^item> STOMP: a batch from the first event to the last acknowledgement (C27), a receipt that
    does not come (C28), thread handling, well-formed packets, frames under any cut into
    buffers, quoting (C29 to C34). URLs (C35, C36), SOCKS (C37), line splitting (C39), the
    filtered view of the Qt list (C40).

  Where the code does not do what it means to, the theorem states what it does: C2, C3, C15, C16,
  C17, C20, C21, C23, C25, C28 and C37.

  \<^bold>\<open>Bounds.\<close> All loops of the code that end are total functions with a measure;
  \<^verbatim>\<open>replace_all\<close>, which does not return for an empty pattern, is a partial function whose
  result is \<open>None\<close> then (C33). Loops that run for the life of a thread take the list of
  rounds they make, each with what the other threads and the operating system do in it
  (\<open>rt_run\<close>, \<open>do_run\<close>, \<open>stomp_run\<close>, \<open>lt_run_ops\<close>, \<open>system_run\<close>,
  \<open>qrun\<close>), so that no property depends on a chosen number of rounds. Subsystem ids, receipt numbers, ports and bytes are words of their width;
  \<^verbatim>\<open>int\<close> overflow in \<^verbatim>\<open>string_format\<close> is an error value. Time points are integers in
  nanoseconds, and properties about expiry assume them within the range of the clock.

  \<^bold>\<open>Parameters.\<close> What is not under \<^verbatim>\<open>src/\<close> is an argument: the time zone,
  \<^verbatim>\<open>vsnprintf\<close>, the outcome of starting a thread, of system calls on sockets and
  processes, and of OpenSSL, and the values of environment variables. The standard library
  (strings, maps, streams, number conversion, calendar) is modelled as documented.

  \<^bold>\<open>Not modelled.\<close> Windows branches; the initialisation of OpenSSL; installation of signal
  handlers, and a signal that arrives while the interrupted code holds another mutex than that of
  the event queue; Qt's widgets, layout, change notifications and regular expressions; the EPICS
  shell itself; build files and documentation. Data races on \<^verbatim>\<open>m_streams\<close> and \<^verbatim>\<open>m_subsystems\<close>, which the code accesses
  without a lock, are outside the model: there these maps change only between the steps of the
  log thread.
\<close>

end
